(* ===== verification/Prelude.thy ===== *)
theory Prelude
  imports Main "HOL-Library.Word" "HOL-Library.Monad_Syntax" "HOL-Library.Signed_Division"
begin

text \<open>
  The vocabulary every theory of the development shares: the machine types of
  \<^verbatim>\<open>sys/types.h\<close> as words, the error numbers of \<^verbatim>\<open>errno_defs.h\<close> as a datatype, the byte
  memory the string library works on, and the lemmas on options, lists and words that the
  component proofs use again and again.

  Conventions of the translation:
  \<^item> \<open>uint8_t\<close>, \<open>uint16_t\<close>, \<open>uint32_t\<close> (and \<open>size_t\<close>, \<open>pid_t\<close>, \<open>mode_t\<close>) are
    \<open>8\<close>, \<open>16\<close> and \<open>32 word\<close>; a plain \<open>char\<close> is an \<open>8 word\<close> whose value is read with
    \<open>sint\<close>, since \<open>char\<close> is signed on i386;
  \<^item> a C \<open>int\<close> is an \<open>int\<close> where its arithmetic cannot leave the 32-bit range and a
    \<open>32 word\<close> read with \<open>sint\<close> where it can;
  \<^item> a routine that may loop forever, dereference NULL or panic returns an \<open>option\<close>;
    \<open>None\<close> is "does not return". A theorem about such a routine always proves
    \<open>= Some \<dots>\<close>, never only "if it returns".
\<close>

unbundle bit_operations_syntax

section \<open>Machine types\<close>

type_synonym u8 = "8 word"
type_synonym u16 = "16 word"
type_synonym u32 = "32 word"

text \<open>Byte-addressed memory as the string routines see it; address 0 is NULL.\<close>

type_synonym mem = "nat \<Rightarrow> u8"

text \<open>An \<open>int\<close> of C after an operation that can overflow.\<close>

definition i32 :: "int \<Rightarrow> int" where
  "i32 x = signed_take_bit 31 x"

section \<open>Error numbers\<close>

text \<open>The members of \<^verbatim>\<open>errno_defs.h\<close> that the modelled code assigns to \<open>errno\<close>.\<close>

datatype errno =
    ERANGE | EAGAIN | EBADF | ECHILD | EEXIST | EINVAL | EISDIR | EMFILE | ENFILE
  | ENOBUFS | ENOENT | ENOEXEC | ENOMEM | ENOSPC | ENOSYS | ENXIO | EPIPE | EROFS | ESPIPE

fun errno_num :: "errno \<Rightarrow> nat" where
  "errno_num ERANGE = 2"
| "errno_num EAGAIN = 9"
| "errno_num EBADF = 11"
| "errno_num ECHILD = 15"
| "errno_num EEXIST = 22"
| "errno_num EINVAL = 29"
| "errno_num EISDIR = 32"
| "errno_num EMFILE = 34"
| "errno_num ENFILE = 42"
| "errno_num ENOBUFS = 43"
| "errno_num ENOENT = 46"
| "errno_num ENOEXEC = 47"
| "errno_num ENOMEM = 50"
| "errno_num ENOSPC = 53"
| "errno_num ENOSYS = 56"
| "errno_num ENXIO = 64"
| "errno_num EPIPE = 69"
| "errno_num EROFS = 73"
| "errno_num ESPIPE = 74"

section \<open>Collections of facts\<close>

named_theorems c_simps \<open>unfolding rules of the modelled routines\<close>
named_theorems inv_intros \<open>every operation keeps the invariant of its component\<close>
named_theorems frame_simps \<open>what an operation leaves unchanged\<close>

section \<open>Options\<close>

lemma bind_eq_Some_iff: "Option.bind x f = Some z \<longleftrightarrow> (\<exists>y. x = Some y \<and> f y = Some z)"
  by (cases x) auto

lemma bind_pair_eq_Some_iff:
  "Option.bind x (\<lambda>(a, b). f a b) = Some z \<longleftrightarrow> (\<exists>a b. x = Some (a, b) \<and> f a b = Some z)"
  by (cases x) (auto split: prod.splits)

section \<open>Lists\<close>

lemma nth_snoc_old [simp]: "i < length xs \<Longrightarrow> (xs @ [x]) ! i = xs ! i"
  by (simp add: nth_append)

lemma takeWhile_append_stop:
  "\<forall>x \<in> set xs. P x \<Longrightarrow> \<not> P y \<Longrightarrow> takeWhile P (xs @ y # ys) = xs"
  by (simp add: takeWhile_append2)

section \<open>Bytes of memory\<close>

text \<open>\<open>bytes m p n\<close> reads \<open>n\<close> bytes from \<open>p\<close> on.\<close>

definition bytes :: "mem \<Rightarrow> nat \<Rightarrow> nat \<Rightarrow> u8 list" where
  "bytes m p n = map (\<lambda>i. m (p + i)) [0..<n]"

lemma length_bytes [simp]: "length (bytes m p n) = n"
  by (simp add: bytes_def)

lemma nth_bytes [simp]: "i < n \<Longrightarrow> bytes m p n ! i = m (p + i)"
  by (simp add: bytes_def)

lemma bytes_0 [simp]: "bytes m p 0 = []"
  by (simp add: bytes_def)

lemma bytes_Suc: "bytes m p (Suc n) = m p # bytes m (Suc p) n"
  by (rule nth_equalityI) (auto simp: nth_Cons split: nat.splits)

lemma bytes_eq_iff: "bytes m p n = bytes m' q n \<longleftrightarrow> (\<forall>i<n. m (p + i) = m' (q + i))"
  by (auto simp: list_eq_iff_nth_eq)

text \<open>
  A C string: the bytes of \<open>s\<close>, none of them NUL, then a NUL. The predicate is recursive in
  \<open>s\<close>, so that induction over \<open>s\<close> follows the scanning loops of the library.
\<close>

fun cstr :: "mem \<Rightarrow> nat \<Rightarrow> u8 list \<Rightarrow> bool" where
  "cstr m p [] \<longleftrightarrow> m p = 0"
| "cstr m p (c # s) \<longleftrightarrow> m p = c \<and> c \<noteq> 0 \<and> cstr m (Suc p) s"

lemma cstr_nth: "cstr m p s \<Longrightarrow> i < length s \<Longrightarrow> m (p + i) = s ! i \<and> s ! i \<noteq> 0"
proof (induction s arbitrary: p i)
  case (Cons c s)
  then show ?case by (cases i) (use Cons.IH [of "Suc p"] in auto)
qed simp

lemma cstr_end: "cstr m p s \<Longrightarrow> m (p + length s) = 0"
  by (induction s arbitrary: p) (use add_Suc_shift in fastforce)+

lemma cstr_iff:
  "cstr m p s \<longleftrightarrow> (\<forall>i<length s. m (p + i) = s ! i \<and> s ! i \<noteq> 0) \<and> m (p + length s) = 0"
proof
  assume "cstr m p s"
  then show "(\<forall>i<length s. m (p + i) = s ! i \<and> s ! i \<noteq> 0) \<and> m (p + length s) = 0"
    using cstr_nth cstr_end by blast
next
  assume "(\<forall>i<length s. m (p + i) = s ! i \<and> s ! i \<noteq> 0) \<and> m (p + length s) = 0"
  then show "cstr m p s"
  proof (induction s arbitrary: p)
    case (Cons c s)
    have "\<forall>i<length s. m (Suc p + i) = s ! i \<and> s ! i \<noteq> 0"
      using Cons.prems by (metis Suc_less_eq add_Suc_shift length_Cons nth_Cons_Suc)
    moreover have "m (Suc p + length s) = 0"
      using Cons.prems by simp
    moreover have "m p = c \<and> c \<noteq> 0"
      using Cons.prems by (metis add.right_neutral length_greater_0_conv list.distinct(1) nth_Cons_0)
    ultimately show ?case using Cons.IH by simp
  qed simp
qed

lemma cstr_unique: "cstr m p s \<Longrightarrow> cstr m p t \<Longrightarrow> s = t"
proof (induction s arbitrary: p t)
  case Nil
  then show ?case by (cases t) auto
next
  case (Cons c s)
  then show ?case by (cases t) auto
qed

lemma cstr_nonzero: "cstr m p s \<Longrightarrow> c \<in> set s \<Longrightarrow> c \<noteq> 0"
  by (metis cstr_nth in_set_conv_nth)

lemma cstr_append: "cstr m p (s @ t) \<Longrightarrow> cstr m (p + length s) t"
  by (induction s arbitrary: p) (use add_Suc_shift in fastforce)+

lemma cstr_drop: "cstr m p s \<Longrightarrow> n \<le> length s \<Longrightarrow> cstr m (p + n) (drop n s)"
  by (metis append_take_drop_id cstr_append length_take min.absorb2)

lemma cstr_cong:
  "cstr m p s \<Longrightarrow> (\<And>i. i \<le> length s \<Longrightarrow> m' (p + i) = m (p + i)) \<Longrightarrow> cstr m' p s"
  by (auto simp: cstr_iff)

lemma cstr_bytes: "cstr m p s \<Longrightarrow> bytes m p (length s) = s"
  by (rule nth_equalityI) (auto dest: cstr_nth)

section \<open>Words\<close>

lemma sint_eq_iff_word: "sint (a :: 'a::len word) = sint b \<longleftrightarrow> a = b"
  by (metis signed_word_eqI)

lemma unat_u32_less: "unat (a :: u32) < 2 ^ 32"
  using unsigned_less [of a] by simp

lemma unat_u32_lt: "unat (a :: u32) < 4294967296"
  using unat_u32_less [of a] by simp

lemma unat_of_nat_u32: "n < 4294967296 \<Longrightarrow> unat (of_nat n :: u32) = n"
  by (simp add: unat_of_nat)

lemma sint_u32_lt: "sint (a :: u32) < 2147483648"
  using sint_lt [of a] by simp

lemma sint_u32_ge: "- 2147483648 \<le> sint (a :: u32)"
  using sint_ge [of a] by simp

lemma sint_nonneg_u32:
  assumes "0 \<le> sint (w :: u32)"
  shows "sint w = int (unat w)"
proof -
  have "sint w < 2 ^ 31" using sint_lt [of w] by simp
  then have "take_bit 32 (sint w) = sint w"
    using assms by (intro take_bit_int_eq_self) auto
  moreover have "uint (word_of_int k :: u32) = take_bit 32 k" for k
    by (simp add: uint_word_of_int_eq)
  ultimately have "uint w = sint w" by (metis of_int_sint scast_id)
  then show ?thesis by simp
qed

lemma unat_and_mask: "unat ((w :: u32) AND mask n) = unat w mod 2 ^ n"
  by (metis take_bit_eq_mask unsigned_take_bit_eq take_bit_eq_mod)

lemma word_and_1023: "unat (w AND 1023 :: u32) = unat w mod 1024"
  using unat_and_mask [of w 10] by (simp add: mask_eq_exp_minus_1)

lemma word_and_4095: "unat (w AND 4095 :: u32) = unat w mod 4096"
  using unat_and_mask [of w 12] by (simp add: mask_eq_exp_minus_1)

lemma word_and_not_4095: "unat (w AND NOT 4095 :: u32) = 4096 * (unat w div 4096)"
proof -
  have "w = (w AND NOT 4095) OR (w AND 4095)" by (simp add: bit.conj_disj_distrib [symmetric])
  moreover have "(w AND NOT 4095) OR (w AND 4095) = (w AND NOT 4095) + (w AND 4095)"
    by (rule disjunctive_add [symmetric]) (auto simp: bit_simps)
  ultimately have "w - (w AND 4095) = w AND NOT 4095" by (metis add_diff_cancel_right')
  moreover have "unat (w - (w AND 4095)) = unat w - unat w mod 4096"
    by (metis unat_sub_if_size word_and_4095 word_and_le2 word_le_nat_alt)
  ultimately show ?thesis by (metis minus_mod_eq_mult_div)
qed

lemma unat_inc: "unat (a :: u32) < 2 ^ 32 - 1 \<Longrightarrow> unat (a + 1) = unat a + 1"
  by (simp add: unat_word_ariths)

lemma sint_of_nat_u32: "n < 2147483648 \<Longrightarrow> sint (of_nat n :: u32) = int n"
  by (simp add: signed_of_nat signed_take_bit_int_eq_self)

lemma unat_add_of_nat_u32: "unat (w :: u32) + n < 4294967296 \<Longrightarrow> unat (w + of_nat n) = unat w + n"
  using unat_of_nat_u32 [of "unat w + n"] by simp

end
