(* ===== verification/Ctype.thy ===== *)
theory Ctype
  imports Prelude
begin

text \<open>
  Character classes: \<^verbatim>\<open>rlibc/ctype/ctype.c\<close> (argument \<open>int\<close>) and \<^verbatim>\<open>kernel/lib/ctype.c\<close>
  (the same bodies with a \<open>char\<close> argument, which the comparisons promote to \<open>int\<close>: the
  kernel routines are the same functions at \<open>sint\<close> of the byte).
\<close>

section \<open>The C library's routines\<close>

definition isdigit :: "int \<Rightarrow> int" where
  "isdigit c = (if c \<ge> 0x30 \<and> c \<le> 0x39 then 1 else 0)"

definition isalpha :: "int \<Rightarrow> int" where
  "isalpha c = (if (c \<ge> 0x41 \<and> c \<le> 0x5A) \<or> (c \<ge> 0x61 \<and> c \<le> 0x7A) then 1 else 0)"

definition isalnum :: "int \<Rightarrow> int" where
  "isalnum c = (if isalpha c \<noteq> 0 \<or> isdigit c \<noteq> 0 then 1 else 0)"

definition iscntrl :: "int \<Rightarrow> int" where
  "iscntrl c = (if c \<le> 0x1F \<or> c = 0x7F then 1 else 0)"

definition isgrapf :: "int \<Rightarrow> int" where
  "isgrapf c = (if c \<ge> 0x21 \<and> c \<le> 0x7E then 1 else 0)"

definition islower :: "int \<Rightarrow> int" where
  "islower c = (if c \<ge> 0x61 \<and> c \<le> 0x7A then 1 else 0)"

definition isprint :: "int \<Rightarrow> int" where
  "isprint c = (if c \<ge> 0x20 \<and> c \<le> 0x7E then 1 else 0)"

definition ispunct :: "int \<Rightarrow> int" where
  "ispunct c =
     (if (c \<ge> 0x21 \<and> c \<le> 0x2F) \<or> (c \<ge> 0x3A \<and> c \<le> 0x40)
        \<or> (c \<ge> 0x5B \<and> c \<le> 0x60) \<or> (c \<ge> 0x7B \<and> c \<le> 0x7E) then 1 else 0)"

definition isspace :: "int \<Rightarrow> int" where
  "isspace c = (if (c \<ge> 0x09 \<and> c \<le> 0x0D) \<or> c = 0x20 then 1 else 0)"

definition isupper :: "int \<Rightarrow> int" where
  "isupper c = (if c \<ge> 0x41 \<and> c \<le> 0x5A then 1 else 0)"

definition isxdigit :: "int \<Rightarrow> int" where
  "isxdigit c =
     (if isdigit c \<noteq> 0 \<or> (c \<ge> 0x41 \<and> c \<le> 0x46) \<or> (c \<ge> 0x61 \<and> c \<le> 0x66) then 1 else 0)"

definition tolower :: "int \<Rightarrow> int" where
  "tolower c = (if isupper c \<noteq> 0 then c + 0x20 else c)"

definition toupper :: "int \<Rightarrow> int" where
  "toupper c = (if islower c \<noteq> 0 then c - 0x20 else c)"

section \<open>The kernel's routines\<close>

definition k_isdigit :: "u8 \<Rightarrow> int" where "k_isdigit c = isdigit (sint c)"
definition k_isalpha :: "u8 \<Rightarrow> int" where "k_isalpha c = isalpha (sint c)"
definition k_isalnum :: "u8 \<Rightarrow> int" where "k_isalnum c = isalnum (sint c)"
definition k_iscntrl :: "u8 \<Rightarrow> int" where "k_iscntrl c = iscntrl (sint c)"
definition k_isgrapf :: "u8 \<Rightarrow> int" where "k_isgrapf c = isgrapf (sint c)"
definition k_islower :: "u8 \<Rightarrow> int" where "k_islower c = islower (sint c)"
definition k_isprint :: "u8 \<Rightarrow> int" where "k_isprint c = isprint (sint c)"
definition k_ispunct :: "u8 \<Rightarrow> int" where "k_ispunct c = ispunct (sint c)"
definition k_isspace :: "u8 \<Rightarrow> int" where "k_isspace c = isspace (sint c)"
definition k_isupper :: "u8 \<Rightarrow> int" where "k_isupper c = isupper (sint c)"
definition k_isxdigit :: "u8 \<Rightarrow> int" where "k_isxdigit c = isxdigit (sint c)"
definition k_tolower :: "u8 \<Rightarrow> int" where "k_tolower c = tolower (sint c)"
definition k_toupper :: "u8 \<Rightarrow> int" where "k_toupper c = toupper (sint c)"

lemmas ctype_defs = isdigit_def isalpha_def isalnum_def iscntrl_def isgrapf_def islower_def
  isprint_def ispunct_def isspace_def isupper_def isxdigit_def tolower_def toupper_def

lemmas k_ctype_defs = k_isdigit_def k_isalpha_def k_isalnum_def k_iscntrl_def k_isgrapf_def
  k_islower_def k_isprint_def k_ispunct_def k_isspace_def k_isupper_def k_isxdigit_def
  k_tolower_def k_toupper_def

section \<open>Laws\<close>

lemma isdigit_iff [simp]: "isdigit c \<noteq> 0 \<longleftrightarrow> 0x30 \<le> c \<and> c \<le> 0x39"
  by (simp add: isdigit_def)

lemma case_folding_cases:
  "tolower (toupper c) = tolower c" "toupper (tolower c) = toupper c"
  by (auto simp: ctype_defs)

end
