(* ===== verification/CString.thy ===== *)
theory CString
  imports Prelude
begin

text \<open>
  \<^verbatim>\<open>kernel/lib/string.c\<close>: memory and string routines on a byte memory. A pointer is an
  address (\<open>nat\<close>, 0 is NULL); pointer arithmetic inside a C object does not wrap. Routines
  that write return the new memory with their result. A loop that runs until it meets a NUL
  byte is a \<^theory_text>\<open>partial_function\<close>: \<open>None\<close> when there is none. \<open>char\<close> is signed.
\<close>

section \<open>Memory blocks\<close>

text \<open>\<open>for (;num >= 0; num--) str[num] = value;\<close> after \<open>num--\<close>; \<open>num\<close> is an \<open>int\<close>.\<close>

function memset_loop :: "mem \<Rightarrow> nat \<Rightarrow> u8 \<Rightarrow> int \<Rightarrow> mem" where
  "memset_loop m str value num =
     (if num \<ge> 0 then memset_loop (m(str + nat num := value)) str value (num - 1) else m)"
  by pat_completeness auto
termination
  by (relation "measure (\<lambda>(m, str, value, num). nat (num + 1))") auto

definition memset :: "mem \<Rightarrow> nat \<Rightarrow> u8 \<Rightarrow> int \<Rightarrow> mem \<times> nat" where
  "memset m ptr value num = (memset_loop m ptr value (num - 1), ptr)"

fun memcpy_loop :: "mem \<Rightarrow> nat \<Rightarrow> nat \<Rightarrow> nat \<Rightarrow> mem" where
  "memcpy_loop m dst src 0 = m"
| "memcpy_loop m dst src (Suc num) = memcpy_loop (m(dst := m src)) (dst + 1) (src + 1) num"

definition memcpy :: "mem \<Rightarrow> nat \<Rightarrow> nat \<Rightarrow> nat \<Rightarrow> mem \<times> nat" where
  "memcpy m dest source num =
     (if num = 0 then (m, dest) else (memcpy_loop m dest source num, dest))"

text \<open>\<open>while (num) { *dst-- = *src--; num--; }\<close>\<close>

fun memmove_loop :: "mem \<Rightarrow> nat \<Rightarrow> nat \<Rightarrow> nat \<Rightarrow> mem" where
  "memmove_loop m dst src 0 = m"
| "memmove_loop m dst src (Suc num) = memmove_loop (m(dst := m src)) (dst - 1) (src - 1) num"

definition memmove :: "mem \<Rightarrow> nat \<Rightarrow> nat \<Rightarrow> nat \<Rightarrow> mem \<times> nat" where
  "memmove m dest source num =
     (if num = 0 then (m, dest)
      else if source > dest then memcpy m dest source num
      else (let num = num - 1 in (memmove_loop m (dest + num) (source + num) num, dest)))"

fun memcmp :: "mem \<Rightarrow> nat \<Rightarrow> nat \<Rightarrow> nat \<Rightarrow> int" where
  "memcmp m cptr1 cptr2 0 = 0"
| "memcmp m cptr1 cptr2 (Suc num) =
     (if sint (m cptr1) < sint (m cptr2) then -1
      else if sint (m cptr1) > sint (m cptr2) then 1
      else memcmp m (cptr1 + 1) (cptr2 + 1) num)"

fun memchr :: "mem \<Rightarrow> nat \<Rightarrow> u8 \<Rightarrow> nat \<Rightarrow> nat" where
  "memchr m cptr value 0 = 0"
| "memchr m cptr value (Suc num) =
     (if m cptr = value then cptr else memchr m (cptr + 1) value num)"

section \<open>Strings: length, copy, concatenation\<close>

partial_function (option) strlen_loop :: "mem \<Rightarrow> nat \<Rightarrow> nat \<Rightarrow> nat option" where
  "strlen_loop m str ret =
     (if m str \<noteq> 0 then strlen_loop m (str + 1) (ret + 1) else Some ret)"

definition strlen :: "mem \<Rightarrow> nat \<Rightarrow> nat option" where
  "strlen m str = strlen_loop m str 0"

text \<open>Returns \<open>dest\<close> advanced to the terminator, as the code does.\<close>

partial_function (option) strcpy :: "mem \<Rightarrow> nat \<Rightarrow> nat \<Rightarrow> (mem \<times> nat) option" where
  "strcpy m dest source =
     (if m source \<noteq> 0 then strcpy (m(dest := m source)) (dest + 1) (source + 1)
      else Some (m(dest := m source), dest))"

fun strncpy :: "mem \<Rightarrow> nat \<Rightarrow> nat \<Rightarrow> nat \<Rightarrow> mem \<times> nat" where
  "strncpy m dest source 0 = (m, dest)"
| "strncpy m dest source (Suc num) =
     (let m = m(dest := m source); dest = dest + 1; source = source + 1
      in if m source = 0 then (m, dest) else strncpy m dest source num)"

text \<open>\<open>while (*start != '\0') start++;\<close>\<close>

partial_function (option) scan_end :: "mem \<Rightarrow> nat \<Rightarrow> nat option" where
  "scan_end m start = (if m start \<noteq> 0 then scan_end m (start + 1) else Some start)"

text \<open>
  \<open>while (*source != '\0') *start++ = *source++;\<close> The code's next line, \<open>start = '\0'\<close>, sets
  the pointer, not the byte: no terminator is written.
\<close>

partial_function (option) strcat_loop :: "mem \<Rightarrow> nat \<Rightarrow> nat \<Rightarrow> mem option" where
  "strcat_loop m start source =
     (if m source \<noteq> 0 then strcat_loop (m(start := m source)) (start + 1) (source + 1)
      else Some m)"

definition strcat :: "mem \<Rightarrow> nat \<Rightarrow> nat \<Rightarrow> (mem \<times> nat) option" where
  "strcat m dest source = do {
     start \<leftarrow> scan_end m dest;
     m \<leftarrow> strcat_loop m start source;
     Some (m, dest) }"

text \<open>The loop ends after \<open>num\<close> bytes or at the source's NUL.\<close>

fun strncat_loop :: "mem \<Rightarrow> nat \<Rightarrow> nat \<Rightarrow> nat \<Rightarrow> mem" where
  "strncat_loop m start source 0 = m"
| "strncat_loop m start source (Suc num) =
     (if m source \<noteq> 0 then strncat_loop (m(start := m source)) (start + 1) (source + 1) num
      else m)"

definition strncat :: "mem \<Rightarrow> nat \<Rightarrow> nat \<Rightarrow> nat \<Rightarrow> (mem \<times> nat) option" where
  "strncat m dest source num = do {
     start \<leftarrow> scan_end m dest;
     Some (strncat_loop m start source num, dest) }"

section \<open>Strings: comparison\<close>

partial_function (option) strcmp_loop :: "mem \<Rightarrow> nat \<Rightarrow> nat \<Rightarrow> int option" where
  "strcmp_loop m str1 str2 =
     (if sint (m str1) < sint (m str2) then Some (-1)
      else if sint (m str1) > sint (m str2) then Some 1
      else if m str1 = 0 then Some 0
      else strcmp_loop m (str1 + 1) (str2 + 1))"

definition strcmp :: "mem \<Rightarrow> nat \<Rightarrow> nat \<Rightarrow> int option" where
  "strcmp m str1 str2 = do {
     len1 \<leftarrow> strlen m str1;
     len2 \<leftarrow> strlen m str2;
     (let diff = int len1 - int len2
      in if diff \<noteq> 0 then Some diff else strcmp_loop m str1 str2) }"

fun strncmp_loop :: "mem \<Rightarrow> nat \<Rightarrow> nat \<Rightarrow> nat \<Rightarrow> nat \<Rightarrow> nat \<Rightarrow> int" where
  "strncmp_loop m str1 str2 len1 len2 0 = 0"
| "strncmp_loop m str1 str2 len1 len2 (Suc num) =
     (if len1 < Suc num \<and> len1 < len2 then -1
      else if len2 < Suc num \<and> len2 < len1 then 1
      else if sint (m str1) < sint (m str2) then -1
      else if sint (m str1) > sint (m str2) then 1
      else if m str1 = 0 then 0
      else strncmp_loop m (str1 + 1) (str2 + 1) (len1 - 1) (len2 - 1) num)"

definition strncmp :: "mem \<Rightarrow> nat \<Rightarrow> nat \<Rightarrow> nat \<Rightarrow> int option" where
  "strncmp m str1 str2 num = do {
     len1 \<leftarrow> strlen m str1;
     len2 \<leftarrow> strlen m str2;
     Some (strncmp_loop m str1 str2 len1 len2 num) }"

section \<open>Strings: searching\<close>

partial_function (option) strchr :: "mem \<Rightarrow> nat \<Rightarrow> u8 \<Rightarrow> nat option" where
  "strchr m str value =
     (if m str \<noteq> 0 then (if m str = value then Some str else strchr m (str + 1) value)
      else Some 0)"

partial_function (option) strrchr_loop :: "mem \<Rightarrow> nat \<Rightarrow> nat \<Rightarrow> u8 \<Rightarrow> nat option" where
  "strrchr_loop m en str value =
     (if en \<ge> str then (if m en = value then Some en else strrchr_loop m (en - 1) str value)
      else Some 0)"

definition strrchr :: "mem \<Rightarrow> nat \<Rightarrow> u8 \<Rightarrow> nat option" where
  "strrchr m str value = do { en \<leftarrow> scan_end m str; strrchr_loop m en str value }"

text \<open>
  The inner loop of \<open>strpbrk\<close> and \<open>strcspn\<close>: is the byte \<open>c\<close> among those of the string at
  \<open>temp\<close>?
\<close>

partial_function (option) in_set_loop :: "mem \<Rightarrow> u8 \<Rightarrow> nat \<Rightarrow> bool option" where
  "in_set_loop m c temp =
     (if m temp \<noteq> 0 then (if c = m temp then Some True else in_set_loop m c (temp + 1))
      else Some False)"

partial_function (option) strpbrk :: "mem \<Rightarrow> nat \<Rightarrow> nat \<Rightarrow> nat option" where
  "strpbrk m str1 str2 =
     (if m str1 \<noteq> 0 then
        Option.bind (in_set_loop m (m str1) str2)
          (\<lambda>found. if found then Some str1 else strpbrk m (str1 + 1) str2)
      else Some 0)"

partial_function (option) strcspn_loop :: "mem \<Rightarrow> nat \<Rightarrow> nat \<Rightarrow> nat \<Rightarrow> nat option" where
  "strcspn_loop m str1 str2 ret =
     (if m str1 \<noteq> 0 then
        Option.bind (in_set_loop m (m str1) str2)
          (\<lambda>found. if found then Some ret else strcspn_loop m (str1 + 1) str2 (ret + 1))
      else Some ret)"

definition strcspn :: "mem \<Rightarrow> nat \<Rightarrow> nat \<Rightarrow> nat option" where
  "strcspn m str1 str2 = strcspn_loop m str1 str2 0"

text \<open>The inner loop of \<open>strspn\<close> counts every match and does not stop at the first miss.\<close>

partial_function (option) strspn_inner :: "mem \<Rightarrow> u8 \<Rightarrow> nat \<Rightarrow> nat \<Rightarrow> nat option" where
  "strspn_inner m c temp ret =
     (if m temp \<noteq> 0 then strspn_inner m c (temp + 1) (if m temp = c then ret + 1 else ret)
      else Some ret)"

partial_function (option) strspn_loop :: "mem \<Rightarrow> nat \<Rightarrow> nat \<Rightarrow> nat \<Rightarrow> nat option" where
  "strspn_loop m str1 str2 ret =
     (if m str1 \<noteq> 0 then
        Option.bind (strspn_inner m (m str1) str2 ret) (\<lambda>ret. strspn_loop m (str1 + 1) str2 ret)
      else Some ret)"

definition strspn :: "mem \<Rightarrow> nat \<Rightarrow> nat \<Rightarrow> nat option" where
  "strspn m str1 str2 = strspn_loop m str1 str2 0"

text \<open>\<open>for (i = 1; i <= strlen(str2); i++) if (str1[i] != str2[i]) break;\<close> returns \<open>i\<close>.\<close>

function strstr_match :: "mem \<Rightarrow> nat \<Rightarrow> nat \<Rightarrow> nat \<Rightarrow> nat \<Rightarrow> nat" where
  "strstr_match m str1 str2 len i =
     (if i \<le> len then
        (if m (str1 + i) \<noteq> m (str2 + i) then i else strstr_match m str1 str2 len (i + 1))
      else i)"
  by pat_completeness auto
termination
  by (relation "measure (\<lambda>(m, str1, str2, len, i). Suc len - i)") auto

partial_function (option) strstr :: "mem \<Rightarrow> nat \<Rightarrow> nat \<Rightarrow> nat option" where
  "strstr m str1 str2 =
     (if m str1 \<noteq> 0 then
        Option.bind (strchr m str1 (m str2))
          (\<lambda>str1. if str1 = 0 then Some 0
            else Option.bind (strlen m str2)
              (\<lambda>len. if strstr_match m str1 str2 len 1 = len then Some str1
                 else strstr m (str1 + 1) str2))
      else Some 0)"

section \<open>Tokens\<close>

text \<open>
  \<open>for (i = 0; i < len; i++) if (c == delimiters[i]) break;\<close>: the index of \<open>c\<close> among the
  delimiters, or \<open>len\<close>.
\<close>

function delim_index :: "mem \<Rightarrow> u8 \<Rightarrow> nat \<Rightarrow> nat \<Rightarrow> nat \<Rightarrow> nat" where
  "delim_index m c delimiters len i =
     (if i < len then
        (if c = m (delimiters + i) then i else delim_index m c delimiters len (i + 1))
      else i)"
  by pat_completeness auto
termination
  by (relation "measure (\<lambda>(m, c, delimiters, len, i). len - i)") auto

text \<open>The first loop skips delimiters.\<close>

partial_function (option) strtok_skip :: "mem \<Rightarrow> nat \<Rightarrow> nat \<Rightarrow> nat \<Rightarrow> nat option" where
  "strtok_skip m p_start delimiters len =
     (if delim_index m (m p_start) delimiters len 0 = len then Some p_start
      else strtok_skip m (p_start + 1) delimiters len)"

text \<open>The second loop looks for the end of the token and overwrites the delimiter.\<close>

partial_function (option) strtok_end :: "mem \<Rightarrow> nat \<Rightarrow> nat \<Rightarrow> nat \<Rightarrow> (mem \<times> nat) option" where
  "strtok_end m lst delimiters len =
     (if m lst \<noteq> 0 then
        (if delim_index m (m lst) delimiters len 0 < len then Some (m(lst := 0), lst + 1)
         else strtok_end m (lst + 1) delimiters len)
      else Some (m, lst))"

text \<open>The static variable \<open>last\<close> is passed in and returned: (memory, \<open>last\<close>, result).\<close>

definition strtok :: "mem \<Rightarrow> nat \<Rightarrow> nat \<Rightarrow> nat \<Rightarrow> (mem \<times> nat \<times> nat) option" where
  "strtok m lst str delimiters =
     (let lst = (if str \<noteq> 0 then 0 else lst) in do {
        len \<leftarrow> strlen m delimiters;
        (if len = 0 then Some (m, lst, 0)
         else if str = 0 \<and> lst = 0 then Some (m, lst, 0)
         else (let lst = (if str \<noteq> 0 \<and> lst = 0 then str else lst) in do {
           p_start \<leftarrow> strtok_skip m lst delimiters len;
           (if m p_start = 0 then Some (m, 0, 0)
            else do {
              (m, lst) \<leftarrow> strtok_end m p_start delimiters len;
              Some (m, lst, p_start) }) })) })"


section \<open>Memory blocks: what the loops do\<close>

declare memset_loop.simps [simp del] strstr_match.simps [simp del] delim_index.simps [simp del]

lemma memset_loop_eq:
  "memset_loop m p v num = (\<lambda>a. if p \<le> a \<and> int a < int p + num + 1 then v else m a)"
proof (induction m p v num rule: memset_loop.induct)
  case (1 m p v num)
  show ?case
  proof (cases "num \<ge> 0")
    case True
    then have "memset_loop m p v num = memset_loop (m(p + nat num := v)) p v (num - 1)"
      by (simp add: memset_loop.simps [of m p v num])
    also have "\<dots> = (\<lambda>a. if p \<le> a \<and> int a < int p + num then v else (m(p + nat num := v)) a)"
      by (subst "1.IH" [OF True]) (simp add: fun_eq_iff)
    finally show ?thesis using True by (auto simp: fun_eq_iff)
  next
    case False
    then show ?thesis by (auto simp: memset_loop.simps [of m p v num] fun_eq_iff)
  qed
qed

lemma memcpy_loop_eq:
  assumes "dst \<le> src \<or> src + n \<le> dst"
  shows "memcpy_loop m dst src n = (\<lambda>a. if dst \<le> a \<and> a < dst + n then m (src + (a - dst)) else m a)"
  using assms
proof (induction n arbitrary: m dst src)
  case (Suc n)
  let ?m = "m(dst := m src)"
  have "memcpy_loop m dst src (Suc n) = memcpy_loop ?m (dst + 1) (src + 1) n" by simp
  also have "\<dots> = (\<lambda>a. if dst + 1 \<le> a \<and> a < dst + 1 + n then ?m (src + 1 + (a - (dst + 1))) else ?m a)"
    using Suc.prems by (intro Suc.IH) auto
  also have "\<dots> = (\<lambda>a. if dst \<le> a \<and> a < dst + Suc n then m (src + (a - dst)) else m a)"
  proof
    fix a
    show "(if dst + 1 \<le> a \<and> a < dst + 1 + n then ?m (src + 1 + (a - (dst + 1))) else ?m a)
        = (if dst \<le> a \<and> a < dst + Suc n then m (src + (a - dst)) else m a)"
    proof (cases "dst + 1 \<le> a \<and> a < dst + 1 + n")
      case True
      then have "src + 1 + (a - (dst + 1)) = src + (a - dst)" by arith
      moreover have "src + (a - dst) \<noteq> dst" using True Suc.prems by auto
      ultimately show ?thesis using True by simp
    next
      case False
      then show ?thesis by auto
    qed
  qed
  finally show ?case .
qed (auto simp: fun_eq_iff)

lemma memmove_loop_eq:
  assumes "src \<le> dst"
  shows "memmove_loop m (dst + n) (src + n) n
       = (\<lambda>a. if dst < a \<and> a \<le> dst + n then m (src + (a - dst)) else m a)"
proof (induction n arbitrary: m)
  case (Suc n)
  let ?m = "m(dst + Suc n := m (src + Suc n))"
  have "memmove_loop m (dst + Suc n) (src + Suc n) (Suc n) = memmove_loop ?m (dst + n) (src + n) n"
    by simp
  also have "\<dots> = (\<lambda>a. if dst < a \<and> a \<le> dst + n then ?m (src + (a - dst)) else ?m a)"
    by (rule Suc.IH)
  also have "\<dots> = (\<lambda>a. if dst < a \<and> a \<le> dst + Suc n then m (src + (a - dst)) else m a)"
    using assms by (auto simp: fun_eq_iff le_Suc_eq)
  finally show ?case .
qed (auto simp: fun_eq_iff)

lemma bytes_memcpy_loop:
  "dst \<le> src \<or> src + n \<le> dst \<Longrightarrow> bytes (memcpy_loop m dst src n) dst n = bytes m src n"
  by (simp add: bytes_eq_iff memcpy_loop_eq)

text \<open>
  \<open>memcpy\<close> copies: the \<open>num\<close> bytes at \<open>dest\<close> become the \<open>num\<close> bytes that were at
  \<open>source\<close>, every other byte is unchanged and \<open>dest\<close> is returned, for blocks that are
  disjoint or whose destination lies below the source.
\<close>

theorem memcpy_correct:
  assumes "dest \<le> source \<or> source + num \<le> dest"
  shows "fst (memcpy m dest source num) =
           (\<lambda>a. if dest \<le> a \<and> a < dest + num then m (source + (a - dest)) else m a)
       \<and> snd (memcpy m dest source num) = dest"
  using memcpy_loop_eq [OF assms, of m] by (auto simp: memcpy_def)

theorem memcpy_correct_witness:
  "fst (memcpy (\<lambda>a. of_nat a) 10 20 3) =
     (\<lambda>a. if 10 \<le> a \<and> a < 10 + 3 then of_nat (20 + (a - 10)) else of_nat a)
   \<and> snd (memcpy (\<lambda>a. of_nat a) 10 20 3) = 10"
  by (rule memcpy_correct) simp

text \<open>
  \<open>memmove\<close> with \<open>source <= dest\<close> moves bytes \<open>1 .. num - 1\<close> correctly even when the
  blocks overlap, but never byte 0: \<open>num\<close> is decremented before the loop, so \<open>dest[0]\<close>
  keeps its old value. With \<open>source > dest\<close> all \<open>num\<close> bytes are moved.
\<close>

theorem memmove_behaviour:
  assumes "num > 0"
  shows "fst (memmove m dest source num) =
     (\<lambda>a. if (if source > dest then dest \<le> a else dest < a) \<and> a < dest + num
          then m (source + (a - dest)) else m a)"
proof (cases "source > dest")
  case True
  then show ?thesis using assms memcpy_loop_eq [of dest source num m]
    by (simp add: memmove_def memcpy_def)
next
  case False
  then have "memmove_loop m (dest + (num - 1)) (source + (num - 1)) (num - 1)
     = (\<lambda>a. if dest < a \<and> a \<le> dest + (num - 1) then m (source + (a - dest)) else m a)"
    by (intro memmove_loop_eq) simp
  then show ?thesis using False assms by (auto simp: memmove_def Let_def fun_eq_iff)
qed

theorem memmove_behaviour_witness:
  "fst (memmove (\<lambda>a. of_nat a) 21 20 3) =
     (\<lambda>a. if (if (20::nat) > 21 then 21 \<le> a else 21 < a) \<and> a < 21 + 3
          then of_nat (20 + (a - 21)) else of_nat a)"
  by (rule memmove_behaviour) simp

lemma memset_eq:
  "0 \<le> num \<Longrightarrow> memset m p v num = ((\<lambda>a. if p \<le> a \<and> a < p + nat num then v else m a), p)"
  by (auto simp: memset_def memset_loop_eq fun_eq_iff)

lemma memset_nonpos: "num \<le> 0 \<Longrightarrow> memset m p v num = (m, p)"
  by (auto simp: memset_def memset_loop_eq fun_eq_iff)

lemma memcmp_eq_0_iff: "memcmp m p q n = 0 \<longleftrightarrow> bytes m p n = bytes m q n"
proof (induction n arbitrary: p q)
  case (Suc n)
  have "\<not> sint (m p) < sint (m q) \<and> \<not> sint (m q) < sint (m p) \<longleftrightarrow> m p = m q"
    using sint_eq_iff_word [of "m p" "m q"] by linarith
  then show ?case using Suc.IH [of "p + 1" "q + 1"] by (auto simp: bytes_Suc)
qed simp

lemma memcmp_antisym: "memcmp m q p n = - memcmp m p q n"
proof (induction n arbitrary: p q)
  case (Suc n)
  show ?case using Suc.IH [of "q + 1" "p + 1"] by simp
qed simp

lemma memchr_eq:
  "p > 0 \<Longrightarrow> memchr m p v n =
     (if v \<in> set (bytes m p n) then p + length (takeWhile (\<lambda>c. c \<noteq> v) (bytes m p n)) else 0)"
  by (induction n arbitrary: p) (auto simp: bytes_Suc)


section \<open>Strings: what the loops do\<close>

text \<open>
  Each scanning loop returns on a C string, and its result is a function of the string's
  bytes: these equations are the specification the rest of the section works with.
\<close>

lemma strlen_loop_eq: "cstr m p s \<Longrightarrow> strlen_loop m p r = Some (r + length s)"
  by (induction s arbitrary: p r) (auto simp: strlen_loop.simps)

lemma strlen_eq: "cstr m p s \<Longrightarrow> strlen m p = Some (length s)"
  by (simp add: strlen_def strlen_loop_eq)

lemma scan_end_eq: "cstr m p s \<Longrightarrow> scan_end m p = Some (p + length s)"
  by (induction s arbitrary: p) (auto simp: scan_end.simps)

text \<open>A block below the string, or above its terminator, can be written without changing it.\<close>

lemma cstr_upd: "cstr m p s \<Longrightarrow> a < p \<or> p + length s < a \<Longrightarrow> cstr (m(a := v)) p s"
  by (erule cstr_cong) auto

lemma strcpy_eq:
  assumes "cstr m src s" and "dst \<le> src \<or> src + length s < dst"
  shows "strcpy m dst src = Some (memcpy_loop m dst src (Suc (length s)), dst + length s)"
  using assms
proof (induction s arbitrary: m dst src)
  case Nil
  then show ?case by (simp add: strcpy.simps fun_upd_def)
next
  case (Cons c s)
  let ?m = "m(dst := m src)"
  have "cstr ?m (src + 1) s"
    using Cons.prems by (auto intro!: cstr_upd)
  then have "strcpy ?m (dst + 1) (src + 1)
      = Some (memcpy_loop ?m (dst + 1) (src + 1) (Suc (length s)), dst + 1 + length s)"
    by (rule Cons.IH) (use Cons.prems in auto)
  then show ?case using Cons.prems by (subst strcpy.simps) simp
qed

lemma cstr_memcpy_loop:
  assumes "cstr m src s" and "dst \<le> src \<or> src + length s < dst"
  shows "cstr (memcpy_loop m dst src (Suc (length s))) dst s"
proof -
  have *: "dst \<le> src \<or> src + Suc (length s) \<le> dst" using assms(2) by auto
  show ?thesis using assms(1)
    unfolding cstr_iff memcpy_loop_eq [OF *] by simp
qed

lemma strncpy_eq:
  assumes "cstr m src s" and "s \<noteq> []" and "dst + n \<le> src \<or> src + length s < dst"
  shows "strncpy m dst src n = (memcpy_loop m dst src (min n (length s)), dst + min n (length s))"
  using assms
proof (induction n arbitrary: m dst src s)
  case (Suc n)
  then obtain c t where s: "s = c # t" by (cases s) auto
  let ?m = "m(dst := m src)"
  have t: "cstr ?m (src + 1) t"
    using Suc.prems s by (auto intro!: cstr_upd)
  show ?case
  proof (cases "t = []")
    case True
    then show ?thesis using t s by (auto simp: Let_def)
  next
    case False
    then have "strncpy ?m (dst + 1) (src + 1) n
        = (memcpy_loop ?m (dst + 1) (src + 1) (min n (length t)), dst + 1 + min n (length t))"
      by (intro Suc.IH [OF t]) (use Suc.prems s in auto)
    moreover have "?m (src + 1) \<noteq> 0" using False t by (cases t) auto
    ultimately show ?thesis using s by (simp add: Let_def)
  qed
qed simp

lemma strcat_loop_eq:
  assumes "cstr m src t" and "dst \<le> src \<or> src + length t < dst"
  shows "strcat_loop m dst src = Some (memcpy_loop m dst src (length t))"
  using assms
proof (induction t arbitrary: m dst src)
  case Nil
  then show ?case by (simp add: strcat_loop.simps)
next
  case (Cons c t)
  let ?m = "m(dst := m src)"
  have "cstr ?m (src + 1) t" using Cons.prems by (auto intro!: cstr_upd)
  then have "strcat_loop ?m (dst + 1) (src + 1) = Some (memcpy_loop ?m (dst + 1) (src + 1) (length t))"
    by (rule Cons.IH) (use Cons.prems in auto)
  then show ?case using Cons.prems by (subst strcat_loop.simps) simp
qed

lemma strncat_loop_eq:
  assumes "cstr m src t" and "dst \<le> src \<or> src + length t < dst"
  shows "strncat_loop m dst src n = memcpy_loop m dst src (min n (length t))"
  using assms
proof (induction n arbitrary: m dst src t)
  case (Suc n)
  show ?case
  proof (cases t)
    case Nil
    then show ?thesis using Suc.prems by simp
  next
    case (Cons c u)
    let ?m = "m(dst := m src)"
    have "cstr ?m (src + 1) u" using Suc.prems Cons by (auto intro!: cstr_upd)
    then have "strncat_loop ?m (dst + 1) (src + 1) n
        = memcpy_loop ?m (dst + 1) (src + 1) (min n (length u))"
      by (rule Suc.IH) (use Suc.prems Cons in auto)
    then show ?thesis using Suc.prems Cons by simp
  qed
qed simp

lemma strcmp_loop_refl_iff:
  assumes "cstr m p s" "cstr m q t" "length s = length t"
  shows "\<exists>d. strcmp_loop m p q = Some d \<and> (d = 0 \<longleftrightarrow> s = t)"
  using assms(3,1,2)
proof (induction s t arbitrary: p q rule: list_induct2)
  case Nil
  then show ?case by (simp add: strcmp_loop.simps)
next
  case (Cons c s d t)
  then have IH: "\<exists>e. strcmp_loop m (Suc p) (Suc q) = Some e \<and> (e = 0 \<longleftrightarrow> s = t)" by simp
  have "\<not> sint c < sint d \<and> \<not> sint d < sint c \<longleftrightarrow> c = d"
    using sint_eq_iff_word [of c d] by linarith
  then show ?case using Cons.prems IH by (subst strcmp_loop.simps) auto
qed

lemma strcmp_eq:
  assumes "cstr m p s" "cstr m q t"
  shows "\<exists>d. strcmp m p q = Some d \<and> (d = 0 \<longleftrightarrow> s = t)
     \<and> (length s \<noteq> length t \<longrightarrow> d = int (length s) - int (length t))"
proof (cases "length s = length t")
  case True
  then show ?thesis using strcmp_loop_refl_iff [OF assms] assms
    by (auto simp: strcmp_def strlen_eq)
next
  case False
  then show ?thesis using assms by (auto simp: strcmp_def strlen_eq)
qed

lemma strncmp_loop_zero_iff:
  assumes "cstr m p s" "cstr m q t"
  shows "strncmp_loop m p q (length s) (length t) n = 0 \<longleftrightarrow> take n s = take n t"
  using assms
proof (induction n arbitrary: p q s t)
  case (Suc n)
  show ?case
  proof (cases "s = [] \<or> t = []")
    case True
    then show ?thesis using Suc.prems by (cases s; cases t) auto
  next
    case False
    then obtain c s' d t' where st: "s = c # s'" "t = d # t'" by (meson list.exhaust)
    have IH: "strncmp_loop m (Suc p) (Suc q) (length s') (length t') n = 0 \<longleftrightarrow> take n s' = take n t'"
      using Suc st by auto
    have cd: "\<not> sint c < sint d \<and> \<not> sint d < sint c \<longleftrightarrow> c = d"
      using sint_eq_iff_word [of c d] by linarith
    have short: "take n s' \<noteq> take n t'" if "length s' \<noteq> length t'" "length s' < n \<or> length t' < n"
      using that by (auto dest!: arg_cong [where f = length] simp: min_def split: if_splits)
    show ?thesis using st Suc.prems IH cd short by auto
  qed
qed simp

lemma strchr_eq:
  assumes "cstr m p s" "p > 0" "v \<noteq> 0"
  shows "strchr m p v =
     Some (if v \<in> set s then p + length (takeWhile (\<lambda>c. c \<noteq> v) s) else 0)"
  using assms
proof (induction s arbitrary: p)
  case (Cons c s)
  then show ?case by (subst strchr.simps) auto
qed (simp add: strchr.simps)

lemma strchr_0: "cstr m p s \<Longrightarrow> strchr m p 0 = Some 0"
  by (induction s arbitrary: p) (auto simp: strchr.simps)

lemma in_set_loop_eq: "cstr m q t \<Longrightarrow> in_set_loop m c q = Some (c \<in> set t)"
  by (induction t arbitrary: q) (auto simp: in_set_loop.simps)

lemma strpbrk_eq:
  assumes "cstr m p s" "cstr m q t" "p > 0"
  shows "strpbrk m p q =
     Some (if set s \<inter> set t = {} then 0 else p + length (takeWhile (\<lambda>c. c \<notin> set t) s))"
  using assms
proof (induction s arbitrary: p)
  case (Cons c s)
  then show ?case by (subst strpbrk.simps) (auto simp: in_set_loop_eq)
qed (simp add: strpbrk.simps)

lemma strcspn_loop_eq:
  assumes "cstr m p s" "cstr m q t"
  shows "strcspn_loop m p q r = Some (r + length (takeWhile (\<lambda>c. c \<notin> set t) s))"
  using assms
proof (induction s arbitrary: p r)
  case (Cons c s)
  then show ?case by (subst strcspn_loop.simps) (auto simp: in_set_loop_eq)
qed (simp add: strcspn_loop.simps)

lemma strspn_inner_eq: "cstr m q t \<Longrightarrow> strspn_inner m c q r = Some (r + count_list t c)"
  by (induction t arbitrary: q r) (auto simp: strspn_inner.simps)

lemma strspn_loop_eq:
  assumes "cstr m p s" "cstr m q t"
  shows "strspn_loop m p q r = Some (r + (\<Sum>c\<leftarrow>s. count_list t c))"
  using assms
proof (induction s arbitrary: p r)
  case (Cons c s)
  then show ?case by (subst strspn_loop.simps) (auto simp: strspn_inner_eq)
qed (simp add: strspn_loop.simps)


lemma strrchr_loop_eq:
  assumes "str > 0" and "str \<le> Suc en"
  shows "strrchr_loop m en str v =
     Some (if \<exists>a. str \<le> a \<and> a \<le> en \<and> m a = v then GREATEST a. str \<le> a \<and> a \<le> en \<and> m a = v else 0)"
  using assms(2)
proof (induction "Suc en - str" arbitrary: en)
  case 0
  then show ?case by (subst strrchr_loop.simps) auto
next
  case (Suc n)
  then have le: "str \<le> en" by simp
  show ?case
  proof (cases "m en = v")
    case True
    then have "(GREATEST a. str \<le> a \<and> a \<le> en \<and> m a = v) = en"
      using le by (intro Greatest_equality) auto
    then show ?thesis using True le by (subst strrchr_loop.simps) auto
  next
    case False
    have eq: "str \<le> a \<and> a \<le> en \<and> m a = v \<longleftrightarrow> str \<le> a \<and> a \<le> en - 1 \<and> m a = v" for a
      using False le assms(1) by (cases "a = en") auto
    have "strrchr_loop m en str v = strrchr_loop m (en - 1) str v"
      using False le by (subst strrchr_loop.simps) simp
    also have "\<dots> = Some (if \<exists>a. str \<le> a \<and> a \<le> en - 1 \<and> m a = v
         then GREATEST a. str \<le> a \<and> a \<le> en - 1 \<and> m a = v else 0)"
      by (rule Suc.hyps) (use Suc.hyps(2) le assms(1) in auto)
    finally show ?thesis by (simp only: eq)
  qed
qed

subsection \<open>Substrings\<close>

text \<open>
  What \<open>strstr\<close> looks for: the first place where \<open>t\<close> occurs \<^emph>\<open>and is followed by another
  byte of the string\<close>. The comparison loop runs up to and including index \<open>strlen(str2)\<close>,
  so an occurrence that ends the string is passed over.
\<close>

fun find_before_end :: "u8 list \<Rightarrow> u8 list \<Rightarrow> nat option" where
  "find_before_end t [] = None"
| "find_before_end t (c # s) =
     (if length t < length (c # s) \<and> take (length t) (c # s) = t then Some 0
      else map_option Suc (find_before_end t s))"

lemma strstr_match_iff:
  "i \<le> len \<Longrightarrow> strstr_match m a b len i = len \<longleftrightarrow>
     (\<forall>j. i \<le> j \<and> j < len \<longrightarrow> m (a + j) = m (b + j)) \<and> m (a + len) \<noteq> m (b + len)"
proof (induction m a b len i rule: strstr_match.induct)
  case (1 m a b len i)
  show ?case
  proof (cases "m (a + i) = m (b + i)")
    case False
    then show ?thesis using 1 by (subst strstr_match.simps) auto
  next
    case True
    show ?thesis
    proof (cases "i = len")
      case True
      then show ?thesis using \<open>m (a + i) = m (b + i)\<close>
        by (simp add: strstr_match.simps [of m a b len len] strstr_match.simps [of m a b len "Suc len"])
    next
      case False
      then have "strstr_match m a b len i = strstr_match m a b len (i + 1)"
        using True "1.prems" by (subst strstr_match.simps) simp
      moreover have "(\<forall>j. i \<le> j \<and> j < len \<longrightarrow> m (a + j) = m (b + j))
           \<longleftrightarrow> (\<forall>j. i + 1 \<le> j \<and> j < len \<longrightarrow> m (a + j) = m (b + j))"
        using True by (auto simp: Suc_le_eq) (metis le_neq_implies_less)
      ultimately show ?thesis using "1.IH" "1.prems" True False by simp
    qed
  qed
qed

lemma prefix_before_end_iff:
  assumes "cstr m p u" "cstr m q t"
  shows "(\<forall>j<length t. m (p + j) = m (q + j)) \<and> m (p + length t) \<noteq> m (q + length t)
     \<longleftrightarrow> take (length t) u = t \<and> length t < length u"
proof -
  have t: "m (q + j) = t ! j" "t ! j \<noteq> 0" if "j < length t" for j
    using cstr_nth [OF assms(2) that] by auto
  have u: "m (p + j) = u ! j" if "j < length u" for j
    using cstr_nth [OF assms(1) that] by auto
  note ends = cstr_end [OF assms(1)] cstr_end [OF assms(2)]
  show ?thesis
  proof (cases "length t < length u")
    case True
    have "take (length t) u = t \<longleftrightarrow> (\<forall>j<length t. u ! j = t ! j)"
      using True by (auto simp: list_eq_iff_nth_eq)
    moreover have "u ! length t \<noteq> 0" using cstr_nth [OF assms(1) True] by simp
    ultimately show ?thesis using True t u ends by auto
  next
    case False
    then have "length u < length t \<or> length u = length t" by linarith
    then show ?thesis using t(1) t(2) [of "length u"] ends by auto
  qed
qed

lemma find_before_end_skip:
  "d \<notin> set pre \<Longrightarrow> find_before_end (d # t) (pre @ u) = map_option ((+) (length pre)) (find_before_end (d # t) u)"
  by (induction pre) (auto simp: map_option_case split: option.splits)

lemma strstr_eq:
  assumes "cstr m p s" "cstr m q t" "p > 0" "t \<noteq> []"
  shows "strstr m p q = Some (case find_before_end t s of None \<Rightarrow> 0 | Some i \<Rightarrow> p + i)"
  using assms(1,3)
proof (induction s arbitrary: p rule: length_induct)
  case (1 s)
  from assms(4) obtain d t' where t: "t = d # t'" by (cases t) auto
  have d: "m q = d" "d \<noteq> 0" using assms(2) t by auto
  note q = strlen_eq [OF assms(2)]
  show ?case
  proof (cases "d \<in> set s")
    case False
    then have "find_before_end t s = None"
      using find_before_end_skip [of d s t' "[]"] t by simp
    moreover have "strchr m p d = Some 0" using strchr_eq [OF "1.prems" d(2)] False by simp
    ultimately show ?thesis using d by (subst strstr.simps) simp
  next
    case True
    then obtain pre post where s: "s = pre @ d # post" and pre: "d \<notin> set pre"
      by (meson split_list_first)
    let ?p = "p + length pre"
    have tw: "takeWhile (\<lambda>c. c \<noteq> d) s = pre"
      unfolding s using pre by (intro takeWhile_append_stop) auto
    have chr: "strchr m p d = Some ?p" using strchr_eq [OF "1.prems" d(2)] True tw by simp
    have u: "cstr m ?p (d # post)" using cstr_append "1.prems"(1) s by blast
    have "strstr_match m ?p q (length t) 1 = length t
        \<longleftrightarrow> (\<forall>j<length t. m (?p + j) = m (q + j)) \<and> m (?p + length t) \<noteq> m (q + length t)"
      using u d t by (subst strstr_match_iff) (auto simp: less_Suc_eq_0_disj)
    also have "\<dots> \<longleftrightarrow> take (length t) (d # post) = t \<and> length t < length (d # post)"
      by (rule prefix_before_end_iff [OF u assms(2)])
    finally have match: "strstr_match m ?p q (length t) 1 = length t
        \<longleftrightarrow> take (length t) (d # post) = t \<and> length t < length (d # post)" .
    have step: "strstr m p q = (if strstr_match m ?p q (length t) 1 = length t then Some ?p
        else strstr m (?p + 1) q)"
      using chr d q "1.prems" s by (subst strstr.simps, cases pre) auto
    have "strstr m (?p + 1) q = Some (case find_before_end t post of None \<Rightarrow> 0 | Some i \<Rightarrow> ?p + 1 + i)"
      using "1.IH" [rule_format, of post "?p + 1"] u s by simp
    then show ?thesis
      using step match find_before_end_skip [OF pre, of t' "d # post"] s t
      by (auto split: option.splits)
  qed
qed

subsection \<open>Tokens\<close>

lemma delim_index_eq:
  assumes "cstr m q ds" "i \<le> length ds"
  shows "(delim_index m c q (length ds) i < length ds \<longleftrightarrow> c \<in> set (drop i ds))
     \<and> delim_index m c q (length ds) i \<le> length ds"
  using assms(2)
proof (induction "length ds - i" arbitrary: i)
  case 0
  then show ?case by (subst delim_index.simps, subst (2) delim_index.simps) auto
next
  case (Suc n)
  then have i: "i < length ds" by simp
  have nth: "m (q + i) = ds ! i" using cstr_nth [OF assms(1) i] by simp
  have dr: "drop i ds = ds ! i # drop (Suc i) ds" using i by (simp add: Cons_nth_drop_Suc)
  have "delim_index m c q (length ds) i =
      (if c = ds ! i then i else delim_index m c q (length ds) (Suc i))"
    using i nth by (subst delim_index.simps) simp
  then show ?case using Suc.hyps(1) [of "Suc i"] Suc.hyps(2) i dr by simp
qed

lemma delim_index_simps:
  assumes "cstr m q ds"
  shows "delim_index m c q (length ds) 0 < length ds \<longleftrightarrow> c \<in> set ds"
    and "delim_index m c q (length ds) 0 = length ds \<longleftrightarrow> c \<notin> set ds"
  using delim_index_eq [OF assms, of 0 c] by auto

lemma strtok_skip_eq:
  assumes "cstr m p s" "cstr m q ds"
  shows "strtok_skip m p q (length ds) = Some (p + length (takeWhile (\<lambda>c. c \<in> set ds) s))"
  using assms
proof (induction s arbitrary: p)
  case Nil
  then have "0 \<notin> set ds" using cstr_nonzero by blast
  then show ?case using Nil by (subst strtok_skip.simps) (simp add: delim_index_simps)
next
  case (Cons c s)
  then show ?case by (subst strtok_skip.simps) (auto simp: delim_index_simps)
qed

lemma strtok_end_eq:
  assumes "cstr m p s" "cstr m q ds"
  shows "strtok_end m p q (length ds) =
     (let tok = takeWhile (\<lambda>c. c \<notin> set ds) s
      in Some (if tok = s then (m, p + length tok) else (m(p + length tok := 0), p + length tok + 1)))"
  using assms
proof (induction s arbitrary: p)
  case Nil
  then show ?case by (subst strtok_end.simps) simp
next
  case (Cons c s)
  then show ?case by (subst strtok_end.simps) (auto simp: delim_index_simps Let_def)
qed

text \<open>The token of a scan that starts at a string \<open>s\<close>: skipped bytes, token, rest.\<close>

definition next_token :: "u8 list \<Rightarrow> u8 list \<Rightarrow> u8 list \<times> u8 list \<times> u8 list" where
  "next_token ds s =
     (let pre = takeWhile (\<lambda>c. c \<in> set ds) s; rest = dropWhile (\<lambda>c. c \<in> set ds) s
      in (pre, takeWhile (\<lambda>c. c \<notin> set ds) rest, dropWhile (\<lambda>c. c \<notin> set ds) rest))"

lemma strtok_scan_eq:
  assumes "cstr m p s" "cstr m q ds" "ds \<noteq> []" "p > 0"
    and "next_token ds s = (pre, tok, rest)"
    and "str = p \<or> str = 0 \<and> lst = p"
  shows "strtok m lst str q =
     Some (if tok = [] then (m, 0, 0)
           else if rest = [] then (m, p + length pre + length tok, p + length pre)
           else (m(p + length pre + length tok := 0), p + length pre + length tok + 1, p + length pre))"
proof -
  let ?s = "dropWhile (\<lambda>c. c \<in> set ds) s"
  have pre: "pre = takeWhile (\<lambda>c. c \<in> set ds) s" and tok: "tok = takeWhile (\<lambda>c. c \<notin> set ds) ?s"
    and rest: "rest = dropWhile (\<lambda>c. c \<notin> set ds) ?s"
    using assms(5) by (auto simp: next_token_def Let_def)
  have tok_rest: "tok @ rest = ?s" by (simp add: tok rest)
  then have tok_all: "tok = ?s \<longleftrightarrow> rest = []"
    by (metis append.right_neutral append_self_conv)
  have s: "cstr m (p + length pre) ?s"
    using assms(1) by (metis cstr_append pre takeWhile_dropWhile_id)
  have tok_Nil: "tok = [] \<longleftrightarrow> m (p + length pre) = 0"
  proof (cases ?s)
    case Nil
    then show ?thesis using s unfolding tok Nil by simp
  next
    case (Cons c u)
    then have "c \<notin> set ds" by (metis hd_dropWhile list.discI list.sel(1))
    then show ?thesis using s unfolding tok Cons by auto
  qed
  have len: "length ds \<noteq> 0" using assms(3) by simp
  have cur: "strtok m lst str q = do {
       p_start \<leftarrow> strtok_skip m p q (length ds);
       (if m p_start = 0 then Some (m, 0, 0)
        else do { (m, lst) \<leftarrow> strtok_end m p_start q (length ds); Some (m, lst, p_start) }) }"
    using assms(4,6) len strlen_eq [OF assms(2)] by (auto simp: strtok_def Let_def)
  show ?thesis
    using strtok_skip_eq [OF assms(1,2)] strtok_end_eq [OF s assms(2)] tok_Nil tok_all
    unfolding cur pre [symmetric] tok [symmetric] by (auto simp: Let_def)
qed


section \<open>Properties\<close>

text \<open>
  \<open>strcpy\<close> returns on every C string: the destination holds a C string equal to the
  source, every byte outside the copied range is unchanged, and the value returned is the
  address of the new terminator (not of the destination, as ISO C says).
\<close>

theorem strcpy_correct:
  assumes "cstr m src s" and "dst \<le> src \<or> src + length s < dst"
  shows "\<exists>m'. strcpy m dst src = Some (m', dst + length s) \<and> cstr m' dst s
     \<and> (\<forall>a. a < dst \<or> dst + length s < a \<longrightarrow> m' a = m a)"
proof -
  let ?m = "memcpy_loop m dst src (Suc (length s))"
  have "dst \<le> src \<or> src + Suc (length s) \<le> dst" using assms(2) by auto
  then have m': "?m = (\<lambda>a. if dst \<le> a \<and> a < dst + Suc (length s) then m (src + (a - dst)) else m a)"
    by (rule memcpy_loop_eq)
  have "\<forall>a. a < dst \<or> dst + length s < a \<longrightarrow> ?m a = m a"
    unfolding m' by auto
  with strcpy_eq [OF assms] cstr_memcpy_loop [OF assms] show ?thesis by blast
qed

theorem strcpy_correct_witness:
  "\<exists>m'. strcpy ((\<lambda>_. 7)(20 := 0x68, 21 := 0x69, 22 := 0)) 30 20
        = Some (m', 30 + length [0x68, 0x69 :: u8])
     \<and> cstr m' 30 [0x68, 0x69]
     \<and> (\<forall>a. a < 30 \<or> 30 + length [0x68, 0x69 :: u8] < a
           \<longrightarrow> m' a = ((\<lambda>_. 7)(20 := 0x68, 21 := 0x69, 22 := 0)) a)"
  by (rule strcpy_correct) simp_all

text \<open>
  \<open>strcat\<close> returns and puts the bytes of the source directly after those of the
  destination, but stores no terminator (\<open>start = '\0'\<close> assigns the pointer): the byte after
  the result keeps its old value, so the result is a C string exactly if that byte already
  was NUL.
\<close>

theorem strcat_behaviour:
  assumes "cstr m dst s" and "cstr m src t"
    and "src + length t < dst \<or> dst + length s + length t < src"
  shows "\<exists>m'. strcat m dst src = Some (m', dst) \<and> bytes m' dst (length s + length t) = s @ t
     \<and> (cstr m' dst (s @ t) \<longleftrightarrow> m (dst + length s + length t) = 0)"
proof -
  let ?d = "dst + length s"
  let ?m = "memcpy_loop m ?d src (length t)"
  have far: "?d \<le> src \<or> src + length t < ?d" using assms(3) by auto
  then have m': "?m = (\<lambda>a. if ?d \<le> a \<and> a < ?d + length t then m (src + (a - ?d)) else m a)"
    by (intro memcpy_loop_eq) auto
  have nth: "?m (dst + i) = (s @ t) ! i \<and> (s @ t) ! i \<noteq> 0" if "i < length s + length t" for i
    using that cstr_nth [OF assms(1), of i] cstr_nth [OF assms(2), of "i - length s"]
    unfolding m' by (auto simp: nth_append)
  have "strcat m dst src = Some (?m, dst)"
    using scan_end_eq [OF assms(1)] strcat_loop_eq [OF assms(2) far] by (simp add: strcat_def)
  moreover have "bytes ?m dst (length s + length t) = s @ t"
    using nth by (auto simp: list_eq_iff_nth_eq)
  moreover have "?m (dst + length s + length t) = m (dst + length s + length t)"
    unfolding m' by simp
  ultimately show ?thesis using nth by (auto simp: cstr_iff add.assoc)
qed

theorem strcat_behaviour_witness:
  "\<exists>m'. strcat ((\<lambda>_. 0)(10 := 0x61, 20 := 0x62)) 10 20 = Some (m', 10)
     \<and> bytes m' 10 (length [0x61 :: u8] + length [0x62 :: u8]) = [0x61] @ [0x62]
     \<and> (cstr m' 10 ([0x61] @ [0x62])
          \<longleftrightarrow> ((\<lambda>_. 0 :: u8)(10 := 0x61, 20 := 0x62)) (10 + length [0x61 :: u8] + length [0x62 :: u8]) = 0)"
  by (rule strcat_behaviour) simp_all

text \<open>
  \<open>strcmp\<close> returns 0 exactly on equal strings, and \<open>strncmp\<close> exactly when the first
  \<open>num\<close> bytes agree; strings of different length compare by length alone.
\<close>

theorem strcmp_strncmp_correct:
  assumes "cstr m p s" and "cstr m q t"
  shows "\<exists>d e. strcmp m p q = Some d \<and> (d = 0 \<longleftrightarrow> s = t)
     \<and> (length s \<noteq> length t \<longrightarrow> d = int (length s) - int (length t))
     \<and> strncmp m p q n = Some e \<and> (e = 0 \<longleftrightarrow> take n s = take n t)"
  using strcmp_eq [OF assms] strncmp_loop_zero_iff [OF assms, of n] assms
  by (auto simp: strncmp_def strlen_eq)

theorem strcmp_strncmp_correct_witness:
  "\<exists>d e. strcmp ((\<lambda>_. 0)(10 := 0x61, 20 := 0x61, 21 := 0x62)) 10 20 = Some d
     \<and> (d = 0 \<longleftrightarrow> [0x61 :: u8] = [0x61, 0x62])
     \<and> (length [0x61 :: u8] \<noteq> length [0x61 :: u8, 0x62]
          \<longrightarrow> d = int (length [0x61 :: u8]) - int (length [0x61 :: u8, 0x62]))
     \<and> strncmp ((\<lambda>_. 0)(10 := 0x61, 20 := 0x61, 21 := 0x62)) 10 20 1 = Some e
     \<and> (e = 0 \<longleftrightarrow> take 1 [0x61 :: u8] = take 1 [0x61, 0x62])"
  by (rule strcmp_strncmp_correct) simp_all

text \<open>
  \<open>strstr\<close> returns the first occurrence of a non-empty needle that does not end the
  haystack, and NULL when every occurrence ends it: an occurrence at the very end is missed.
\<close>

theorem strstr_finds_before_end:
  assumes "cstr m p s" and "cstr m q t" and "p > 0" and "t \<noteq> []"
  shows "strstr m p q = Some (case find_before_end t s of None \<Rightarrow> 0 | Some i \<Rightarrow> p + i)"
  by (rule strstr_eq [OF assms])

theorem strstr_finds_before_end_witness:
  "strstr ((\<lambda>_. 0)(10 := 0x61, 11 := 0x62, 20 := 0x62)) 10 20
     = Some (case find_before_end [0x62] [0x61, 0x62] of None \<Rightarrow> 0 | Some i \<Rightarrow> 10 + i)
   \<and> find_before_end [0x62 :: u8] [0x61, 0x62] = None"
  by (intro conjI strstr_finds_before_end) simp_all

text \<open>
  C39. One call of \<open>strtok\<close>, with a string or continuing from \<open>last\<close>: leading delimiters are
  skipped; if a token follows, its address is returned, the memory holds it as a C string,
  and \<open>last\<close> moves behind the delimiter (overwritten by NUL) or to the string's end; if
  nothing is left, NULL is returned and \<open>last\<close> is cleared.
\<close>

theorem strtok_token:
  assumes "cstr m p s" and "cstr m q ds" and "ds \<noteq> []" and "p > 0"
    and "next_token ds s = (pre, tok, rest)"
    and "str = p \<or> str = 0 \<and> lst = p"
  shows "if tok = [] then strtok m lst str q = Some (m, 0, 0)
     else \<exists>m' lst'. strtok m lst str q = Some (m', lst', p + length pre)
       \<and> cstr m' (p + length pre) tok \<and> cstr m' lst' (tl rest)"
proof (cases "tok = []")
  case True
  then show ?thesis using strtok_scan_eq [OF assms] by simp
next
  case False
  have s: "s = pre @ tok @ rest"
    using assms(5) by (auto simp: next_token_def Let_def)
  then have tokrest: "cstr m (p + length pre) (tok @ rest)" using assms(1) cstr_append by blast
  then have rest: "cstr m (p + length pre + length tok) rest" by (rule cstr_append)
  show ?thesis
  proof (cases rest)
    case Nil
    then show ?thesis using False strtok_scan_eq [OF assms] tokrest rest by auto
  next
    case (Cons d more)
    let ?m = "m(p + length pre + length tok := 0)"
    have "cstr ?m (p + length pre) tok"
      using tokrest by (auto simp: cstr_iff nth_append split: if_splits)
    moreover have "cstr ?m (p + length pre + length tok + 1) more"
      using rest Cons by (auto intro!: cstr_upd)
    ultimately show ?thesis using False Cons strtok_scan_eq [OF assms] by auto
  qed
qed

theorem strtok_token_witness:
  "if [0x61 :: u8] = [] then strtok ((\<lambda>_. 0)(10 := 0x20, 11 := 0x61, 20 := 0x20)) 0 10 20
       = Some ((\<lambda>_. 0)(10 := 0x20, 11 := 0x61, 20 := 0x20), 0, 0)
   else \<exists>m' lst'. strtok ((\<lambda>_. 0)(10 := 0x20, 11 := 0x61, 20 := 0x20)) 0 10 20
           = Some (m', lst', 10 + length [0x20 :: u8])
       \<and> cstr m' (10 + length [0x20 :: u8]) [0x61] \<and> cstr m' lst' (tl [])"
  by (rule strtok_token [where s = "[0x20, 0x61]" and ds = "[0x20]"]) (simp_all add: next_token_def)

end
