(* ===== verification/RString.thy ===== *)
theory RString
  imports CString
begin

text \<open>
  \<^verbatim>\<open>rlibc/string\<close>: the user-space string library. Most of its files hold the text of the
  kernel's routines again; those are the same functions. The ones whose text differs
  (\<open>memset\<close>, \<open>memchr\<close>, \<open>strchr\<close>, \<open>strrchr\<close> take an \<open>int\<close> character; \<open>strchr\<close> also finds the
  terminator) are translated on their own. The locale \<open>string_library\<close> is the contract both
  libraries meet and their callers rely on.
\<close>

section \<open>The routines\<close>

definition rl_memcpy :: "mem \<Rightarrow> nat \<Rightarrow> nat \<Rightarrow> nat \<Rightarrow> mem \<times> nat" where
  "rl_memcpy = memcpy"

definition rl_memmove :: "mem \<Rightarrow> nat \<Rightarrow> nat \<Rightarrow> nat \<Rightarrow> mem \<times> nat" where
  "rl_memmove = memmove"

definition rl_memcmp :: "mem \<Rightarrow> nat \<Rightarrow> nat \<Rightarrow> nat \<Rightarrow> int" where
  "rl_memcmp = memcmp"

text \<open>\<open>str[num] = value\<close> stores the low byte of the \<open>int\<close>.\<close>

definition rl_memset :: "mem \<Rightarrow> nat \<Rightarrow> int \<Rightarrow> int \<Rightarrow> mem \<times> nat" where
  "rl_memset m ptr value num = (memset_loop m ptr (word_of_int value) (num - 1), ptr)"

fun rl_memchr :: "mem \<Rightarrow> nat \<Rightarrow> int \<Rightarrow> nat \<Rightarrow> nat" where
  "rl_memchr m cptr value 0 = 0"
| "rl_memchr m cptr value (Suc num) =
     (if sint (m cptr) = value then cptr else rl_memchr m (cptr + 1) value num)"

definition rl_strlen :: "mem \<Rightarrow> nat \<Rightarrow> nat option" where
  "rl_strlen = strlen"

definition rl_strcpy :: "mem \<Rightarrow> nat \<Rightarrow> nat \<Rightarrow> (mem \<times> nat) option" where
  "rl_strcpy = strcpy"

definition rl_strncpy :: "mem \<Rightarrow> nat \<Rightarrow> nat \<Rightarrow> nat \<Rightarrow> mem \<times> nat" where
  "rl_strncpy = strncpy"

definition rl_strcat :: "mem \<Rightarrow> nat \<Rightarrow> nat \<Rightarrow> (mem \<times> nat) option" where
  "rl_strcat = strcat"

definition rl_strncat :: "mem \<Rightarrow> nat \<Rightarrow> nat \<Rightarrow> nat \<Rightarrow> (mem \<times> nat) option" where
  "rl_strncat = strncat"

definition rl_strcmp :: "mem \<Rightarrow> nat \<Rightarrow> nat \<Rightarrow> int option" where
  "rl_strcmp = strcmp"

definition rl_strncmp :: "mem \<Rightarrow> nat \<Rightarrow> nat \<Rightarrow> nat \<Rightarrow> int option" where
  "rl_strncmp = strncmp"

partial_function (option) rl_strchr :: "mem \<Rightarrow> nat \<Rightarrow> int \<Rightarrow> nat option" where
  "rl_strchr m str value =
     (if m str \<noteq> 0 then (if sint (m str) = value then Some str else rl_strchr m (str + 1) value)
      else if value = 0 then Some str
      else Some 0)"

partial_function (option) rl_strrchr_loop :: "mem \<Rightarrow> nat \<Rightarrow> nat \<Rightarrow> int \<Rightarrow> nat option" where
  "rl_strrchr_loop m en str value =
     (if en \<ge> str then
        (if sint (m en) = value then Some en else rl_strrchr_loop m (en - 1) str value)
      else Some 0)"

definition rl_strrchr :: "mem \<Rightarrow> nat \<Rightarrow> int \<Rightarrow> nat option" where
  "rl_strrchr m str value = do { en \<leftarrow> scan_end m str; rl_strrchr_loop m en str value }"

definition rl_strpbrk :: "mem \<Rightarrow> nat \<Rightarrow> nat \<Rightarrow> nat option" where
  "rl_strpbrk = strpbrk"

definition rl_strcspn :: "mem \<Rightarrow> nat \<Rightarrow> nat \<Rightarrow> nat option" where
  "rl_strcspn = strcspn"

definition rl_strspn :: "mem \<Rightarrow> nat \<Rightarrow> nat \<Rightarrow> nat option" where
  "rl_strspn = strspn"

text \<open>The text of \<open>strstr\<close> is the kernel's, over this library's \<open>strchr\<close>.\<close>

partial_function (option) rl_strstr :: "mem \<Rightarrow> nat \<Rightarrow> nat \<Rightarrow> nat option" where
  "rl_strstr m str1 str2 =
     (if m str1 \<noteq> 0 then
        Option.bind (rl_strchr m str1 (sint (m str2)))
          (\<lambda>str1. if str1 = 0 then Some 0
            else Option.bind (rl_strlen m str2)
              (\<lambda>len. if strstr_match m str1 str2 len 1 = len then Some str1
                 else rl_strstr m (str1 + 1) str2))
      else Some 0)"

definition rl_strtok :: "mem \<Rightarrow> nat \<Rightarrow> nat \<Rightarrow> nat \<Rightarrow> (mem \<times> nat \<times> nat) option" where
  "rl_strtok = strtok"

section \<open>The contract of a string library\<close>

locale string_library =
  fixes len :: "mem \<Rightarrow> nat \<Rightarrow> nat option"
    and cmp :: "mem \<Rightarrow> nat \<Rightarrow> nat \<Rightarrow> int option"
    and cmpn :: "mem \<Rightarrow> nat \<Rightarrow> nat \<Rightarrow> nat \<Rightarrow> int option"
  assumes len_cstr: "cstr m p s \<Longrightarrow> len m p = Some (length s)"
    and cmp_cstr: "cstr m p s \<Longrightarrow> cstr m q t \<Longrightarrow> \<exists>d. cmp m p q = Some d \<and> (d = 0 \<longleftrightarrow> s = t)"
    and cmpn_cstr: "cstr m p s \<Longrightarrow> cstr m q t \<Longrightarrow>
      \<exists>d. cmpn m p q n = Some d \<and> (d = 0 \<longleftrightarrow> take n s = take n t)"
begin

lemma cmp_refl: "cstr m p s \<Longrightarrow> cmp m p p = Some 0"
  using cmp_cstr [of m p s p s] by auto

lemma cmp_sym_zero: "cstr m p s \<Longrightarrow> cstr m q t \<Longrightarrow> cmp m p q = Some 0 \<longleftrightarrow> cmp m q p = Some 0"
  using cmp_cstr [of m p s q t] cmp_cstr [of m q t p s] by auto

lemma cmp_trans_zero:
  "cstr m p s \<Longrightarrow> cstr m q t \<Longrightarrow> cstr m r u \<Longrightarrow> cmp m p q = Some 0 \<Longrightarrow> cmp m q r = Some 0
   \<Longrightarrow> cmp m p r = Some 0"
  using cmp_cstr [of m p s q t] cmp_cstr [of m q t r u] cmp_cstr [of m p s r u] by auto

text \<open>A prefix test with the needle's own length: the idiom of \<open>getenv\<close> and \<open>setenv\<close>.\<close>

lemma cmpn_prefix:
  assumes "cstr m p s" "cstr m q t" "len m p = Some n"
  shows "cmpn m p q n = Some 0 \<longleftrightarrow> (\<exists>u. t = s @ u)"
proof -
  have n: "n = length s" using assms len_cstr by auto
  obtain d where d: "cmpn m p q n = Some d" "d = 0 \<longleftrightarrow> take n s = take n t"
    using cmpn_cstr [OF assms(1,2)] by blast
  have "take n s = take n t \<longleftrightarrow> (\<exists>u. t = s @ u)"
    unfolding n by (metis append_eq_conv_conj append_take_drop_id order_refl take_all)
  then show ?thesis using d by auto
qed

end

lemma strncmp_cstr:
  assumes "cstr m p s" "cstr m q t"
  shows "\<exists>d. strncmp m p q n = Some d \<and> (d = 0 \<longleftrightarrow> take n s = take n t)"
  using assms strncmp_loop_zero_iff [OF assms, of n] by (simp add: strncmp_def strlen_eq)

lemma strcmp_cstr:
  assumes "cstr m p s" "cstr m q t"
  shows "\<exists>d. strcmp m p q = Some d \<and> (d = 0 \<longleftrightarrow> s = t)"
  using strcmp_eq [OF assms] by blast

interpretation kernel_str: string_library strlen strcmp strncmp
  by unfold_locales (rule strlen_eq strcmp_cstr strncmp_cstr; assumption)+

interpretation rlibc_str: string_library rl_strlen rl_strcmp rl_strncmp
  unfolding rl_strlen_def rl_strcmp_def rl_strncmp_def
  by (rule kernel_str.string_library_axioms)

section \<open>The routines whose text differs\<close>

lemma sint_byte_eq_iff: "sint (c :: u8) = v \<longleftrightarrow> (-128 \<le> v \<and> v < 128 \<and> c = word_of_int v)"
proof
  assume v: "sint c = v"
  have "-128 \<le> sint c" "sint c < 128" using sint_range_size [of c] by (auto simp: word_size)
  with v show "-128 \<le> v \<and> v < 128 \<and> c = word_of_int v" by auto
next
  assume "-128 \<le> v \<and> v < 128 \<and> c = word_of_int v"
  then show "sint c = v" by (auto simp: sint_sbintrunc' signed_take_bit_int_eq_self)
qed

lemma rl_strchr_eq:
  assumes "cstr m p s" "p > 0"
  shows "rl_strchr m p v = Some (if \<exists>c \<in> set s. sint c = v
      then p + length (takeWhile (\<lambda>c. sint c \<noteq> v) s) else if v = 0 then p + length s else 0)"
  using assms
proof (induction s arbitrary: p)
  case (Cons c s)
  then show ?case by (subst rl_strchr.simps) auto
qed (simp add: rl_strchr.simps)

lemma rl_strchr_strchr:
  assumes "cstr m p s" "p > 0" "c \<noteq> 0"
  shows "rl_strchr m p (sint c) = strchr m p c"
proof -
  have "(\<lambda>d. sint d \<noteq> sint c) = (\<lambda>d. d \<noteq> c)" and "sint c \<noteq> 0"
    using assms(3) sint_eq_iff_word [of c 0] by (auto simp: sint_eq_iff_word)
  then show ?thesis using rl_strchr_eq [OF assms(1,2), of "sint c"] strchr_eq [OF assms]
    by (auto simp: sint_eq_iff_word)
qed

end
