(* ===== verification/Alloc.thy ===== *)
theory Alloc
  imports Prelude
begin

text \<open>
  The contract between the kernel allocator (\<^verbatim>\<open>kernel/src/mm/kmalloc.c\<close>) and its clients: the
  file systems under \<^verbatim>\<open>kernel/src/fs\<close> and the task code. Theory \<open>Kmalloc\<close> interprets it on the
  kernel's \<open>kmalloc\<close> and \<open>kfree\<close>.
\<close>

section \<open>The interface of the allocator\<close>

text \<open>
  What the clients rely on: a block that is handed out overlaps no block in use, stays in use
  until it is freed, and is 16-byte aligned; a failed call changes no block.
\<close>

locale allocator =
  fixes alloc :: "'s \<Rightarrow> u32 \<Rightarrow> u32 \<times> 's"
    and free :: "'s \<Rightarrow> u32 \<Rightarrow> 's"
    and used :: "'s \<Rightarrow> (nat \<times> nat) set"
    and inv :: "'s \<Rightarrow> bool"
  assumes alloc_inv: "inv s \<Longrightarrow> 0 < n \<Longrightarrow> n < 1073741800 \<Longrightarrow> inv (snd (alloc s (of_nat n)))"
    and alloc_null: "inv s \<Longrightarrow> 0 < n \<Longrightarrow> n < 1073741800 \<Longrightarrow> fst (alloc s (of_nat n)) = 0 \<Longrightarrow>
      used (snd (alloc s (of_nat n))) = used s"
    and alloc_block: "inv s \<Longrightarrow> 0 < n \<Longrightarrow> n < 1073741800 \<Longrightarrow> fst (alloc s (of_nat n)) = p \<Longrightarrow> p \<noteq> 0 \<Longrightarrow>
      16 dvd unat p \<and> (\<exists>m \<ge> n. used (snd (alloc s (of_nat n))) = insert (unat p, m) (used s)
        \<and> (\<forall>(q, k) \<in> used s. q + k \<le> unat p \<or> unat p + m \<le> q))"
    and free_inv: "inv s \<Longrightarrow> (unat p, m) \<in> used s \<Longrightarrow> inv (free s p)"
    and free_used: "inv s \<Longrightarrow> (unat p, m) \<in> used s \<Longrightarrow> used (free s p) = used s - {(unat p, m)}"
    and used_pos: "inv s \<Longrightarrow> (q, k) \<in> used s \<Longrightarrow> 0 < k"
begin

text \<open>A new block has an address no block in use has.\<close>

lemma alloc_fresh:
  assumes "inv s" "0 < n" "n < 1073741800" "fst (alloc s (of_nat n)) = p" "p \<noteq> 0"
  shows "\<forall>k. (unat p, k) \<notin> used s"
  using alloc_block [OF assms] used_pos [OF assms(1)] assms(2) by force

lemma alloc_keeps:
  assumes "inv s" "0 < n" "n < 1073741800" "b \<in> used s"
  shows "b \<in> used (snd (alloc s (of_nat n)))"
  using alloc_null [OF assms(1-3)] alloc_block [OF assms(1-3) refl] assms(4)
  by (cases "fst (alloc s (of_nat n)) = 0") auto

text \<open>Allocating a block and freeing it again leaves the blocks in use as they were.\<close>

lemma alloc_free:
  assumes "inv s" "0 < n" "n < 1073741800" "alloc s (of_nat n) = (p, s')" "p \<noteq> 0"
  shows "inv (free s' p) \<and> used (free s' p) = used s"
proof -
  obtain m where m: "used s' = insert (unat p, m) (used s)" using alloc_block [OF assms(1-3)] assms(4,5) by force
  have "inv s'" using alloc_inv [OF assms(1-3)] assms(4) by simp
  moreover have "(unat p, m) \<notin> used s" using alloc_fresh [OF assms(1-3)] assms(4,5) by simp
  ultimately show ?thesis using free_inv [of s' p m] free_used [of s' p m] m by auto
qed

end

end
