(* ===== verification/VfsBase.thy ===== *)
theory VfsBase
  imports Alloc CString
begin

text \<open>
  The data the file systems share: \<^verbatim>\<open>kernel/src/fs/vfs.h\<close>, the inode tables of the modules under
  \<^verbatim>\<open>kernel/src/fs\<close>, and the descriptor table of the current task. VFS nodes, headers and 256-byte
  data blocks live in typed heaps keyed by their address; what \<open>kmalloc\<close> returns holds
  arbitrary contents until it is written. \<open>hs\<close> is the state of the kernel allocator; the
  operations take \<open>kmalloc\<close> and \<open>kfree\<close> as the arguments \<open>km\<close> and \<open>kf\<close>.

  A function pointer of a node is \<open>Some m\<close> for the function of module \<open>m\<close>, \<open>None\<close> for NULL. An
  operation returns \<open>None\<close> if it dereferences NULL or never returns. A buffer is the list of its
  bytes: a write takes the bytes it is to write, a read returns the bytes it stored.
\<close>

section \<open>Types\<close>

datatype fsmod = RAMFS | PIPE | FIFOFS | STDIN | STDOUT | STDERR

record stat_t =
  st_dev :: u32
  st_ino :: u32
  st_mode :: u32
  st_uid :: u32
  st_gid :: u32
  st_rdev :: u32
  st_size :: u32
  st_atime :: u32
  st_mtime :: u32
  st_ctime :: u32

record vfs_node_t =
  v_name :: "nat \<Rightarrow> u8"
  status :: stat_t
  v_read :: "fsmod option"
  v_write :: "fsmod option"
  v_open :: "fsmod option"
  v_creat :: "fsmod option"
  v_close :: "fsmod option"
  v_lseek :: "fsmod option"
  v_next :: u32

record fildes_t =
  vfs_node :: u32
  at_off :: u32
  oflag :: u32

text \<open>\<open>ramfs_data_t\<close>, \<open>pipe_data_t\<close> and \<open>fifofs_data_t\<close> are the same structure.\<close>

record data_t =
  blk :: "nat \<Rightarrow> u8"
  d_next :: u32

record pipe_hdr_t =
  p_data :: u32
  write_at :: u32
  read_at :: u32
  writers :: u32
  readers :: u32

record fifofs_hdr_t =
  f_data :: u32
  f_write_at :: u32
  f_read_at :: u32
  f_readers :: int
  f_writers :: int

record 'h fs_st =
  vnodes :: "u32 \<Rightarrow> vfs_node_t"
  vfs_root :: u32
  files :: "nat \<Rightarrow> fildes_t"
  blks :: "u32 \<Rightarrow> data_t"
  ramfs_nodes :: "nat \<Rightarrow> u32"
  ramfs_inodes :: u32
  phdrs :: "u32 \<Rightarrow> pipe_hdr_t"
  pipes :: "nat \<Rightarrow> u32"
  pipe_inodes :: u32
  fhdrs :: "u32 \<Rightarrow> fifofs_hdr_t"
  fifofs_nodes :: "nat \<Rightarrow> u32"
  in_read_at :: nat
  in_write_at :: nat
  stdin_buf_size :: u32
  stdin_buf :: "nat \<Rightarrow> u8"
  console :: "u8 list"
  errno :: "errno option"
  hs :: 'h

abbreviation (input) DEVID_RAMFS :: u32 where "DEVID_RAMFS \<equiv> 1"
abbreviation (input) DEVID_PIPE :: u32 where "DEVID_PIPE \<equiv> 2"
abbreviation (input) DEVID_STDIO :: u32 where "DEVID_STDIO \<equiv> 3"
abbreviation (input) OPEN_MAX :: int where "OPEN_MAX \<equiv> 32"

abbreviation (input) O_ACCMODE :: u32 where "O_ACCMODE \<equiv> 0x3"
abbreviation (input) O_RDONLY :: u32 where "O_RDONLY \<equiv> 0x1"
abbreviation (input) O_WRONLY :: u32 where "O_WRONLY \<equiv> 0x2"
abbreviation (input) O_RDWR :: u32 where "O_RDWR \<equiv> 0x3"
abbreviation (input) O_CREAT :: u32 where "O_CREAT \<equiv> 0x10"
abbreviation (input) O_EXCL :: u32 where "O_EXCL \<equiv> 0x20"
abbreviation (input) O_NONBLOCK :: u32 where "O_NONBLOCK \<equiv> 0x200"
abbreviation (input) O_SF_MASK :: u32 where "O_SF_MASK \<equiv> 0xF00"
abbreviation (input) O_MASK :: u32 where "O_MASK \<equiv> 0xFF3"
abbreviation (input) FD_MASK :: u32 where "FD_MASK \<equiv> 0xF000"
abbreviation (input) FD_CLOEXEC :: u32 where "FD_CLOEXEC \<equiv> 0x1000"

abbreviation (input) S_IFMT :: u32 where "S_IFMT \<equiv> 0xFF0000"
abbreviation (input) S_IFIFO :: u32 where "S_IFIFO \<equiv> 0x40000"
abbreviation (input) S_IFREG :: u32 where "S_IFREG \<equiv> 0x80000"
abbreviation (input) S_IFDIR :: u32 where "S_IFDIR \<equiv> 0x100000"
abbreviation (input) S_IPERM :: u32 where "S_IPERM \<equiv> 0xFFF"
abbreviation (input) S_IRWXUGO :: u32 where "S_IRWXUGO \<equiv> 0x1FF"

type_synonym 'h kmalloc_fn = "'h \<Rightarrow> u32 \<Rightarrow> u32 \<times> 'h"
type_synonym 'h kfree_fn = "'h \<Rightarrow> u32 \<Rightarrow> 'h"

section \<open>Small steps\<close>

text \<open>\<open>kmalloc\<close> with its effect on \<open>errno\<close>, and \<open>kfree\<close>.\<close>

definition fs_kmalloc :: "'h kmalloc_fn \<Rightarrow> u32 \<Rightarrow> 'h fs_st \<Rightarrow> u32 \<times> 'h fs_st" where
  "fs_kmalloc km sz s =
     (let (p, h) = km (hs s) sz in
      (p, s\<lparr>hs := h, errno := (if p = 0 then Some ENOMEM else errno s)\<rparr>))"

definition fs_kfree :: "'h kfree_fn \<Rightarrow> u32 \<Rightarrow> 'h fs_st \<Rightarrow> 'h fs_st" where
  "fs_kfree kf p s = s\<lparr>hs := kf (hs s) p\<rparr>"

definition set_errno :: "errno \<Rightarrow> 'h fs_st \<Rightarrow> 'h fs_st" where
  "set_errno e s = s\<lparr>errno := Some e\<rparr>"

definition set_vnode :: "u32 \<Rightarrow> (vfs_node_t \<Rightarrow> vfs_node_t) \<Rightarrow> 'h fs_st \<Rightarrow> 'h fs_st" where
  "set_vnode n f s = s\<lparr>vnodes := (vnodes s)(n := f (vnodes s n))\<rparr>"

definition set_file :: "nat \<Rightarrow> (fildes_t \<Rightarrow> fildes_t) \<Rightarrow> 'h fs_st \<Rightarrow> 'h fs_st" where
  "set_file fd f s = s\<lparr>files := (files s)(fd := f (files s fd))\<rparr>"

definition set_blk :: "u32 \<Rightarrow> (data_t \<Rightarrow> data_t) \<Rightarrow> 'h fs_st \<Rightarrow> 'h fs_st" where
  "set_blk p f s = s\<lparr>blks := (blks s)(p := f (blks s p))\<rparr>"

definition add_size :: "u32 \<Rightarrow> vfs_node_t \<Rightarrow> vfs_node_t" where
  "add_size k n = n\<lparr>status := (status n)\<lparr>st_size := st_size (status n) + k\<rparr>\<rparr>"

text \<open>\<open>for (i = 0; i < n; i++) curnode = curnode->next;\<close>\<close>

fun walk :: "(u32 \<Rightarrow> data_t) \<Rightarrow> nat \<Rightarrow> u32 \<Rightarrow> u32 option" where
  "walk bl 0 p = Some p"
| "walk bl (Suc n) p = (if p = 0 then None else walk bl n (d_next (bl p)))"

text \<open>The C string in the 64 bytes of a node's name.\<close>

definition array_str :: "(nat \<Rightarrow> u8) \<Rightarrow> u8 list" where
  "array_str nm = takeWhile (\<lambda>c. c \<noteq> 0) (map nm [0..<64])"

text \<open>\<open>strcpy(node->name, s)\<close>, and for a string that is not empty \<open>strncpy(node->name, s, 63); node->name[63] = '\0'\<close>.\<close>

definition put_name :: "u8 list \<Rightarrow> (nat \<Rightarrow> u8) \<Rightarrow> nat \<Rightarrow> u8" where
  "put_name cs nm = (\<lambda>i. if i < length cs then cs ! i else if i = length cs then 0 else nm i)"

definition put_name_n :: "u8 list \<Rightarrow> (nat \<Rightarrow> u8) \<Rightarrow> nat \<Rightarrow> u8" where
  "put_name_n cs nm = (\<lambda>i. if i < length cs \<and> i < 63 then cs ! i else nm i)(63 := 0)"

section \<open>Descriptors and the list of nodes\<close>

text \<open>
  \<open>get_free_fd\<close>. The loop stops at \<open>OPEN_MAX\<close> only by equality: started above it, it reads
  outside the table (\<open>None\<close>).
\<close>

function get_free_fd_loop :: "(nat \<Rightarrow> fildes_t) \<Rightarrow> nat \<Rightarrow> int option" where
  "get_free_fd_loop fs fd =
     (if fd = 32 then Some (-1)
      else if fd > 32 then None
      else if vfs_node (fs fd) \<noteq> 0 then get_free_fd_loop fs (fd + 1)
      else Some (int fd))"
  by pat_completeness auto
termination by (relation "measure (\<lambda>(fs, fd). 32 - fd)") auto

declare get_free_fd_loop.simps [simp del]

definition get_free_fd :: "int \<Rightarrow> 'h fs_st \<Rightarrow> int option" where
  "get_free_fd fd s = (if fd < 0 then Some (-1) else get_free_fd_loop (files s) (nat fd))"

text \<open>\<open>while (node->next != NULL) node = node->next;\<close>\<close>

partial_function (option) last_vnode :: "(u32 \<Rightarrow> vfs_node_t) \<Rightarrow> u32 \<Rightarrow> u32 option" where
  "last_vnode vs n = (if v_next (vs n) \<noteq> 0 then last_vnode vs (v_next (vs n)) else Some n)"

text \<open>
  The code every creating routine starts with: a new node at the end of the list. \<open>sizeof
  (struct vfs_node_t)\<close> is 132. The second value is the node before it (\<open>node_backup\<close>).
\<close>

definition append_vnode :: "'h kmalloc_fn \<Rightarrow> 'h fs_st \<Rightarrow> (u32 \<times> u32 \<times> 'h fs_st) option" where
  "append_vnode km s =
     (if vfs_root s = 0 then
        let (n, s) = fs_kmalloc km 132 s in
        if n = 0 then Some (0, 0, s) else Some (n, 0, s\<lparr>vfs_root := n\<rparr>)
      else do {
        lst \<leftarrow> last_vnode (vnodes s) (vfs_root s);
        let (n, s) = fs_kmalloc km 132 s;
        let s = set_vnode lst (\<lambda>v. v\<lparr>v_next := n\<rparr>) s;
        Some (n, lst, s)
      })"

text \<open>The state of the file systems before anything was created, over an allocator state.\<close>

definition zero_node :: vfs_node_t where
  "zero_node = \<lparr>v_name = \<lambda>_. 0, status = \<lparr>st_dev = 0, st_ino = 0, st_mode = 0, st_uid = 0, st_gid = 0,
       st_rdev = 0, st_size = 0, st_atime = 0, st_mtime = 0, st_ctime = 0\<rparr>, v_read = None, v_write = None, v_open = None, v_creat = None,
     v_close = None, v_lseek = None, v_next = 0\<rparr>"

definition fs_init :: "'h \<Rightarrow> 'h fs_st" where
  "fs_init h = \<lparr>vnodes = \<lambda>_. zero_node, vfs_root = 0, files = \<lambda>_. \<lparr>vfs_node = 0, at_off = 0, oflag = 0\<rparr>,
     blks = \<lambda>_. \<lparr>blk = \<lambda>_. 0, d_next = 0\<rparr>, ramfs_nodes = \<lambda>_. 0, ramfs_inodes = 0,
     phdrs = \<lambda>_. \<lparr>p_data = 0, write_at = 0, read_at = 0, writers = 0, readers = 0\<rparr>, pipes = \<lambda>_. 0, pipe_inodes = 0,
     fhdrs = \<lambda>_. \<lparr>f_data = 0, f_write_at = 0, f_read_at = 0, f_readers = 0, f_writers = 0\<rparr>, fifofs_nodes = \<lambda>_. 0,
     in_read_at = 0, in_write_at = 0, stdin_buf_size = 0, stdin_buf = \<lambda>_. 0, console = [], errno = None, hs = h\<rparr>"

section \<open>Descriptors\<close>

lemma get_free_fd_loop_cases:
  assumes "fd \<le> 32"
  shows "\<exists>r. get_free_fd_loop fs fd = Some r
     \<and> (r = -1 \<and> (\<forall>k. fd \<le> k \<and> k < 32 \<longrightarrow> vfs_node (fs k) \<noteq> 0)
       \<or> int fd \<le> r \<and> r < 32 \<and> vfs_node (fs (nat r)) = 0
         \<and> (\<forall>k. fd \<le> k \<and> int k < r \<longrightarrow> vfs_node (fs k) \<noteq> 0))"
  using assms
proof (induction fs fd rule: get_free_fd_loop.induct)
  case (1 fs fd)
  consider "fd = 32" | "fd < 32" "vfs_node (fs fd) = 0" | "fd < 32" "vfs_node (fs fd) \<noteq> 0"
    using 1(2) by linarith
  then show ?case
  proof cases
    case 3
    then obtain r where r: "get_free_fd_loop fs (fd + 1) = Some r"
        "r = -1 \<and> (\<forall>k. fd + 1 \<le> k \<and> k < 32 \<longrightarrow> vfs_node (fs k) \<noteq> 0)
         \<or> int (fd + 1) \<le> r \<and> r < 32 \<and> vfs_node (fs (nat r)) = 0
           \<and> (\<forall>k. fd + 1 \<le> k \<and> int k < r \<longrightarrow> vfs_node (fs k) \<noteq> 0)"
      using 1(1) by auto
    have "get_free_fd_loop fs fd = Some r" using 3 r(1) by (subst get_free_fd_loop.simps) simp
    moreover have "fd \<le> k \<longleftrightarrow> k = fd \<or> fd + 1 \<le> k" for k by auto
    ultimately show ?thesis using r(2) 3(2) by auto
  qed (subst get_free_fd_loop.simps, auto)+
qed

text \<open>\<open>get_free_fd\<close> returns the lowest free descriptor that is not below its argument.\<close>

lemma get_free_fd_cases:
  assumes "0 \<le> fd" "fd \<le> 32"
  shows "\<exists>r. get_free_fd fd s = Some r
     \<and> (r = -1 \<and> (\<forall>k. fd \<le> int k \<and> k < 32 \<longrightarrow> vfs_node (files s k) \<noteq> 0)
       \<or> fd \<le> r \<and> r < 32 \<and> vfs_node (files s (nat r)) = 0
         \<and> (\<forall>k. fd \<le> int k \<and> int k < r \<longrightarrow> vfs_node (files s k) \<noteq> 0))"
  using get_free_fd_loop_cases [of "nat fd" "files s"] assms
  by (auto simp: get_free_fd_def nat_le_iff)

end
