(* ===== verification/Blocks.thy ===== *)
theory Blocks
  imports VfsBase
begin

text \<open>
  Chains of 256-byte blocks. \<^verbatim>\<open>ramfs.c\<close>, \<^verbatim>\<open>pipe.c\<close> and \<^verbatim>\<open>fifofs.c\<close> each spell out the same
  loops over such chains; here they are written once, with the bookkeeping each file system does
  per byte or per block as an argument. What \<open>kmalloc\<close> promises of fresh blocks (locale
  \<open>fs_allocator\<close>) and that the bookkeeping leaves the blocks alone (locale \<open>block_writer\<close>) give that
  reading on from where a write started returns what was written.
\<close>

section \<open>Loops over the blocks\<close>

text \<open>The loop of a read that keeps the blocks: \<open>n\<close> more bytes from offset \<open>off\<close> of block \<open>p\<close> on.\<close>

function blk_read_loop :: "(u32 \<Rightarrow> data_t) \<Rightarrow> nat \<Rightarrow> nat \<Rightarrow> u32 \<Rightarrow> u8 list option" where
  "blk_read_loop bl 0 off p = Some []"
| "blk_read_loop bl (Suc n) off p =
     (if p = 0 then None
      else if off < 256 then map_option ((#) (blk (bl p) off)) (blk_read_loop bl n (off + 1) p)
      else blk_read_loop bl (Suc n) 0 (d_next (bl p)))"
  by pat_completeness auto
termination by (relation "measures [\<lambda>(bl, n, off, p). n, \<lambda>(bl, n, off, p). of_bool (off \<ge> 256)]") auto

text \<open>
  The inner loop of a write: bytes go into the block from \<open>off\<close> on until the block is full
  or none are left; the rest remains.
\<close>

fun fill_blk :: "nat \<Rightarrow> u8 list \<Rightarrow> (nat \<Rightarrow> u8) \<Rightarrow> (nat \<Rightarrow> u8) \<times> u8 list" where
  "fill_blk off [] d = (d, [])"
| "fill_blk off (b # bs) d = (if off < 256 then fill_blk (Suc off) bs (d(off := b)) else (d, b # bs))"

lemma fill_blk_split:
  "\<exists>xs. bs = xs @ snd (fill_blk off bs d)
     \<and> fst (fill_blk off bs d) = (\<lambda>i. if off \<le> i \<and> i < off + length xs then xs ! (i - off) else d i)
     \<and> off + length xs \<le> max off 256 \<and> (snd (fill_blk off bs d) \<noteq> [] \<longrightarrow> off + length xs \<ge> 256)"
proof (induction off bs d rule: fill_blk.induct)
  case (2 off b bs d)
  show ?case
  proof (cases "off < 256")
    case True
    from 2 [OF True] obtain xs where xs: "bs = xs @ snd (fill_blk (Suc off) bs (d(off := b)))"
        "fst (fill_blk (Suc off) bs (d(off := b)))
           = (\<lambda>i. if Suc off \<le> i \<and> i < Suc off + length xs then xs ! (i - Suc off) else (d(off := b)) i)"
        "Suc off + length xs \<le> max (Suc off) 256"
        "snd (fill_blk (Suc off) bs (d(off := b))) \<noteq> [] \<longrightarrow> Suc off + length xs \<ge> 256"
      by blast
    show ?thesis
      using True xs(1,3,4)
      by (intro exI [of _ "b # xs"]) (auto simp: xs(2) fun_eq_iff nth_Cons' Suc_diff_Suc less_Suc_eq_le)
  qed (auto simp: fun_eq_iff intro!: exI [of _ "[]"])
qed (auto simp: fun_eq_iff)

lemma fill_blk_length: "length (snd (fill_blk off bs d)) \<le> length bs"
  by (metis fill_blk_split length_append le_add2)

lemma fill_blk_shorter: "off < 256 \<Longrightarrow> bs \<noteq> [] \<Longrightarrow> length (snd (fill_blk off bs d)) < length bs"
  by (cases bs) (auto simp: le_imp_less_Suc fill_blk_length)

lemma fill_blk_full: "off \<ge> 256 \<Longrightarrow> fill_blk off bs d = (d, bs)"
  by (cases bs) auto

text \<open>
  The outer loop of a write: fill the block, note the number of bytes (\<open>count\<close>), allocate the next
  block and prepare it (\<open>init\<close>). The block structures are 260 bytes long.
\<close>

function blk_write_loop ::
    "'h kmalloc_fn \<Rightarrow> (u32 \<Rightarrow> 'h fs_st \<Rightarrow> 'h fs_st) \<Rightarrow> (data_t \<Rightarrow> data_t)
     \<Rightarrow> u32 \<Rightarrow> nat \<Rightarrow> u8 list \<Rightarrow> u32 \<Rightarrow> 'h fs_st \<Rightarrow> (int \<times> 'h fs_st) option" where
  "blk_write_loop km count init p off buf written s =
     (if buf = [] then Some (sint written, s)
      else if p = 0 then None
      else
        let (d, rest) = fill_blk off buf (blk (blks s p));
            k = of_nat (length buf - length rest);
            written = written + k;
            s = count k (set_blk p (\<lambda>b. b\<lparr>blk := d\<rparr>) s);
            (q, s) = fs_kmalloc km 260 s;
            s = set_blk p (\<lambda>b. b\<lparr>d_next := q\<rparr>) s in
        if q = 0 then Some (if written = 0 then -1 else sint written, s)
        else blk_write_loop km count init q 0 rest written (set_blk q (\<lambda>b. (init b)\<lparr>d_next := 0\<rparr>) s))"
  by pat_completeness auto
termination
proof (relation "measures [\<lambda>(km, count, init, p, off, buf, written, s). length buf,
                           \<lambda>(km, count, init, p, off, buf, written, s). of_bool (off \<ge> 256)]", goal_cases)
  case (2 km count init p off buf written s x d rest k w s1 y q s2 s3)
  have rest: "rest = snd (fill_blk off buf (blk (blks s p)))" using 2(3,4) by (metis snd_conv)
  show ?case
  proof (cases "off < 256")
    case True
    then have "length rest < length buf" unfolding rest using 2(1) by (rule fill_blk_shorter)
    then show ?thesis by simp
  next
    case False
    then show ?thesis using 2(1) by (simp add: rest fill_blk_full)
  qed
qed simp

declare blk_write_loop.simps [simp del]

text \<open>
  The loop of a read that consumes: every byte is noted with \<open>tk\<close>; a block whose last byte was
  read is freed, which \<open>dr\<close> notes.
\<close>

function blk_drain_loop ::
    "'h kfree_fn \<Rightarrow> ('h fs_st \<Rightarrow> 'h fs_st) \<Rightarrow> ('h fs_st \<Rightarrow> 'h fs_st)
     \<Rightarrow> nat \<Rightarrow> nat \<Rightarrow> u32 \<Rightarrow> 'h fs_st \<Rightarrow> (u8 list \<times> 'h fs_st) option" where
  "blk_drain_loop kf tk dr n off p s =
     (if off < 256 then
        if n = 0 then Some ([], s)
        else if p = 0 then None
        else map_option (\<lambda>(bs, s'). (blk (blks s p) off # bs, s')) (blk_drain_loop kf tk dr (n - 1) (off + 1) p (tk s))
      else if p = 0 then None
      else
        let temp = d_next (blks s p);
            s = dr (fs_kfree kf p s) in
        if n = 0 then Some ([], s) else blk_drain_loop kf tk dr n 0 temp s)"
  by pat_completeness auto
termination
  by (relation "measures [\<lambda>(kf, tk, dr, n, off, p, s). n, \<lambda>(kf, tk, dr, n, off, p, s). of_bool (off \<ge> 256)]") auto

declare blk_drain_loop.simps [simp del]

section \<open>Reading\<close>

lemma blk_read_loop_split:
  "p \<noteq> 0 \<Longrightarrow> off + m \<le> 256 \<Longrightarrow>
   blk_read_loop bl (m + n) off p
     = map_option ((@) (map (\<lambda>i. blk (bl p) (off + i)) [0..<m])) (blk_read_loop bl n (off + m) p)"
proof (induction m arbitrary: off)
  case (Suc m)
  have "map (\<lambda>i. blk (bl p) (off + i)) [0..<Suc m]
      = blk (bl p) off # map (\<lambda>i. blk (bl p) (Suc off + i)) [0..<m]"
    by (rule nth_equalityI) (auto simp: nth_Cons' simp del: upt_Suc)
  then show ?case using Suc.IH [of "Suc off"] Suc.prems
    by (cases "blk_read_loop bl n (Suc (off + m)) p") simp_all
next
  case 0
  then show ?case by (cases "blk_read_loop bl n off p") simp_all
qed

lemma blk_read_loop_next: "p \<noteq> 0 \<Longrightarrow> blk_read_loop bl n 256 p = blk_read_loop bl n 0 (d_next (bl p))"
  by (cases n) simp_all

lemma blk_read_loop_within:
  assumes "p \<noteq> 0" "off + length xs \<le> 256" "\<forall>i<length xs. blk (bl p) (off + i) = xs ! i"
  shows "blk_read_loop bl (length xs) off p = Some xs"
proof -
  have "map (\<lambda>i. blk (bl p) (off + i)) [0..<length xs] = xs" using assms(3) by (intro nth_equalityI) simp_all
  then show ?thesis using blk_read_loop_split [OF assms(1,2), of bl 0] by simp
qed

lemma blk_read_loop_block:
  assumes "p \<noteq> 0" "off + length xs = 256" "\<forall>i<length xs. blk (bl p) (off + i) = xs ! i"
    and "blk_read_loop bl n 0 (d_next (bl p)) = Some ys"
  shows "blk_read_loop bl (length xs + n) off p = Some (xs @ ys)"
proof -
  have "map (\<lambda>i. blk (bl p) (off + i)) [0..<length xs] = xs" using assms(3) by (intro nth_equalityI) simp_all
  then show ?thesis
    using blk_read_loop_split [OF assms(1), of off "length xs" bl n] blk_read_loop_next [OF assms(1), of bl n]
      assms(2,4) by simp
qed

lemma blk_read_loop_prefix:
  "blk_read_loop bl n off p = Some ys \<Longrightarrow> m \<le> n \<Longrightarrow> blk_read_loop bl m off p = Some (take m ys)"
proof (induction bl n off p arbitrary: m ys rule: blk_read_loop.induct)
  case (2 bl n off p)
  show ?case
  proof (cases m)
    case (Suc k)
    show ?thesis
    proof (cases "off < 256")
      case True
      then obtain zs where "blk_read_loop bl n (off + 1) p = Some zs" "ys = blk (bl p) off # zs" "p \<noteq> 0"
        using 2(3) by (auto split: if_splits)
      then show ?thesis using 2(1) [of zs k] 2(4) Suc True by simp
    next
      case False
      then show ?thesis using 2(2) [of ys m] 2(3,4) Suc by (auto split: if_splits)
    qed
  qed simp
qed simp

lemma blk_read_loop_length: "blk_read_loop bl n off p = Some ys \<Longrightarrow> length ys = n"
  by (induction bl n off p arbitrary: ys rule: blk_read_loop.induct) (auto split: if_splits)

section \<open>Draining\<close>

text \<open>A read that consumes returns the same bytes as one that does not.\<close>

lemma blk_drain_loop_reads:
  assumes "\<And>s. blks (tk s) = blks s" "\<And>s. blks (dr s) = blks s"
    and "blk_read_loop (blks s) n off p = Some bs" "off \<le> 256" "p \<noteq> 0"
  shows "\<exists>s'. blk_drain_loop kf tk dr n off p s = Some (bs, s') \<and> blks s' = blks s"
  using assms
proof (induction kf tk dr n off p s arbitrary: bs rule: blk_drain_loop.induct)
  case (1 kf tk dr n off p s)
  note prems = 1(3-7)
  show ?case
  proof (cases "off < 256")
    case True
    show ?thesis
    proof (cases n)
      case 0
      then show ?thesis using True prems(3) by (subst blk_drain_loop.simps) simp
    next
      case (Suc m)
      obtain cs where cs: "blk_read_loop (blks s) m (off + 1) p = Some cs" "bs = blk (blks s p) off # cs"
        using prems(3,5) True Suc by auto
      obtain s' where "blk_drain_loop kf tk dr m (off + 1) p (tk s) = Some (cs, s')" "blks s' = blks s"
        using 1(1) [of cs] True Suc prems cs by auto
      then show ?thesis using True Suc prems(5) cs by (subst blk_drain_loop.simps) simp
    qed
  next
    case False
    then have off: "off = 256" using prems(4) by simp
    have bl: "blks (dr (fs_kfree kf p s)) = blks s" by (simp add: prems(2) fs_kfree_def)
    show ?thesis
    proof (cases "n = 0")
      case True
      then show ?thesis using off prems(3,5) bl by (subst blk_drain_loop.simps) simp
    next
      case n: False
      have rd: "blk_read_loop (blks s) n 0 (d_next (blks s p)) = Some bs"
        using prems(3,5) off n by (cases n) auto
      then have "d_next (blks s p) \<noteq> 0" using n by (cases n) auto
      then show ?thesis
        using 1(2) [OF False prems(5) refl refl n prems(1,2)] rd bl n off prems(5)
        by (subst blk_drain_loop.simps) simp
    qed
  qed
qed

text \<open>What the bookkeeping adds up to, for a counter and for what it keeps.\<close>

lemma blk_drain_loop_count:
  fixes f :: "'h fs_st \<Rightarrow> u32"
  assumes "\<And>s. f (tk s) = f s + c" "\<And>p s. f (dr (fs_kfree kf p s)) = f s"
    and "blk_drain_loop kf tk dr n off p s = Some (bs, s')"
  shows "f s' = f s + of_nat n * c"
  using assms
proof (induction kf tk dr n off p s arbitrary: bs rule: blk_drain_loop.induct)
  case (1 kf tk dr n off p s)
  note run = 1(5) [unfolded blk_drain_loop.simps [of kf tk dr n off p s]]
  show ?case
  proof (cases "off < 256 \<and> n \<noteq> 0")
    case True
    then obtain cs where "blk_drain_loop kf tk dr (n - 1) (off + 1) p (tk s) = Some (cs, s')" "p \<noteq> 0"
      using run by (auto split: if_splits)
    then have "f s' = f (tk s) + of_nat (n - 1) * c" using 1(1) [of cs] True 1(3,4) by simp
    then show ?thesis using True 1(3) by (cases n) (simp_all add: algebra_simps)
  next
    case False
    then show ?thesis
      using run 1(2) [of _ _ bs] 1(3,4) by (auto simp: Let_def split: if_splits)
  qed
qed

text \<open>Reading to the end of a block frees it.\<close>

lemma blk_drain_loop_block:
  assumes "\<And>s. blks (tk s) = blks s" "p \<noteq> 0"
  shows "off + n = 256 \<Longrightarrow> blk_drain_loop kf tk dr n off p s
     = Some (map (blk (blks s p)) [off..<256], dr (fs_kfree kf p ((tk ^^ n) s)))"
proof (induction n arbitrary: off s)
  case 0
  then show ?case by (subst blk_drain_loop.simps) (simp add: assms(2))
next
  case (Suc n)
  have "[off..<256] = off # [Suc off..<256]" using Suc.prems by (intro upt_conv_Cons) simp
  then show ?case
    using Suc.IH [of "Suc off" "tk s"] Suc.prems assms
    by (subst blk_drain_loop.simps) (simp add: funpow_swap1)
qed

section \<open>Writing\<close>

lemmas fs_upds = set_errno_def set_vnode_def set_file_def set_blk_def fs_kfree_def

text \<open>\<open>p\<close> is the address of a block in use.\<close>

definition owns :: "('h \<Rightarrow> (nat \<times> nat) set) \<Rightarrow> 'h fs_st \<Rightarrow> u32 \<Rightarrow> bool" where
  "owns used s p \<longleftrightarrow> p \<noteq> 0 \<and> (\<exists>k. (unat p, k) \<in> used (hs s))"

text \<open>A client of the allocator: addresses it was given stay its own.\<close>

locale fs_allocator = allocator km kf used inv
  for km :: "'h \<Rightarrow> u32 \<Rightarrow> u32 \<times> 'h" and kf :: "'h \<Rightarrow> u32 \<Rightarrow> 'h"
    and used :: "'h \<Rightarrow> (nat \<times> nat) set" and inv :: "'h \<Rightarrow> bool"
begin

lemma fs_kmalloc_cases:
  assumes "inv (hs s)" "0 < n" "n < 1073741800" "fs_kmalloc km (of_nat n) s = (q, s')"
  shows "s' = s\<lparr>hs := hs s', errno := errno s'\<rparr>" "inv (hs s')"
    "(unat p, m) \<in> used (hs s) \<Longrightarrow> (unat p, m) \<in> used (hs s')"
    "q = 0 \<Longrightarrow> errno s' = Some ENOMEM"
    "q \<noteq> 0 \<Longrightarrow> errno s' = errno s \<and> (\<exists>k \<ge> n. (unat q, k) \<in> used (hs s')) \<and> (\<forall>k. (unat q, k) \<notin> used (hs s))"
proof -
  obtain h where h: "km (hs s) (of_nat n) = (q, h)" "s' = s\<lparr>hs := h, errno := (if q = 0 then Some ENOMEM else errno s)\<rparr>"
    using assms(4) by (auto simp: fs_kmalloc_def split: prod.splits)
  show "s' = s\<lparr>hs := hs s', errno := errno s'\<rparr>" using h(2) by simp
  show "inv (hs s')" using alloc_inv [OF assms(1-3)] h by simp
  show "(unat p, m) \<in> used (hs s) \<Longrightarrow> (unat p, m) \<in> used (hs s')" using alloc_keeps [OF assms(1-3)] h by simp
  show "q = 0 \<Longrightarrow> errno s' = Some ENOMEM" using h(2) by simp
  show "errno s' = errno s \<and> (\<exists>k \<ge> n. (unat q, k) \<in> used (hs s')) \<and> (\<forall>k. (unat q, k) \<notin> used (hs s))" if "q \<noteq> 0"
    using alloc_block [OF assms(1-3) _ that] alloc_fresh [OF assms(1-3) _ that] h that by auto
qed

end

text \<open>\<open>s'\<close> is \<open>s\<close> but for the blocks, the allocator and \<open>errno\<close>.\<close>

definition only_blocks :: "'h fs_st \<Rightarrow> 'h fs_st \<Rightarrow> bool" where
  "only_blocks s s' \<longleftrightarrow> s' = s\<lparr>blks := blks s', hs := hs s', errno := errno s'\<rparr>"

text \<open>The bookkeeping of a write adds up and neither sees nor touches the blocks.\<close>

locale block_writer = fs_allocator km kf used inv
  for km :: "'h \<Rightarrow> u32 \<Rightarrow> u32 \<times> 'h" and kf :: "'h \<Rightarrow> u32 \<Rightarrow> 'h"
    and used :: "'h \<Rightarrow> (nat \<times> nat) set" and inv :: "'h \<Rightarrow> bool" +
  fixes count :: "u32 \<Rightarrow> 'h fs_st \<Rightarrow> 'h fs_st"
  assumes count_0: "count 0 s = s"
    and count_add: "count b (count a s) = count (a + b) s"
    and count_upd: "count k (s\<lparr>blks := bl, hs := h, errno := e\<rparr>) = (count k s)\<lparr>blks := bl, hs := h, errno := e\<rparr>"
begin

lemma count_keeps: "(count k s)\<lparr>blks := blks s, hs := hs s, errno := errno s\<rparr> = count k s"
  using count_upd [of k "errno s" "hs s" "blks s" s] by simp

lemma count_simps: "hs (count k s) = hs s" "errno (count k s) = errno s" "blks (count k s) = blks s"
  by (subst count_keeps [symmetric], simp)+

lemma count_only_blks: "count k (s\<lparr>blks := bl\<rparr>) = (count k s)\<lparr>blks := bl\<rparr>"
proof -
  have "count k (s\<lparr>blks := bl\<rparr>) = (count k s)\<lparr>blks := bl, hs := hs s, errno := errno s\<rparr>"
    using count_upd [of k "errno s" "hs s" bl s] by simp
  also have "\<dots> = ((count k s)\<lparr>blks := blks s, hs := hs s, errno := errno s\<rparr>)\<lparr>blks := bl\<rparr>" by simp
  finally show ?thesis unfolding count_keeps .
qed

lemma count_only_blocks:
  assumes "only_blocks (count a s) s1" "only_blocks (count b s1) s2"
  shows "only_blocks (count (a + b) s) s2"
proof -
  have "count b s1 = (count (a + b) s)\<lparr>blks := blks s1, hs := hs s1, errno := errno s1\<rparr>"
    using assms(1) count_upd [of b "errno s1" "hs s1" "blks s1" "count a s"]
    unfolding only_blocks_def count_add by metis
  then show ?thesis using assms(2) unfolding only_blocks_def by simp
qed

text \<open>
  One round of the write loop, seen from outside: the bytes that fit go into block \<open>p\<close>, whose
  successor becomes the fresh block \<open>q\<close>, or NULL if there is no memory.
\<close>

lemma blk_write_round:
  assumes "inv (hs s)" "owns used s p" "off < 256" "buf \<noteq> []"
  obtains xs rest q s1 where "buf = xs @ rest" "xs \<noteq> []" "off + length xs \<le> 256"
    "rest \<noteq> [] \<longrightarrow> off + length xs = 256"
    "blk_write_loop km count init p off buf w s
       = (if q = 0 then Some (if w + of_nat (length xs) = 0 then -1 else sint (w + of_nat (length xs)), s1)
          else blk_write_loop km count init q 0 rest (w + of_nat (length xs)) s1)"
    "inv (hs s1)" "\<forall>x. owns used s x \<longrightarrow> owns used s1 x" "q \<noteq> 0 \<longrightarrow> owns used s1 q \<and> \<not> owns used s q"
    "\<forall>x. owns used s x \<longrightarrow> x \<noteq> p \<longrightarrow> blks s1 x = blks s x" "d_next (blks s1 p) = q"
    "\<forall>i < length xs. blk (blks s1 p) (off + i) = xs ! i"
    "\<forall>i < off. blk (blks s1 p) i = blk (blks s p) i"
    "only_blocks (count (of_nat (length xs)) s) s1" "q = 0 \<longrightarrow> errno s1 = Some ENOMEM"
proof -
  obtain xs where xs: "buf = xs @ snd (fill_blk off buf (blk (blks s p)))"
      "fst (fill_blk off buf (blk (blks s p)))
         = (\<lambda>i. if off \<le> i \<and> i < off + length xs then xs ! (i - off) else blk (blks s p) i)"
      "off + length xs \<le> 256" "snd (fill_blk off buf (blk (blks s p))) \<noteq> [] \<Longrightarrow> off + length xs = 256"
    using fill_blk_split [of buf off "blk (blks s p)"] assms(3) by fastforce
  define d rest where "d = fst (fill_blk off buf (blk (blks s p)))"
    and "rest = snd (fill_blk off buf (blk (blks s p)))"
  have fb: "fill_blk off buf (blk (blks s p)) = (d, rest)" by (simp add: d_def rest_def)
  have xsne: "xs \<noteq> []" using fill_blk_shorter [OF assms(3,4)] xs(1) by (metis append_Nil less_irrefl)
  have len: "length buf - length rest = length xs" using xs(1) by (metis add_diff_cancel_right' length_append rest_def)
  define k :: u32 where "k = of_nat (length xs)"
  define s2 where "s2 = count k (set_blk p (\<lambda>b. b\<lparr>blk := d\<rparr>) s)"
  have s2': "hs s2 = hs s" "errno s2 = errno s" "blks s2 = (blks s)(p := (blks s p)\<lparr>blk := d\<rparr>)"
    by (simp_all add: s2_def count_simps fs_upds)
  obtain q s3 where q: "fs_kmalloc km 260 s2 = (q, s3)" by force
  have inv2: "inv (hs s2)" using assms(1) by (simp add: s2')
  note km = fs_kmalloc_cases [OF inv2, of 260 q s3]
  have s3: "s3 = s2\<lparr>hs := hs s3, errno := errno s3\<rparr>" using km(1) q by simp
  define s4 where "s4 = set_blk p (\<lambda>b. b\<lparr>d_next := q\<rparr>) s3"
  define s1 where "s1 = (if q = 0 then s4
      else set_blk q (\<lambda>b. (init b)\<lparr>d_next := 0\<rparr>) s4)"
  have p: "p \<noteq> 0" using assms(2) by (simp add: owns_def)
  have keep: "owns used s x \<Longrightarrow> owns used s3 x" for x
    using km(3) q by (fastforce simp: owns_def s2')
  have fresh: "q \<noteq> 0 \<Longrightarrow> owns used s3 q \<and> \<not> owns used s q"
    using km(5) q by (auto simp: owns_def s2')
  then have qp: "q \<noteq> 0 \<Longrightarrow> q \<noteq> p" using assms(2) by auto
  have own4: "owns used s1 x = owns used s3 x" for x by (simp add: s1_def s4_def owns_def fs_upds)
  have loop: "blk_write_loop km count init p off buf w s
       = (if q = 0 then Some (if w + k = 0 then -1 else sint (w + k), s1)
          else blk_write_loop km count init q 0 rest (w + k) s1)"
    by (subst blk_write_loop.simps)
      (simp add: assms(4) p fb len k_def [symmetric] s2_def [symmetric] q s4_def [symmetric] s1_def)
  have blk3: "blks s3 = (blks s)(p := (blks s p)\<lparr>blk := d\<rparr>)" by (subst s3) (simp add: s2')
  show thesis
  proof (rule that [OF xs(1) [folded rest_def] xsne xs(3) _ loop [unfolded k_def]])
    show "rest \<noteq> [] \<longrightarrow> off + length xs = 256" using xs(4) rest_def by simp
    show "inv (hs s1)" using km(2) q by (simp add: s1_def s4_def fs_upds)
    show "\<forall>x. owns used s x \<longrightarrow> x \<noteq> p \<longrightarrow> blks s1 x = blks s x"
      using fresh by (auto simp: s1_def s4_def blk3 fs_upds)
    show "\<forall>i < length xs. blk (blks s1 p) (off + i) = xs ! i"
      using qp by (auto simp: s1_def s4_def blk3 fs_upds d_def xs(2))
    show "\<forall>i < off. blk (blks s1 p) i = blk (blks s p) i"
      using qp by (auto simp: s1_def s4_def blk3 fs_upds d_def xs(2))
    have "only_blocks s2 s1" unfolding s1_def s4_def by (subst (1 2) s3) (simp add: only_blocks_def fs_upds)
    then show "only_blocks (count (of_nat (length xs)) s) s1"
      unfolding s2_def set_blk_def k_def by (simp add: count_only_blks only_blocks_def)
  qed (use keep fresh own4 qp km(4) q in \<open>auto simp: s1_def s4_def fs_upds\<close>)
qed

text \<open>
  \<open>n\<close> bytes are written, all of them unless memory runs out. Reading on from where the write
  started gives them back, and no other block in use is touched.
\<close>

lemma blk_write_loop_stores:
  assumes "inv (hs s)" "owns used s p" "off < 256" "unat w + length buf < 2147483648"
    and "0 < w \<or> buf \<noteq> []"
  shows "\<exists>n s'. blk_write_loop km count init p off buf w s = Some (int (unat w + n), s')
     \<and> n \<le> length buf \<and> (buf \<noteq> [] \<longrightarrow> 0 < n) \<and> (n < length buf \<longrightarrow> errno s' = Some ENOMEM)
     \<and> blk_read_loop (blks s') n off p = Some (take n buf)
     \<and> inv (hs s') \<and> (\<forall>x. owns used s x \<longrightarrow> owns used s' x)
     \<and> (\<forall>x. owns used s x \<longrightarrow> x \<noteq> p \<longrightarrow> blks s' x = blks s x)
     \<and> (\<forall>i<off. blk (blks s' p) i = blk (blks s p) i)
     \<and> only_blocks (count (of_nat n) s) s'"
  using assms
proof (induction buf arbitrary: p off w s rule: length_induct)
  case (1 buf)
  note prems = 1(2-6)
  show ?case
  proof (cases "buf = []")
    case True
    have "sint w = int (unat w)"
      using prems(4) sint_of_nat_u32 [of "unat w"] by simp
    then show ?thesis using True prems by (subst blk_write_loop.simps) (simp add: only_blocks_def count_0)
  next
    case False
    obtain xs rest q s1 where r: "buf = xs @ rest" "xs \<noteq> []" "off + length xs \<le> 256"
      "rest \<noteq> [] \<longrightarrow> off + length xs = 256"
      "blk_write_loop km count init p off buf w s
         = (if q = 0 then Some (if w + of_nat (length xs) = 0 then -1 else sint (w + of_nat (length xs)), s1)
            else blk_write_loop km count init q 0 rest (w + of_nat (length xs)) s1)"
      "inv (hs s1)" "\<forall>x. owns used s x \<longrightarrow> owns used s1 x" "q \<noteq> 0 \<longrightarrow> owns used s1 q \<and> \<not> owns used s q"
      "\<forall>x. owns used s x \<longrightarrow> x \<noteq> p \<longrightarrow> blks s1 x = blks s x" "d_next (blks s1 p) = q"
      "\<forall>i < length xs. blk (blks s1 p) (off + i) = xs ! i"
      "\<forall>i < off. blk (blks s1 p) i = blk (blks s p) i"
      "only_blocks (count (of_nat (length xs)) s) s1" "q = 0 \<longrightarrow> errno s1 = Some ENOMEM"
      by (rule blk_write_round [OF prems(1-3) False, of init w]) (rule that)
    let ?w = "w + of_nat (length xs)"
    have uw: "unat ?w = unat w + length xs"
      using prems(4) r(1) by (intro unat_add_of_nat_u32) simp
    have w0: "0 < ?w" using uw r(2) by (metis add_is_0 length_0_conv unat_eq_zero word_gt_0)
    have p: "p \<noteq> 0" using prems(2) by (simp add: owns_def)
    show ?thesis
    proof (cases "q = 0")
      case True
      have "sint ?w = int (unat w + length xs)"
        using uw sint_of_nat_u32 [of "unat ?w"] prems(4) r(1) by simp
      moreover have "blk_read_loop (blks s1) (length xs) off p = Some xs"
        using r(11) by (intro blk_read_loop_within [OF p r(3)]) simp
      moreover have "take (length xs) buf = xs" "length xs \<le> length buf" using r(1) by simp_all
      moreover have "?w \<noteq> 0" using w0 by simp
      ultimately show ?thesis
        using True r(2,5-7,9,12-14) by (intro exI [of _ "length xs"] exI [of _ s1]) simp
    next
      case q: False
      have "length rest < length buf" "owns used s1 q" "unat ?w + length rest < 2147483648"
        using r(1,2,8) q uw prems(4) by simp_all
      then obtain n s' where n: "blk_write_loop km count init q 0 rest ?w s1 = Some (int (unat ?w + n), s')"
        "n \<le> length rest" "n < length rest \<longrightarrow> errno s' = Some ENOMEM"
        "blk_read_loop (blks s') n 0 q = Some (take n rest)" "inv (hs s')"
        "\<forall>x. owns used s1 x \<longrightarrow> owns used s' x" "\<forall>x. owns used s1 x \<longrightarrow> x \<noteq> q \<longrightarrow> blks s' x = blks s1 x"
        "only_blocks (count (of_nat n) s1) s'"
        using 1(1) [rule_format, of rest s1 q 0 ?w] r(6) w0 by (elim exE conjE meta_impE) (simp_all add: that)
      have bp: "blks s' p = blks s1 p" using n(7) r(7) prems(2) r(8) q by metis
      have "blk_read_loop (blks s') (length xs + n) off p = Some (xs @ take n rest)"
      proof (cases "rest = []")
        case True
        then show ?thesis using n(2) r(11) by (simp add: bp blk_read_loop_within [OF p r(3)])
      next
        case False
        then show ?thesis using r(4,10,11) n(4) by (intro blk_read_loop_block [OF p]) (simp_all add: bp)
      qed
      moreover have "blks s' x = blks s x" if "owns used s x" "x \<noteq> p" for x
        using that n(7) r(7-9) q by metis
      moreover have "only_blocks (count (of_nat (length xs + n)) s) s'"
        using count_only_blocks [OF r(13) n(8)] by simp
      ultimately show ?thesis
        using n r(1,2) q uw r(5,7,12) bp
        by (intro exI [of _ "length xs + n"] exI [of _ s']) (auto simp: add.assoc)
    qed
  qed
qed

end

end
