(* ===== verification/Ramfs.thy ===== *)
theory Ramfs
  imports Blocks
begin

text \<open>
  The RAM file system, \<^verbatim>\<open>kernel/src/fs/ramfs.c\<close>: a file is a chain of 256-byte blocks whose first
  one \<open>ramfs_nodes\<close> finds by inode number. The bookkeeping of its writes is a \<open>block_writer\<close>, so a
  read returns what a write stored; the position of a write is computed by different divisors,
  so that only the first 255 bytes of a file are where a read expects them.
\<close>

section \<open>Operations\<close>

text \<open>
  \<open>at\<close> is an \<open>off_t\<close> and signed; \<open>start_node\<close> and \<open>offset\<close> are its quotient by 0xFF and its
  remainder by 0x100, both converted to \<open>size_t\<close>.
\<close>

definition start_node :: "u32 \<Rightarrow> nat" where
  "start_node at = unat (word_of_int (sint at sdiv 0xFF) :: u32)"

definition start_offset :: "u32 \<Rightarrow> nat" where
  "start_offset at = unat (word_of_int (sint at smod 0x100) :: u32)"

definition read_ramfs :: "nat \<Rightarrow> u32 \<Rightarrow> 'h fs_st \<Rightarrow> (int \<times> u8 list \<times> 'h fs_st) option" where
  "read_ramfs fd sz s =
     (let node = vnodes s (vfs_node (files s fd));
          at = at_off (files s fd);
          readable = st_size (status node) - at;
          ino = unat (st_ino (status node)) in
      if ino \<ge> 1024 then None
      else do {
        curnode \<leftarrow> walk (blks s) (start_node at) (ramfs_nodes s ino);
        let sz = (if sz > readable then readable else sz);
        buf \<leftarrow> blk_read_loop (blks s) (unat sz) (start_offset at) curnode;
        Some (sint sz, buf, set_file fd (\<lambda>f. f\<lparr>at_off := at_off f + sz\<rparr>) s)
      })"

text \<open>\<open>node->status.st_size++; cur_task->files[fd].at++\<close>, for \<open>k\<close> bytes.\<close>

definition ramfs_count :: "nat \<Rightarrow> u32 \<Rightarrow> u32 \<Rightarrow> 'h fs_st \<Rightarrow> 'h fs_st" where
  "ramfs_count fd node k s = set_file fd (\<lambda>f. f\<lparr>at_off := at_off f + k\<rparr>) (set_vnode node (add_size k) s)"

definition zero_blk :: "data_t \<Rightarrow> data_t" where
  "zero_blk b = b\<lparr>blk := \<lambda>i. if i < 256 then 0 else blk b i\<rparr>"

definition write_ramfs :: "'h kmalloc_fn \<Rightarrow> nat \<Rightarrow> u8 list \<Rightarrow> 'h fs_st \<Rightarrow> (int \<times> 'h fs_st) option" where
  "write_ramfs km fd buf s =
     (let node = vfs_node (files s fd);
          at = at_off (files s fd);
          ino = unat (st_ino (status (vnodes s node))) in
      if ino \<ge> 1024 then None
      else do {
        curnode \<leftarrow> walk (blks s) (start_node at) (ramfs_nodes s ino);
        blk_write_loop km (ramfs_count fd node) zero_blk curnode (start_offset at) buf 0 s
      })"

definition creat_ramfs :: "'h kmalloc_fn \<Rightarrow> u32 \<Rightarrow> 'h fs_st \<Rightarrow> (int \<times> 'h fs_st) option" where
  "creat_ramfs km node s =
     (let s = set_vnode node (\<lambda>v. v\<lparr>v_read := Some RAMFS, v_write := Some RAMFS, v_open := None,
                                    v_close := None, v_lseek := None\<rparr>) s;
          ino = unat (st_ino (status (vnodes s node))) in
      if ino \<ge> 1024 then None
      else
        let (p, s) = fs_kmalloc km 260 s;
            s = s\<lparr>ramfs_nodes := (ramfs_nodes s)(ino := p)\<rparr> in
        if p = 0 then Some (-1, set_errno ENOSPC s)
        else Some (1, set_blk p zero_blk s))"

section \<open>What a write stores\<close>

lemma start_pos: "a < 255 \<Longrightarrow> start_node (of_nat a) = 0" "a < 256 \<Longrightarrow> start_offset (of_nat a) = a"
  by (simp_all add: start_node_def start_offset_def sint_of_nat_u32 signed_divide_int_def signed_modulo_int_def
      unat_of_nat_u32 sgn_if flip: of_nat_mod)

lemma ramfs_count_books:
  assumes "only_blocks (ramfs_count fd node k s) s'"
  shows "vnodes s' = (vnodes s)(node := add_size k (vnodes s node))"
    "files s' = (files s)(fd := (files s fd)\<lparr>at_off := at_off (files s fd) + k\<rparr>)"
    "ramfs_nodes s' = ramfs_nodes s" "vfs_root s' = vfs_root s"
  by (subst assms [unfolded only_blocks_def], simp add: ramfs_count_def set_file_def set_vnode_def)+

text \<open>A read returns the bytes behind the position, up to the size of the file.\<close>

lemma read_ramfs_gives:
  assumes "vfs_node (files s fd) = node" "st_ino (status (vnodes s node)) = of_nat ino" "ino < 1024"
    "a < 255" "at_off (files s fd) = of_nat a" "st_size (status (vnodes s node)) = of_nat (a + n)"
    "n < 2147483648" "m < 4294967296" "blk_read_loop (blks s) n a (ramfs_nodes s ino) = Some bs"
  shows "read_ramfs fd (of_nat m) s
     = Some (int (min m n), take m bs, set_file fd (\<lambda>f. f\<lparr>at_off := at_off f + of_nat (min m n)\<rparr>) s)"
proof -
  have un: "unat (st_ino (status (vnodes s node))) = ino" using assms(2,3) by (simp add: unat_of_nat_u32)
  have sz: "(of_nat n :: u32) < of_nat m \<longleftrightarrow> n < m" "unat (of_nat (min m n) :: u32) = min m n"
      "sint (of_nat (min m n) :: u32) = int (min m n)"
    using assms(7,8) by (auto simp: word_less_nat_alt unat_of_nat_u32 intro!: unat_of_nat_u32 sint_of_nat_u32)
  have "length bs = n" using assms(9) by (rule blk_read_loop_length)
  then have rd: "blk_read_loop (blks s) (min m n) a (ramfs_nodes s ino) = Some (take m bs)"
    using blk_read_loop_prefix [OF assms(9), of "min m n"] by (simp add: min_def)
  show ?thesis
    using un assms(1,3-6) sz rd unfolding read_ramfs_def Let_def
    by (cases "n < m") (simp_all add: start_pos min_def)
qed

locale ramfs_files = fs_allocator

sublocale ramfs_files \<subseteq> kw: block_writer km kf used inv "ramfs_count fd node"
  by unfold_locales (simp_all add: ramfs_count_def set_file_def set_vnode_def add_size_def add.assoc)

context ramfs_files
begin

text \<open>
  A write that starts in the first 255 bytes of a file stores its bytes behind that position and
  leaves those before it.
\<close>

lemma write_ramfs_stores:
  assumes "inv (hs s)" "owns used s (ramfs_nodes s ino)" "ino < 1024" "a < 255" "length buf < 2147483648"
    "vfs_node (files s fd) = node" "at_off (files s fd) = of_nat a" "buf \<noteq> []"
    "st_ino (status (vnodes s node)) = of_nat ino"
  shows "\<exists>n s'. write_ramfs km fd buf s = Some (int n, s') \<and> 0 < n \<and> n \<le> length buf
     \<and> (n < length buf \<longrightarrow> errno s' = Some ENOMEM)
     \<and> inv (hs s') \<and> (\<forall>x. owns used s x \<longrightarrow> owns used s' x)
     \<and> (\<forall>x. owns used s x \<longrightarrow> x \<noteq> ramfs_nodes s ino \<longrightarrow> blks s' x = blks s x)
     \<and> (\<forall>i<a. blk (blks s' (ramfs_nodes s ino)) i = blk (blks s (ramfs_nodes s ino)) i)
     \<and> blk_read_loop (blks s') n a (ramfs_nodes s ino) = Some (take n buf)
     \<and> only_blocks (ramfs_count fd node (of_nat n) s) s'"
proof -
  have "unat (st_ino (status (vnodes s node))) = ino" using assms(3,9) by (simp add: unat_of_nat_u32)
  then have "write_ramfs km fd buf s = blk_write_loop km (ramfs_count fd node) zero_blk (ramfs_nodes s ino) a buf 0 s"
    using assms(3,4,6,7) by (simp add: write_ramfs_def start_pos)
  then show ?thesis
    using kw.blk_write_loop_stores [OF assms(1,2), of a 0 buf fd node zero_blk] assms(4,5,8) by auto
qed

text \<open>A read from the same position returns as many of them as it asks for.\<close>

lemma write_ramfs_read_back:
  assumes "inv (hs s)" "owns used s (ramfs_nodes s ino)" "ino < 1024" "a < 255" "length buf < 2147483648"
    "vfs_node (files s fd) = node" "at_off (files s fd) = of_nat a" "buf \<noteq> []"
    "st_ino (status (vnodes s node)) = of_nat ino" "st_size (status (vnodes s node)) = of_nat a"
  shows "\<exists>n s'. write_ramfs km fd buf s = Some (int n, s') \<and> 0 < n \<and> n \<le> length buf
     \<and> (n < length buf \<longrightarrow> errno s' = Some ENOMEM)
     \<and> st_size (status (vnodes s' node)) = of_nat (a + n) \<and> at_off (files s' fd) = of_nat (a + n)
     \<and> (\<forall>i<a. blk (blks s' (ramfs_nodes s' ino)) i = blk (blks s (ramfs_nodes s ino)) i)
     \<and> (\<forall>m < 4294967296. \<exists>s''. read_ramfs fd (of_nat m) (set_file fd (\<lambda>f. f\<lparr>at_off := of_nat a\<rparr>) s')
          = Some (int (min m n), take m (take n buf), s''))"
proof -
  obtain n s' where n: "write_ramfs km fd buf s = Some (int n, s')" "0 < n" "n \<le> length buf"
      "n < length buf \<longrightarrow> errno s' = Some ENOMEM"
      "\<forall>i<a. blk (blks s' (ramfs_nodes s ino)) i = blk (blks s (ramfs_nodes s ino)) i"
      "blk_read_loop (blks s') n a (ramfs_nodes s ino) = Some (take n buf)"
      "only_blocks (ramfs_count fd node (of_nat n) s) s'"
    using write_ramfs_stores [OF assms(1-9)] by auto
  note books = ramfs_count_books [OF n(7)]
  let ?s = "set_file fd (\<lambda>f. f\<lparr>at_off := of_nat a\<rparr>) s'"
  have "\<exists>s''. read_ramfs fd (of_nat m) ?s = Some (int (min m n), take m (take n buf), s'')"
    if "m < 4294967296" for m
  proof -
    have "blk_read_loop (blks ?s) n a (ramfs_nodes ?s ino) = Some (take n buf)"
      using n(6) by (simp add: set_file_def books)
    then show ?thesis
      using read_ramfs_gives [of ?s fd node ino a n m "take n buf"] that n(3) assms
      by (simp add: set_file_def books add_size_def)
  qed
  then show ?thesis
    using n assms(7,10) by (intro exI [of _ n] exI [of _ s']) (simp add: books add_size_def)
qed

text \<open>
  Byte 255 of a file belongs to its first block; a write at that position goes to the second one.
\<close>

lemma write_at_255:
  assumes "inv (hs s)" "owns used s (ramfs_nodes s ino)" "ino < 1024"
    "d_next (blks s (ramfs_nodes s ino)) = q" "owns used s q" "q \<noteq> ramfs_nodes s ino"
    "files s fd = \<lparr>vfs_node = node, at_off = 255, oflag = fl\<rparr>"
    "st_ino (status (vnodes s node)) = of_nat ino"
  shows "\<exists>s'. write_ramfs km fd [b] s = Some (1, s') \<and> ramfs_nodes s' = ramfs_nodes s
     \<and> blk (blks s' q) 255 = b \<and> blks s' (ramfs_nodes s ino) = blks s (ramfs_nodes s ino)"
proof -
  have un: "unat (st_ino (status (vnodes s node))) = ino" using assms(3,8) by (simp add: unat_of_nat_u32)
  obtain n s' where n: "blk_write_loop km (ramfs_count fd node) zero_blk q 255 [b] 0 s = Some (int n, s')"
      "n = 1" "blk_read_loop (blks s') n 255 q = Some (take n [b])"
      "\<forall>x. owns used s x \<longrightarrow> x \<noteq> q \<longrightarrow> blks s' x = blks s x"
      "only_blocks (ramfs_count fd node (of_nat n) s) s'"
    using kw.blk_write_loop_stores [OF assms(1,5), of 255 0 "[b]" fd node zero_blk]
    by (auto simp: le_Suc_eq)
  have "start_node 255 = 1" "start_offset 255 = 255"
    using start_pos(2) [of 255] by (simp_all add: start_node_def signed_divide_int_def)
  moreover have "ramfs_nodes s ino \<noteq> 0" using assms(2) by (simp add: owns_def)
  ultimately have "write_ramfs km fd [b] s = Some (1, s')"
    using n(1,2) un assms(3,4,7) by (simp add: write_ramfs_def)
  moreover have "blk (blks s' q) 255 = b" using n(2,3) by (auto split: if_splits)
  ultimately show ?thesis using n(4) ramfs_count_books(3) [OF n(5)] assms(2,6) by auto
qed

end

end
