(* ===== verification/Pipe.thy ===== *)
theory Pipe
  imports Blocks
begin

text \<open>
  Pipes, \<^verbatim>\<open>kernel/src/fs/pipe.c\<close>: a header found by inode number in \<open>pipes\<close>, a chain of 256-byte
  blocks, and two descriptors on one node of the list of files. \<open>sched\<close> is what \<open>sched_switch\<close> does
  to the state before the waiting task runs again: the steps of all the other tasks.
\<close>

section \<open>Operations\<close>

definition set_phdr :: "u32 \<Rightarrow> (pipe_hdr_t \<Rightarrow> pipe_hdr_t) \<Rightarrow> 'h fs_st \<Rightarrow> 'h fs_st" where
  "set_phdr h f s = s\<lparr>phdrs := (phdrs s)(h := f (phdrs s h))\<rparr>"

text \<open>The loop that waits for data; \<open>Some r\<close> is a return of \<open>r\<close> from inside it.\<close>

partial_function (option) pipe_wait ::
    "('h fs_st \<Rightarrow> 'h fs_st) \<Rightarrow> nat \<Rightarrow> u32 \<Rightarrow> u32 \<Rightarrow> 'h fs_st \<Rightarrow> (int option \<times> 'h fs_st) option" where
  "pipe_wait sched fd node hdr s =
     (if st_size (status (vnodes s node)) \<noteq> 0 then Some (None, s)
      else if writers (phdrs s hdr) = 0 then Some (Some 0, s)
      else if oflag (files s fd) AND O_NONBLOCK \<noteq> 0 then Some (Some (-1), set_errno EAGAIN s)
      else pipe_wait sched fd node hdr (sched s))"

definition pipe_take :: "u32 \<Rightarrow> u32 \<Rightarrow> 'h fs_st \<Rightarrow> 'h fs_st" where
  "pipe_take node hdr s = set_vnode node (add_size (-1)) (set_phdr hdr (\<lambda>h. h\<lparr>read_at := read_at h + 1\<rparr>) s)"

definition pipe_drop :: "u32 \<Rightarrow> 'h fs_st \<Rightarrow> 'h fs_st" where
  "pipe_drop hdr s = set_phdr hdr (\<lambda>h. h\<lparr>write_at := write_at h - 256\<rparr>) s"

definition read_pipe ::
    "('h fs_st \<Rightarrow> 'h fs_st) \<Rightarrow> 'h kfree_fn \<Rightarrow> nat \<Rightarrow> u32 \<Rightarrow> 'h fs_st \<Rightarrow> (int \<times> u8 list \<times> 'h fs_st) option" where
  "read_pipe sched kf fd sz s =
     (let node = vfs_node (files s fd);
          ino = unat (st_ino (status (vnodes s node)));
          hdr = pipes s ino;
          curnode = p_data (phdrs s hdr) in
      if ino \<ge> 1024 \<or> hdr = 0 then None
      else do {
        (ret, s) \<leftarrow> pipe_wait sched fd node hdr s;
        case ret of Some r \<Rightarrow> Some (r, [], s)
        | None \<Rightarrow> do {
            let offset = unat (read_at (phdrs s hdr) mod 0x100);
            let avail = st_size (status (vnodes s node));
            let sz = (if sz > avail then avail else sz);
            (buf, s) \<leftarrow> blk_drain_loop kf (pipe_take node hdr) (pipe_drop hdr) (unat sz) offset curnode s;
            Some (sint sz, buf, s)
          }
      })"

definition pipe_count :: "u32 \<Rightarrow> u32 \<Rightarrow> u32 \<Rightarrow> 'h fs_st \<Rightarrow> 'h fs_st" where
  "pipe_count node hdr k s = set_phdr hdr (\<lambda>h. h\<lparr>write_at := write_at h + k\<rparr>) (set_vnode node (add_size k) s)"

definition write_pipe :: "'h kmalloc_fn \<Rightarrow> nat \<Rightarrow> u8 list \<Rightarrow> 'h fs_st \<Rightarrow> (int \<times> 'h fs_st) option" where
  "write_pipe km fd buf s =
     (let node = vfs_node (files s fd);
          ino = unat (st_ino (status (vnodes s node)));
          hdr = pipes s ino in
      if ino \<ge> 1024 \<or> hdr = 0 then None
      else if readers (phdrs s hdr) = 0 then Some (-1, set_errno EPIPE s)
      else do {
        let at = write_at (phdrs s hdr);
        curnode \<leftarrow> walk (blks s) (unat (at div 0xFF)) (p_data (phdrs s hdr));
        blk_write_loop km (pipe_count node hdr) id curnode (unat (at mod 0x100)) buf 0 s
      })"

text \<open>\<open>while (ptr != NULL)\<close>: free every block of the pipe.\<close>

partial_function (option) free_chain :: "'h kfree_fn \<Rightarrow> u32 \<Rightarrow> 'h fs_st \<Rightarrow> 'h fs_st option" where
  "free_chain kf p s =
     (if p \<noteq> 0 then free_chain kf (d_next (blks s p)) (fs_kfree kf p s) else Some s)"

definition close_pipe :: "'h kfree_fn \<Rightarrow> nat \<Rightarrow> 'h fs_st \<Rightarrow> (int \<times> 'h fs_st) option" where
  "close_pipe kf fd s =
     (let ino = unat (st_ino (status (vnodes s (vfs_node (files s fd)))));
          hdr = pipes s ino in
      if ino \<ge> 1024 \<or> hdr = 0 then None
      else
        let s = (if oflag (files s fd) AND O_RDONLY \<noteq> 0
                 then set_phdr hdr (\<lambda>h. h\<lparr>readers := readers h - 1\<rparr>) s
                 else set_phdr hdr (\<lambda>h. h\<lparr>writers := writers h - 1\<rparr>) s) in
        if readers (phdrs s hdr) = 0 \<and> writers (phdrs s hdr) = 0 then do {
          s \<leftarrow> free_chain kf (p_data (phdrs s hdr)) s;
          let s = fs_kfree kf hdr s;
          Some (0, s\<lparr>pipes := (pipes s)(ino := 0)\<rparr>)
        }
        else Some (0, s))"

text \<open>\<open>kfree(node_backup->next); node_backup->next = NULL;\<close>\<close>

definition pipe_undo :: "'h kfree_fn \<Rightarrow> u32 \<Rightarrow> 'h fs_st \<Rightarrow> 'h fs_st option" where
  "pipe_undo kf backup s =
     (if backup = 0 then None
      else Some (set_vnode backup (\<lambda>v. v\<lparr>v_next := 0\<rparr>) (fs_kfree kf (v_next (vnodes s backup)) s)))"

definition pipe_node :: "u32 \<Rightarrow> vfs_node_t \<Rightarrow> vfs_node_t" where
  "pipe_node ino v = v\<lparr>status := (status v)\<lparr>st_mode := 0, st_uid := 0, st_gid := 0, st_size := 0,
       st_dev := DEVID_PIPE, st_rdev := DEVID_PIPE, st_ino := ino\<rparr>,
     v_next := 0, v_name := (v_name v)(0 := 0), v_close := Some PIPE, v_read := Some PIPE, v_write := Some PIPE,
     v_creat := None, v_open := None, v_lseek := None\<rparr>"

text \<open>The header and the first block; \<open>sizeof (struct pipe_hdr_t)\<close> is 20.\<close>

definition creat_pipe_data ::
    "'h kmalloc_fn \<Rightarrow> 'h kfree_fn \<Rightarrow> u32 \<Rightarrow> nat \<Rightarrow> 'h fs_st \<Rightarrow> (int \<times> 'h fs_st) option" where
  "creat_pipe_data km kf backup ino s =
     (let (hdr, s) = fs_kmalloc km 20 s;
          s = s\<lparr>pipes := (pipes s)(ino := hdr)\<rparr> in
      if hdr = 0 then do { s \<leftarrow> pipe_undo kf backup s; Some (-1, s) }
      else
        let s = set_phdr hdr (\<lambda>h. h\<lparr>write_at := 0, read_at := 0, writers := 2, readers := 2\<rparr>) s;
            (d, s) = fs_kmalloc km 260 s;
            s = set_phdr hdr (\<lambda>h. h\<lparr>p_data := d\<rparr>) s in
        if d = 0 then do {
          let s = fs_kfree kf hdr s;
          s \<leftarrow> pipe_undo kf backup (s\<lparr>pipes := (pipes s)(ino := 0)\<rparr>);
          Some (-1, s)
        }
        else Some (0, s))"

definition creat_pipe ::
    "'h kmalloc_fn \<Rightarrow> 'h kfree_fn \<Rightarrow> int \<times> int \<Rightarrow> 'h fs_st \<Rightarrow> (int \<times> (int \<times> int) \<times> 'h fs_st) option" where
  "creat_pipe km kf fd s =
     (if pipe_inodes s > 1023 then Some (-1, fd, set_errno ENFILE s)
      else do {
        (node, backup, s) \<leftarrow> append_vnode km s;
        if node = 0 then Some (-1, fd, s)
        else do {
          let ino = pipe_inodes s;
          let s = set_vnode node (pipe_node ino) (s\<lparr>pipe_inodes := ino + 1\<rparr>);
          fd0 \<leftarrow> get_free_fd 3 s;
          if fd0 < 0 then do { s \<leftarrow> pipe_undo kf backup s; Some (-1, (fd0, snd fd), set_errno EMFILE s) }
          else do {
            let s = set_file (nat fd0) (\<lambda>_. \<lparr>vfs_node = node, at_off = 0, oflag = O_RDONLY\<rparr>) s;
            fd1 \<leftarrow> get_free_fd 3 s;
            if fd1 < 0 then do { s \<leftarrow> pipe_undo kf backup s; Some (-1, (fd0, fd1), set_errno EMFILE s) }
            else do {
              let s = set_file (nat fd1) (\<lambda>_. \<lparr>vfs_node = node, at_off = 0, oflag = O_WRONLY\<rparr>) s;
              (r, s) \<leftarrow> creat_pipe_data km kf backup (unat ino) s;
              Some (r, (fd0, fd1), s)
            }
          }
        }
      })"

section \<open>First in, first out\<close>

lemma funpow_keeps:
  assumes "\<And>s. f (g s) = f s"
  shows "f ((g ^^ n) s) = f s"
  by (induction n) (simp_all add: assms)

lemmas pipe_upds = set_phdr_def set_vnode_def add_size_def fs_kfree_def

lemma pipe_count_books:
  assumes "only_blocks (pipe_count node hdr k s) s'"
  shows "vnodes s' = (vnodes s)(node := add_size k (vnodes s node))"
    "phdrs s' = (phdrs s)(hdr := (phdrs s hdr)\<lparr>write_at := write_at (phdrs s hdr) + k\<rparr>)"
    "files s' = files s" "pipes s' = pipes s"
  by (subst assms [unfolded only_blocks_def], simp add: pipe_count_def set_phdr_def set_vnode_def)+

text \<open>A read of a pipe that is not empty returns the bytes at the front of the chain.\<close>

lemma read_pipe_nonempty:
  assumes "vfs_node (files s fd) = node" "st_ino (status (vnodes s node)) = of_nat ino" "ino < 1024"
    "pipes s ino = hdr" "hdr \<noteq> 0" "p_data (phdrs s hdr) = p" "p \<noteq> 0"
    "st_size (status (vnodes s node)) = of_nat n" "0 < n" "n < 2147483648" "m < 4294967296"
    "blk_read_loop (blks s) (min m n) (unat (read_at (phdrs s hdr) mod 0x100)) p = Some bs"
  shows "\<exists>s'. read_pipe sched kf fd (of_nat m) s = Some (int (min m n), bs, s')
     \<and> st_size (status (vnodes s' node)) = of_nat (n - min m n)
     \<and> read_at (phdrs s' hdr) = read_at (phdrs s hdr) + of_nat (min m n) \<and> p_data (phdrs s' hdr) = p"
proof -
  let ?off = "unat (read_at (phdrs s hdr) mod 0x100)"
  have un: "unat (st_ino (status (vnodes s node))) = ino" using assms(2,3) by (simp add: unat_of_nat_u32)
  have nz: "(of_nat n :: u32) \<noteq> 0" using assms(9,10) unat_of_nat_u32 [of n] by auto
  have wait: "pipe_wait sched fd node hdr s = Some (None, s)"
    using nz assms(8) by (subst pipe_wait.simps) simp
  have "?off < 256" by (simp add: unat_mod_distrib)
  then obtain s' where s': "blk_drain_loop kf (pipe_take node hdr) (pipe_drop hdr) (min m n) ?off p s = Some (bs, s')"
    using blk_drain_loop_reads [OF _ _ assms(12) _ assms(7), of "pipe_take node hdr" "pipe_drop hdr" kf]
    by (auto simp: pipe_take_def pipe_drop_def pipe_upds)
  have sz: "(of_nat n :: u32) < of_nat m \<longleftrightarrow> n < m" "unat (of_nat (min m n) :: u32) = min m n"
      "sint (of_nat (min m n) :: u32) = int (min m n)"
    using assms(10,11) by (auto simp: word_less_nat_alt unat_of_nat_u32 intro!: unat_of_nat_u32 sint_of_nat_u32)
  have "read_pipe sched kf fd (of_nat m) s = Some (int (min m n), bs, s')"
    using s' assms(1,3-6,8) un wait sz unfolding read_pipe_def Let_def
    by (cases "n < m") (simp_all add: min_def)
  moreover have "st_size (status (vnodes s' node)) = of_nat n + of_nat (min m n) * (-1)"
    using blk_drain_loop_count [OF _ _ s', of "\<lambda>s. st_size (status (vnodes s node))" "-1"] assms(8)
    by (simp add: pipe_take_def pipe_drop_def pipe_upds)
  moreover have "read_at (phdrs s' hdr) = read_at (phdrs s hdr) + of_nat (min m n)"
    using blk_drain_loop_count [OF _ _ s', of "\<lambda>s. read_at (phdrs s hdr)" 1]
    by (simp add: pipe_take_def pipe_drop_def pipe_upds)
  moreover have "p_data (phdrs s' hdr) = p"
    using blk_drain_loop_count [OF _ _ s', of "\<lambda>s. p_data (phdrs s hdr)" 0] assms(6)
    by (simp add: pipe_take_def pipe_drop_def pipe_upds)
  ultimately show ?thesis by (simp add: of_nat_diff)
qed

locale pipe_files = fs_allocator

sublocale pipe_files \<subseteq> pw: block_writer km kf used inv "pipe_count node hdr"
  by unfold_locales (simp_all add: pipe_count_def set_phdr_def set_vnode_def add_size_def add.assoc)

context pipe_files
begin

lemma write_pipe_read_pipe:
  assumes "inv (hs s)" "owns used s p" "buf \<noteq> []" "a < 255" "a + length buf < 2147483648"
    "vfs_node (files s wfd) = node" "vfs_node (files s rfd) = node"
    "st_ino (status (vnodes s node)) = of_nat ino" "ino < 1024" "st_size (status (vnodes s node)) = 0"
    "pipes s ino = hdr" "hdr \<noteq> 0" "p_data (phdrs s hdr) = p" "readers (phdrs s hdr) \<noteq> 0"
    "write_at (phdrs s hdr) = of_nat a" "read_at (phdrs s hdr) = of_nat a"
  shows "\<exists>n s'. write_pipe km wfd buf s = Some (int n, s') \<and> 0 < n \<and> n \<le> length buf
     \<and> (n < length buf \<longrightarrow> errno s' = Some ENOMEM)
     \<and> (\<forall>m < 4294967296. \<exists>s''. read_pipe sched kf rfd (of_nat m) s' = Some (int (min m n), take m (take n buf), s'')
          \<and> st_size (status (vnodes s'' node)) = of_nat (n - min m n))"
proof -
  have un: "unat (st_ino (status (vnodes s node))) = ino" using assms(8,9) by (simp add: unat_of_nat_u32)
  have ua: "unat (of_nat a :: u32) = a" using assms(4) by (simp add: unat_of_nat_u32)
  have pos: "unat ((of_nat a :: u32) div 0xFF) = 0" "unat ((of_nat a :: u32) mod 0x100) = a"
    using assms(4) ua by (simp_all add: unat_div_distrib unat_mod_distrib)
  obtain n s' where n: "blk_write_loop km (pipe_count node hdr) id p a buf 0 s = Some (int n, s')"
      "0 < n" "n \<le> length buf" "n < length buf \<longrightarrow> errno s' = Some ENOMEM"
      "blk_read_loop (blks s') n a p = Some (take n buf)" "only_blocks (pipe_count node hdr (of_nat n) s) s'"
    using pw.blk_write_loop_stores [OF assms(1,2), of a 0 buf node hdr id] assms(3,4,5) by auto
  note books = pipe_count_books [OF n(6)]
  have "write_pipe km wfd buf s = Some (int n, s')"
    using n(1) un pos assms(6,9,11-15) by (simp add: write_pipe_def)
  moreover have "\<exists>s''. read_pipe sched kf rfd (of_nat m) s' = Some (int (min m n), take m (take n buf), s'')
          \<and> st_size (status (vnodes s'' node)) = of_nat (n - min m n)" if "m < 4294967296" for m
  proof -
    have "blk_read_loop (blks s') (min m n) (unat (read_at (phdrs s' hdr) mod 0x100)) p = Some (take m (take n buf))"
      using blk_read_loop_prefix [OF n(5), of "min m n"] pos assms(16) by (simp add: books min.commute)
    then show ?thesis
      using read_pipe_nonempty [of s' rfd node ino hdr p n m "take m (take n buf)" sched kf] that n(2,3) assms
      by (auto simp: books add_size_def owns_def)
  qed
  ultimately show ?thesis using n by blast
qed

text \<open>Reading a whole block frees it, but the header keeps pointing at it.\<close>

lemma drained_head_dangles:
  assumes "inv (hs s)" "(unat p, k) \<in> used (hs s)" "p \<noteq> 0"
    "vfs_node (files s fd) = node" "st_ino (status (vnodes s node)) = of_nat ino" "ino < 1024"
    "pipes s ino = hdr" "hdr \<noteq> 0" "p_data (phdrs s hdr) = p" "read_at (phdrs s hdr) = 0"
    "st_size (status (vnodes s node)) = of_nat n" "256 \<le> n" "n < 2147483648"
  shows "\<exists>s'. read_pipe sched kf fd 256 s = Some (256, map (blk (blks s p)) [0..<256], s')
     \<and> p_data (phdrs s' hdr) = p \<and> (unat p, k) \<notin> used (hs s')"
proof -
  have un: "unat (st_ino (status (vnodes s node))) = ino" using assms(5,6) by (simp add: unat_of_nat_u32)
  have nz: "(of_nat n :: u32) \<noteq> 0" "unat (of_nat n :: u32) = n" using assms(12,13) unat_of_nat_u32 [of n] by auto
  have wait: "pipe_wait sched fd node hdr s = Some (None, s)"
    using nz assms(11) by (subst pipe_wait.simps) simp
  have sz: "\<not> (of_nat n :: u32) < 256" using nz(2) assms(12) by (simp add: word_less_nat_alt)
  define s1 where "s1 = (pipe_take node hdr ^^ 256) s"
  have s1: "hs s1 = hs s" "p_data (phdrs s1 hdr) = p_data (phdrs s hdr)" for m
    unfolding s1_def by (rule funpow_keeps, simp add: pipe_take_def pipe_upds)+
  have "read_pipe sched kf fd 256 s
      = Some (256, map (blk (blks s p)) [0..<256], pipe_drop hdr (fs_kfree kf p s1))"
    using assms(3-4,6-11) un wait sz
      blk_drain_loop_block [of "pipe_take node hdr" p 0 256 kf "pipe_drop hdr" s]
    unfolding read_pipe_def Let_def by (simp add: s1_def pipe_take_def pipe_upds)
  moreover have "used (kf (hs s) p) = used (hs s) - {(unat p, k)}" using assms(1,2) by (rule free_used)
  ultimately show ?thesis using s1 assms(9) by (simp add: pipe_drop_def pipe_upds)
qed

end

end
