(* ===== verification/Fifofs.thy ===== *)
theory Fifofs
  imports Blocks
begin

text \<open>
  FIFO files, \<^verbatim>\<open>kernel/src/fs/fifofs.c\<close>: the data handling of pipes behind a named node, plus the
  open and close operations that count readers and writers and make an open wait for the other
  end. \<open>sched\<close> is what happens between \<open>sched_switch\<close> and the next run of the waiting task.
\<close>

section \<open>Operations\<close>

definition set_fhdr :: "u32 \<Rightarrow> (fifofs_hdr_t \<Rightarrow> fifofs_hdr_t) \<Rightarrow> 'h fs_st \<Rightarrow> 'h fs_st" where
  "set_fhdr h f s = s\<lparr>fhdrs := (fhdrs s)(h := f (fhdrs s h))\<rparr>"

partial_function (option) fifo_wait_data ::
    "('h fs_st \<Rightarrow> 'h fs_st) \<Rightarrow> nat \<Rightarrow> u32 \<Rightarrow> u32 \<Rightarrow> 'h fs_st \<Rightarrow> (int option \<times> 'h fs_st) option" where
  "fifo_wait_data sched fd node hdr s =
     (if st_size (status (vnodes s node)) \<noteq> 0 then Some (None, s)
      else if f_writers (fhdrs s hdr) = 0 then Some (Some 0, s)
      else if oflag (files s fd) AND O_NONBLOCK \<noteq> 0 then Some (Some (-1), set_errno EAGAIN s)
      else fifo_wait_data sched fd node hdr (sched s))"

definition fifo_take :: "u32 \<Rightarrow> u32 \<Rightarrow> 'h fs_st \<Rightarrow> 'h fs_st" where
  "fifo_take node hdr s =
     set_vnode node (add_size (-1)) (set_fhdr hdr (\<lambda>h. h\<lparr>f_read_at := f_read_at h + 1\<rparr>) s)"

definition fifo_drop :: "u32 \<Rightarrow> 'h fs_st \<Rightarrow> 'h fs_st" where
  "fifo_drop hdr s = set_fhdr hdr (\<lambda>h. h\<lparr>f_write_at := f_write_at h - 256\<rparr>) s"

definition read_fifofs ::
    "('h fs_st \<Rightarrow> 'h fs_st) \<Rightarrow> 'h kfree_fn \<Rightarrow> nat \<Rightarrow> u32 \<Rightarrow> 'h fs_st \<Rightarrow> (int \<times> u8 list \<times> 'h fs_st) option" where
  "read_fifofs sched kf fd sz s =
     (let node = vfs_node (files s fd);
          ino = unat (st_ino (status (vnodes s node)));
          hdr = fifofs_nodes s ino;
          curnode = f_data (fhdrs s hdr) in
      if ino \<ge> 1024 \<or> hdr = 0 then None
      else do {
        (ret, s) \<leftarrow> fifo_wait_data sched fd node hdr s;
        case ret of Some r \<Rightarrow> Some (r, [], s)
        | None \<Rightarrow> do {
            let offset = unat (f_read_at (fhdrs s hdr) mod 0x100);
            let avail = st_size (status (vnodes s node));
            let sz = (if sz > avail then avail else sz);
            (buf, s) \<leftarrow> blk_drain_loop kf (fifo_take node hdr) (fifo_drop hdr) (unat sz) offset curnode s;
            Some (sint sz, buf, s)
          }
      })"

definition fifo_count :: "u32 \<Rightarrow> u32 \<Rightarrow> u32 \<Rightarrow> 'h fs_st \<Rightarrow> 'h fs_st" where
  "fifo_count node hdr k s =
     set_fhdr hdr (\<lambda>h. h\<lparr>f_write_at := f_write_at h + k\<rparr>) (set_vnode node (add_size k) s)"

definition write_fifofs :: "'h kmalloc_fn \<Rightarrow> nat \<Rightarrow> u8 list \<Rightarrow> 'h fs_st \<Rightarrow> (int \<times> 'h fs_st) option" where
  "write_fifofs km fd buf s =
     (let node = vfs_node (files s fd);
          ino = unat (st_ino (status (vnodes s node)));
          hdr = fifofs_nodes s ino in
      if ino \<ge> 1024 \<or> hdr = 0 then None
      else if f_readers (fhdrs s hdr) = 0 then Some (-1, set_errno EPIPE s)
      else do {
        let at = f_write_at (fhdrs s hdr);
        curnode \<leftarrow> walk (blks s) (unat (at div 0xFF)) (f_data (fhdrs s hdr));
        blk_write_loop km (fifo_count node hdr) id curnode (unat (at mod 0x100)) buf 0 s
      })"

text \<open>The two waits of \<open>open_fifofs\<close>; \<open>False\<close> is the failure in non-blocking mode.\<close>

partial_function (option) fifo_wait_writer ::
    "('h fs_st \<Rightarrow> 'h fs_st) \<Rightarrow> u32 \<Rightarrow> 'h fs_st \<Rightarrow> 'h fs_st option" where
  "fifo_wait_writer sched hdr s =
     (if f_writers (fhdrs s hdr) < 1 then fifo_wait_writer sched hdr (sched s) else Some s)"

partial_function (option) fifo_wait_reader ::
    "('h fs_st \<Rightarrow> 'h fs_st) \<Rightarrow> u32 \<Rightarrow> u32 \<Rightarrow> 'h fs_st \<Rightarrow> (bool \<times> 'h fs_st) option" where
  "fifo_wait_reader sched fl hdr s =
     (if f_readers (fhdrs s hdr) < 1 then
        if fl AND O_NONBLOCK \<noteq> 0 then Some (False, set_errno ENXIO s)
        else fifo_wait_reader sched fl hdr (sched s)
      else Some (True, s))"

definition open_fifofs ::
    "('h fs_st \<Rightarrow> 'h fs_st) \<Rightarrow> u32 \<Rightarrow> u32 \<Rightarrow> 'h fs_st \<Rightarrow> (int \<times> 'h fs_st) option" where
  "open_fifofs sched node fl s =
     (let ino = unat (st_ino (status (vnodes s node)));
          hdr = fifofs_nodes s ino;
          fl = (if fl AND O_ACCMODE = O_RDWR then fl AND NOT O_WRONLY else fl) in
      if ino \<ge> 1024 \<or> hdr = 0 then None
      else if fl AND O_RDONLY \<noteq> 0 then do {
        let s = set_fhdr hdr (\<lambda>h. h\<lparr>f_readers := i32 (f_readers h + 1)\<rparr>) s;
        s \<leftarrow> (if fl AND O_NONBLOCK = 0 then fifo_wait_writer sched hdr s else Some s);
        fd \<leftarrow> get_free_fd 3 s;
        Some (fd, s)
      }
      else if fl AND O_WRONLY \<noteq> 0 then do {
        let s = set_fhdr hdr (\<lambda>h. h\<lparr>f_writers := i32 (f_writers h + 1)\<rparr>) s;
        (ok, s) \<leftarrow> fifo_wait_reader sched fl hdr s;
        if \<not> ok then Some (-1, s)
        else do {
          fd \<leftarrow> get_free_fd 3 s;
          Some (fd, s)
        }
      }
      else Some (-1, s))"

definition close_fifofs :: "nat \<Rightarrow> 'h fs_st \<Rightarrow> (int \<times> 'h fs_st) option" where
  "close_fifofs fd s =
     (let ino = unat (st_ino (status (vnodes s (vfs_node (files s fd)))));
          hdr = fifofs_nodes s ino in
      if ino \<ge> 1024 then None
      else if oflag (files s fd) AND O_RDONLY \<noteq> 0 then
        if hdr = 0 then None
        else Some (0, set_fhdr hdr (\<lambda>h. h\<lparr>f_readers := max 0 (i32 (f_readers h - 1))\<rparr>) s)
      else if oflag (files s fd) AND O_WRONLY \<noteq> 0 then
        if hdr = 0 then None
        else Some (0, set_fhdr hdr (\<lambda>h. h\<lparr>f_writers := max 0 (i32 (f_writers h - 1))\<rparr>) s)
      else Some (0, s))"

text \<open>\<open>sizeof (struct fifofs_hdr_t)\<close> is 20. The counts of readers and writers are not set.\<close>

definition creat_fifofs :: "'h kmalloc_fn \<Rightarrow> 'h kfree_fn \<Rightarrow> u32 \<Rightarrow> 'h fs_st \<Rightarrow> (int \<times> 'h fs_st) option" where
  "creat_fifofs km kf node s =
     (let s = set_vnode node (\<lambda>v. v\<lparr>v_read := Some FIFOFS, v_write := Some FIFOFS, v_open := Some FIFOFS,
                                    v_close := Some FIFOFS, v_lseek := None\<rparr>) s;
          ino = unat (st_ino (status (vnodes s node))) in
      if ino \<ge> 1024 then None
      else
        let (hdr, s) = fs_kmalloc km 20 s;
            s = s\<lparr>fifofs_nodes := (fifofs_nodes s)(ino := hdr)\<rparr> in
        if hdr = 0 then Some (-1, s)
        else
          let (d, s) = fs_kmalloc km 260 s;
              s = set_fhdr hdr (\<lambda>h. h\<lparr>f_data := d\<rparr>) s in
          if d = 0 then Some (-1, fs_kfree kf hdr s)
          else
            let s = set_fhdr hdr (\<lambda>h. h\<lparr>f_write_at := 0, f_read_at := 0\<rparr>) s in
            Some (1, set_blk d (\<lambda>b. b\<lparr>blk := \<lambda>i. if i < 256 then 0 else blk b i\<rparr>) s))"

section \<open>First in, first out\<close>

lemmas fifo_upds = set_fhdr_def set_vnode_def add_size_def fs_kfree_def

lemma fifo_count_books:
  assumes "only_blocks (fifo_count node hdr k s) s'"
  shows "vnodes s' = (vnodes s)(node := add_size k (vnodes s node))"
    "fhdrs s' = (fhdrs s)(hdr := (fhdrs s hdr)\<lparr>f_write_at := f_write_at (fhdrs s hdr) + k\<rparr>)"
    "files s' = files s" "fifofs_nodes s' = fifofs_nodes s"
  by (subst assms [unfolded only_blocks_def], simp add: fifo_count_def set_fhdr_def set_vnode_def)+

lemma read_fifofs_nonempty:
  assumes "vfs_node (files s fd) = node" "st_ino (status (vnodes s node)) = of_nat ino" "ino < 1024"
    "fifofs_nodes s ino = hdr" "hdr \<noteq> 0" "f_data (fhdrs s hdr) = p" "p \<noteq> 0"
    "st_size (status (vnodes s node)) = of_nat n" "0 < n" "n < 2147483648" "m < 4294967296"
    "blk_read_loop (blks s) (min m n) (unat (f_read_at (fhdrs s hdr) mod 0x100)) p = Some bs"
  shows "\<exists>s'. read_fifofs sched kf fd (of_nat m) s = Some (int (min m n), bs, s')
     \<and> st_size (status (vnodes s' node)) = of_nat (n - min m n)"
proof -
  let ?off = "unat (f_read_at (fhdrs s hdr) mod 0x100)"
  have un: "unat (st_ino (status (vnodes s node))) = ino" using assms(2,3) by (simp add: unat_of_nat_u32)
  have nz: "(of_nat n :: u32) \<noteq> 0" using assms(9,10) unat_of_nat_u32 [of n] by auto
  have wait: "fifo_wait_data sched fd node hdr s = Some (None, s)"
    using nz assms(8) by (subst fifo_wait_data.simps) simp
  have "?off < 256" by (simp add: unat_mod_distrib)
  then obtain s' where s': "blk_drain_loop kf (fifo_take node hdr) (fifo_drop hdr) (min m n) ?off p s = Some (bs, s')"
    using blk_drain_loop_reads [OF _ _ assms(12) _ assms(7), of "fifo_take node hdr" "fifo_drop hdr" kf]
    by (auto simp: fifo_take_def fifo_drop_def fifo_upds)
  have sz: "(of_nat n :: u32) < of_nat m \<longleftrightarrow> n < m" "unat (of_nat (min m n) :: u32) = min m n"
      "sint (of_nat (min m n) :: u32) = int (min m n)"
    using assms(10,11) by (auto simp: word_less_nat_alt unat_of_nat_u32 intro!: unat_of_nat_u32 sint_of_nat_u32)
  have "read_fifofs sched kf fd (of_nat m) s = Some (int (min m n), bs, s')"
    using s' assms(1,3-6,8) un wait sz unfolding read_fifofs_def Let_def
    by (cases "n < m") (simp_all add: min_def)
  moreover have "st_size (status (vnodes s' node)) = of_nat n + of_nat (min m n) * (-1)"
    using blk_drain_loop_count [OF _ _ s', of "\<lambda>s. st_size (status (vnodes s node))" "-1"] assms(8)
    by (simp add: fifo_take_def fifo_drop_def fifo_upds)
  ultimately show ?thesis by (simp add: of_nat_diff)
qed

locale fifo_files = fs_allocator

sublocale fifo_files \<subseteq> fw: block_writer km kf used inv "fifo_count node hdr"
  by unfold_locales (simp_all add: fifo_count_def set_fhdr_def set_vnode_def add_size_def add.assoc)

context fifo_files
begin

lemma write_fifofs_read_fifofs:
  assumes "inv (hs s)" "owns used s p" "buf \<noteq> []" "a < 255" "a + length buf < 2147483648"
    "vfs_node (files s wfd) = node" "vfs_node (files s rfd) = node"
    "st_ino (status (vnodes s node)) = of_nat ino" "ino < 1024" "st_size (status (vnodes s node)) = 0"
    "fifofs_nodes s ino = hdr" "hdr \<noteq> 0" "f_data (fhdrs s hdr) = p" "f_readers (fhdrs s hdr) \<noteq> 0"
    "f_write_at (fhdrs s hdr) = of_nat a" "f_read_at (fhdrs s hdr) = of_nat a"
  shows "\<exists>n s'. write_fifofs km wfd buf s = Some (int n, s') \<and> 0 < n \<and> n \<le> length buf
     \<and> (n < length buf \<longrightarrow> errno s' = Some ENOMEM)
     \<and> (\<forall>m < 4294967296. \<exists>s''. read_fifofs sched kf rfd (of_nat m) s' = Some (int (min m n), take m (take n buf), s'')
          \<and> st_size (status (vnodes s'' node)) = of_nat (n - min m n))"
proof -
  have un: "unat (st_ino (status (vnodes s node))) = ino" using assms(8,9) by (simp add: unat_of_nat_u32)
  have ua: "unat (of_nat a :: u32) = a" using assms(4) by (simp add: unat_of_nat_u32)
  have pos: "unat ((of_nat a :: u32) div 0xFF) = 0" "unat ((of_nat a :: u32) mod 0x100) = a"
    using assms(4) ua by (simp_all add: unat_div_distrib unat_mod_distrib)
  obtain n s' where n: "blk_write_loop km (fifo_count node hdr) id p a buf 0 s = Some (int n, s')"
      "0 < n" "n \<le> length buf" "n < length buf \<longrightarrow> errno s' = Some ENOMEM"
      "blk_read_loop (blks s') n a p = Some (take n buf)" "only_blocks (fifo_count node hdr (of_nat n) s) s'"
    using fw.blk_write_loop_stores [OF assms(1,2), of a 0 buf node hdr id] assms(3,4,5) by auto
  note books = fifo_count_books [OF n(6)]
  have "write_fifofs km wfd buf s = Some (int n, s')"
    using n(1) un pos assms(6,9,11-15) by (simp add: write_fifofs_def)
  moreover have "\<exists>s''. read_fifofs sched kf rfd (of_nat m) s' = Some (int (min m n), take m (take n buf), s'')
          \<and> st_size (status (vnodes s'' node)) = of_nat (n - min m n)" if "m < 4294967296" for m
  proof -
    have "blk_read_loop (blks s') (min m n) (unat (f_read_at (fhdrs s' hdr) mod 0x100)) p = Some (take m (take n buf))"
      using blk_read_loop_prefix [OF n(5), of "min m n"] pos assms(16) by (simp add: books min.commute)
    then show ?thesis
      using read_fifofs_nonempty [of s' rfd node ino hdr p n m "take m (take n buf)" sched kf] that n(2,3) assms
      by (auto simp: books add_size_def owns_def)
  qed
  ultimately show ?thesis using n by blast
qed

end

section \<open>The wait of an open\<close>

text \<open>An open of the read end returns as soon as, after \<open>k\<close> switches, a writer has appeared.\<close>

lemma fifo_wait_writer_returns:
  "1 \<le> f_writers (fhdrs ((sched ^^ k) s) hdr) \<Longrightarrow> (\<forall>j<k. f_writers (fhdrs ((sched ^^ j) s) hdr) < 1) \<Longrightarrow>
   fifo_wait_writer sched hdr s = Some ((sched ^^ k) s)"
proof (induction k arbitrary: s)
  case (Suc k)
  have "\<forall>j<k. f_writers (fhdrs ((sched ^^ j) (sched s)) hdr) < 1"
    using Suc.prems(2) by (auto simp: funpow_swap1 dest: spec [of _ "Suc _"])
  then have "fifo_wait_writer sched hdr (sched s) = Some ((sched ^^ k) (sched s))"
    using Suc.IH [of "sched s"] Suc.prems(1) by (simp add: funpow_swap1)
  moreover have "f_writers (fhdrs s hdr) < 1" using Suc.prems(2) by (auto dest: spec [of _ 0])
  ultimately show ?case by (subst fifo_wait_writer.simps) (simp add: funpow_swap1)
qed (subst fifo_wait_writer.simps, simp)

end
