(* ===== verification/Stdio.thy ===== *)
theory Stdio
  imports VfsBase
begin

text \<open>
  The standard streams, \<^verbatim>\<open>kernel/src/fs/stdin.c\<close>, \<^verbatim>\<open>stdout.c\<close> and \<^verbatim>\<open>stderr.c\<close>. Standard input is a ring
  buffer of 1024 bytes between the keyboard driver, which writes it, and the readers; the field
  \<open>console\<close> collects what the two output streams hand to \<open>kputchar\<close>. \<open>irq\<close> is what the interrupts
  do between two tests of the busy loop of \<open>read_stdin\<close>; that it halts the scheduler meanwhile and lets it go on afterwards is
  not part of this state, and the loop that takes the bytes out is modelled without interrupts in between.

  A read returns one entry per byte of the buffer it fills, \<open>None\<close> where it leaves the byte as it
  was.
\<close>

section \<open>Operations\<close>

abbreviation (input) STDIN_FILENO :: nat where "STDIN_FILENO \<equiv> 0"
abbreviation (input) STDOUT_FILENO :: nat where "STDOUT_FILENO \<equiv> 1"
abbreviation (input) STDERR_FILENO :: nat where "STDERR_FILENO \<equiv> 2"

text \<open>The three initialisers differ in the name, the number, the read function and the flags.\<close>

definition init_std ::
    "nat \<Rightarrow> u8 list \<Rightarrow> fsmod option \<Rightarrow> fsmod \<Rightarrow> u32 \<Rightarrow> 'h kmalloc_fn \<Rightarrow> 'h fs_st \<Rightarrow> (int \<times> 'h fs_st) option" where
  "init_std fileno nm rd md fl km s =
     (if vfs_node (files s fileno) \<noteq> 0 then Some (int fileno, s)
      else do {
        (node, _, s) \<leftarrow> append_vnode km s;
        if node = 0 then Some (-1, s)
        else
          let s = set_vnode node (\<lambda>v. v\<lparr>
                    status := (status v)\<lparr>st_mode := 0, st_uid := 0, st_gid := 0, st_size := 0,
                      st_dev := DEVID_STDIO, st_rdev := DEVID_STDIO, st_ino := of_nat fileno\<rparr>,
                    v_next := 0, v_name := put_name nm (v_name v), v_close := None, v_read := rd,
                    v_write := Some md, v_creat := None, v_open := Some md, v_lseek := None\<rparr>) s in
          Some (int fileno, set_file fileno (\<lambda>_. \<lparr>vfs_node = node, at_off = 0, oflag = fl\<rparr>) s)
      })"

definition init_stdin :: "'h kmalloc_fn \<Rightarrow> 'h fs_st \<Rightarrow> (int \<times> 'h fs_st) option" where
  "init_stdin = init_std STDIN_FILENO [115, 116, 100, 105, 110] (Some STDIN) STDIN O_RDWR"

definition init_stdout :: "'h kmalloc_fn \<Rightarrow> 'h fs_st \<Rightarrow> (int \<times> 'h fs_st) option" where
  "init_stdout = init_std STDOUT_FILENO [115, 116, 100, 111, 117, 116] None STDOUT O_WRONLY"

definition init_stderr :: "'h kmalloc_fn \<Rightarrow> 'h fs_st \<Rightarrow> (int \<times> 'h fs_st) option" where
  "init_stderr = init_std STDERR_FILENO [115, 116, 100, 101, 114, 114] None STDERR O_WRONLY"

definition push_stdin :: "u8 \<Rightarrow> 'h fs_st \<Rightarrow> u32 \<times> 'h fs_st" where
  "push_stdin c s =
     (if in_write_at s \<ge> 1024 \<and> in_read_at s = 0 then (0, s)
      else
        let s = (if in_write_at s \<ge> 1024 then s\<lparr>in_write_at := 0\<rparr> else s) in
        (1, s\<lparr>stdin_buf := (stdin_buf s)(in_write_at s := c), in_write_at := in_write_at s + 1\<rparr>))"

definition pop_stdin :: "'h fs_st \<Rightarrow> u8 \<times> 'h fs_st" where
  "pop_stdin s =
     (let s = (if in_read_at s \<ge> 1024 then s\<lparr>in_read_at := 0\<rparr> else s) in
      if in_read_at s = in_write_at s then (0, s)
      else (stdin_buf s (in_read_at s), s\<lparr>in_read_at := in_read_at s + 1\<rparr>))"

text \<open>\<open>while (stdin_buf_size < size);\<close>\<close>

partial_function (option) stdin_wait :: "('h fs_st \<Rightarrow> 'h fs_st) \<Rightarrow> u32 \<Rightarrow> 'h fs_st \<Rightarrow> 'h fs_st option" where
  "stdin_wait irq sz s = (if stdin_buf_size s < sz then stdin_wait irq sz (irq s) else Some s)"

fun stdin_read_loop :: "nat \<Rightarrow> 'h fs_st \<Rightarrow> u8 option list \<times> 'h fs_st" where
  "stdin_read_loop 0 s = ([], s)"
| "stdin_read_loop (Suc n) s =
     (let (c, s) = pop_stdin s;
          (b, s) = (if c \<noteq> 0 then (Some c, s\<lparr>stdin_buf_size := stdin_buf_size s - 1\<rparr>) else (None, s));
          (bs, s) = stdin_read_loop n s in
      (b # bs, s))"

definition read_stdin ::
    "('h fs_st \<Rightarrow> 'h fs_st) \<Rightarrow> u32 \<Rightarrow> 'h fs_st \<Rightarrow> (int \<times> u8 option list \<times> 'h fs_st) option" where
  "read_stdin irq sz s = do {
     s \<leftarrow> stdin_wait irq sz s;
     let (bs, s) = stdin_read_loop (unat sz) s;
     Some (sint sz, bs, s)
   }"

fun stdin_write_loop :: "u8 list \<Rightarrow> 'h fs_st \<Rightarrow> 'h fs_st" where
  "stdin_write_loop [] s = s"
| "stdin_write_loop (b # bs) s =
     (let (k, s) = push_stdin b s in stdin_write_loop bs (s\<lparr>stdin_buf_size := stdin_buf_size s + k\<rparr>))"

definition write_stdin :: "u8 list \<Rightarrow> 'h fs_st \<Rightarrow> int \<times> 'h fs_st" where
  "write_stdin buf s = (sint (of_nat (length buf) :: u32), stdin_write_loop buf s)"

definition write_stdout :: "u8 list \<Rightarrow> 'h fs_st \<Rightarrow> int \<times> 'h fs_st" where
  "write_stdout buf s = (sint (of_nat (length buf) :: u32), s\<lparr>console := console s @ buf\<rparr>)"

definition write_stderr :: "u8 list \<Rightarrow> 'h fs_st \<Rightarrow> int \<times> 'h fs_st" where
  "write_stderr buf s = (sint (of_nat (length buf) :: u32), s\<lparr>console := console s @ buf\<rparr>)"

definition open_std :: "nat \<Rightarrow> 'h fs_st \<Rightarrow> (int \<times> 'h fs_st) option" where
  "open_std fileno s = do {
     ret \<leftarrow> (if vfs_node (files s fileno) \<noteq> 0 then get_free_fd 3 s else Some (int fileno));
     Some (ret, if ret < 0 then set_errno EMFILE s else s)
   }"

definition open_stdin :: "'h fs_st \<Rightarrow> (int \<times> 'h fs_st) option" where
  "open_stdin = open_std STDIN_FILENO"

definition open_stdout :: "'h fs_st \<Rightarrow> (int \<times> 'h fs_st) option" where
  "open_stdout = open_std STDOUT_FILENO"

definition open_stderr :: "'h fs_st \<Rightarrow> (int \<times> 'h fs_st) option" where
  "open_stderr = open_std STDERR_FILENO"

section \<open>The ring buffer\<close>

text \<open>The indices stay inside the buffer, so no access is out of bounds.\<close>

definition stdin_ok :: "'h fs_st \<Rightarrow> bool" where
  "stdin_ok s \<longleftrightarrow> in_read_at s \<le> 1024 \<and> in_write_at s \<le> 1024"

lemma push_stdin_ok: "stdin_ok s \<Longrightarrow> stdin_ok (snd (push_stdin c s))"
  by (auto simp: stdin_ok_def push_stdin_def Let_def)

lemma pop_stdin_ok: "stdin_ok s \<Longrightarrow> stdin_ok (snd (pop_stdin s))"
  by (auto simp: stdin_ok_def pop_stdin_def Let_def)

text \<open>The unread bytes, while the writer has not wrapped around behind the reader.\<close>

definition pending :: "'h fs_st \<Rightarrow> u8 list" where
  "pending s = map (stdin_buf s) [in_read_at s..<in_write_at s]"

lemma stdin_write_loop_queue:
  "in_read_at s \<le> in_write_at s \<Longrightarrow> in_write_at s + length bs \<le> 1024 \<Longrightarrow>
   pending (stdin_write_loop bs s) = pending s @ bs
   \<and> in_write_at (stdin_write_loop bs s) = in_write_at s + length bs
   \<and> in_read_at (stdin_write_loop bs s) = in_read_at s
   \<and> stdin_buf_size (stdin_write_loop bs s) = stdin_buf_size s + of_nat (length bs)"
proof (induction bs arbitrary: s)
  case (Cons b bs)
  define s1 where "s1 = s\<lparr>stdin_buf := (stdin_buf s)(in_write_at s := b), in_write_at := in_write_at s + 1,
      stdin_buf_size := stdin_buf_size s + 1\<rparr>"
  have step: "stdin_write_loop (b # bs) s = stdin_write_loop bs s1"
    using Cons.prems by (simp add: push_stdin_def Let_def s1_def)
  have "pending s1 = pending s @ [b]"
    using Cons.prems(1) by (simp add: pending_def s1_def)
  then show ?case
    using Cons.IH [of s1] Cons.prems unfolding step by (simp add: s1_def algebra_simps)
qed simp

lemma stdin_read_loop_queue:
  "pending s = bs @ cs \<Longrightarrow> in_write_at s \<le> 1024 \<Longrightarrow> in_read_at s \<le> in_write_at s \<Longrightarrow> 0 \<notin> set bs \<Longrightarrow>
   \<exists>s'. stdin_read_loop (length bs) s = (map Some bs, s') \<and> pending s' = cs
     \<and> stdin_buf_size s' = stdin_buf_size s - of_nat (length bs)"
proof (induction bs arbitrary: s)
  case (Cons b bs)
  define s1 where "s1 = s\<lparr>in_read_at := in_read_at s + 1, stdin_buf_size := stdin_buf_size s - 1\<rparr>"
  have lt: "in_read_at s < in_write_at s"
    using Cons.prems(1) by (cases "in_read_at s < in_write_at s") (simp_all add: pending_def)
  have p: "pending s = stdin_buf s (in_read_at s) # pending s1"
    using lt by (simp add: pending_def s1_def upt_conv_Cons)
  have "stdin_buf s (in_read_at s) = b" "pending s1 = bs @ cs" using p Cons.prems(1) by simp_all
  moreover have "pop_stdin s = (stdin_buf s (in_read_at s), s\<lparr>in_read_at := in_read_at s + 1\<rparr>)"
    using lt Cons.prems(2) by (simp add: pop_stdin_def Let_def)
  moreover have "\<exists>s'. stdin_read_loop (length bs) s1 = (map Some bs, s') \<and> pending s' = cs
     \<and> stdin_buf_size s' = stdin_buf_size s1 - of_nat (length bs)"
    using Cons.IH [of s1] Cons.prems lt calculation(2) by (simp add: s1_def)
  ultimately show ?case using Cons.prems(4) by (auto simp: s1_def algebra_simps)
qed (simp add: pending_def)

text \<open>A read that has enough bytes does not wait.\<close>

lemma stdin_wait_ready: "sz \<le> stdin_buf_size s \<Longrightarrow> stdin_wait irq sz s = Some s"
  by (subst stdin_wait.simps) (auto dest: leD)

section \<open>Properties\<close>

text \<open>
  C38. The bytes the keyboard driver writes to standard input are read back in their order behind
  those that were there before, as long as none is NUL and the writer does not have to wrap
  around; the read does not wait.
\<close>

theorem stdin_fifo:
  assumes "stdin_ok s" "in_read_at s \<le> in_write_at s" "in_write_at s + length bs \<le> 1024"
    "0 \<notin> set (pending s @ bs)" "stdin_buf_size s = of_nat (length (pending s))"
    "n \<le> length (pending s @ bs)"
  shows "\<exists>s'. read_stdin irq (of_nat n) (snd (write_stdin bs s)) = Some (int n, map Some (take n (pending s @ bs)), s')
     \<and> pending s' = drop n (pending s @ bs) \<and> stdin_buf_size s' = of_nat (length (pending s'))"
proof -
  define q where "q = pending s @ bs"
  let ?s = "stdin_write_loop bs s"
  have w: "pending ?s = q" "in_write_at ?s = in_write_at s + length bs" "in_read_at ?s = in_read_at s"
      "stdin_buf_size ?s = of_nat (length q)"
    using stdin_write_loop_queue [OF assms(2,3)] assms(5) by (simp_all add: q_def)
  have len: "length q \<le> 1024" "n \<le> length q" using w(1-3) assms(3,6) by (auto simp: pending_def q_def)
  have u: "unat (of_nat n :: u32) = n" "sint (of_nat n :: u32) = int n" "unat (of_nat (length q) :: u32) = length q"
    using len by (simp_all add: unat_of_nat_u32 sint_of_nat_u32)
  have z: "0 \<notin> set (take n q)" using assms(4) by (auto simp: q_def [symmetric] dest: in_set_takeD)
  obtain s' where s': "stdin_read_loop n ?s = (map Some (take n q), s')" "pending s' = drop n q"
      "stdin_buf_size s' = of_nat (length q) - of_nat n"
    using stdin_read_loop_queue [of ?s "take n q" "drop n q"] w assms(2,3) z len(2) by auto
  have "stdin_wait irq (of_nat n) ?s = Some ?s"
    using w(4) u len(2) by (intro stdin_wait_ready) (simp add: word_le_nat_alt)
  then show ?thesis
    using s' u len(2) by (simp add: read_stdin_def write_stdin_def q_def [symmetric] of_nat_diff)
qed

theorem stdin_fifo_witness:
  "\<exists>s'. read_stdin id (of_nat 2) (snd (write_stdin [104, 105, 10] (fs_init ())))
        = Some (int 2, map Some (take 2 (pending (fs_init ()) @ [104, 105, 10])), s')
     \<and> pending s' = drop 2 (pending (fs_init ()) @ [104, 105, 10])
     \<and> stdin_buf_size s' = of_nat (length (pending s'))"
  by (rule stdin_fifo) (simp_all add: fs_init_def stdin_ok_def pending_def)

text \<open>
  The writer wraps around without looking at the reader: with 1023 unread bytes in the
  buffer, one more byte makes the two indices equal, and the next \<open>pop_stdin\<close> finds the buffer
  empty although the count of its bytes has grown.
\<close>

theorem push_stdin_looks_empty:
  assumes "in_read_at s = 1" "in_write_at s = 1024" "fst (push_stdin c s) = k"
  shows "k = 1 \<and> fst (pop_stdin (snd (push_stdin c s))) = 0
     \<and> length (pending s) = 1023 \<and> in_read_at (snd (push_stdin c s)) = in_write_at (snd (push_stdin c s))"
  using assms by (auto simp: push_stdin_def pop_stdin_def pending_def Let_def)

theorem push_stdin_looks_empty_witness:
  "let s = (fs_init ())\<lparr>in_read_at := 1, in_write_at := 1024\<rparr> in
   (1 :: u32) = 1 \<and> fst (pop_stdin (snd (push_stdin 97 s))) = 0
     \<and> length (pending s) = 1023 \<and> in_read_at (snd (push_stdin 97 s)) = in_write_at (snd (push_stdin 97 s))"
  unfolding Let_def by (rule push_stdin_looks_empty) (simp_all add: fs_init_def push_stdin_def Let_def)

end
