(* ===== verification/Vfs.thy ===== *)
theory Vfs
  imports Ramfs Pipe Fifofs Stdio
begin

text \<open>
  The virtual file system, \<^verbatim>\<open>kernel/src/fs/vfs.c\<close>, and what stands on it: \<^verbatim>\<open>do_fcntl.c\<close>, \<^verbatim>\<open>stat.c\<close>,
  \<^verbatim>\<open>initrd.c\<close>, \<open>mkfifo\<close> and the kernel's \<^verbatim>\<open>lib/fcntl.c\<close> and \<^verbatim>\<open>lib/unistd.c\<close>. Every call through a
  function pointer of a node dispatches on the module the pointer names. The record \<open>env\<close> holds
  what the file systems are given from outside: the allocator, the scheduler and the interrupts.
\<close>

section \<open>Dispatch\<close>

record 'h env =
  e_km :: "'h kmalloc_fn"
  e_kf :: "'h kfree_fn"
  e_sched :: "'h fs_st \<Rightarrow> 'h fs_st"
  e_irq :: "'h fs_st \<Rightarrow> 'h fs_st"

abbreviation (input) fail :: "errno \<Rightarrow> 'h fs_st \<Rightarrow> (int \<times> 'h fs_st) option" where
  "fail e s \<equiv> Some (-1, set_errno e s)"

text \<open>\<open>node->read\<close>; no module sets it to the functions of the output streams.\<close>

definition call_read :: "'h env \<Rightarrow> fsmod \<Rightarrow> nat \<Rightarrow> u32 \<Rightarrow> 'h fs_st \<Rightarrow> (int \<times> u8 option list \<times> 'h fs_st) option" where
  "call_read e m fd sz s =
     (case m of
        RAMFS \<Rightarrow> map_option (\<lambda>(r, bs, s). (r, map Some bs, s)) (read_ramfs fd sz s)
      | PIPE \<Rightarrow> map_option (\<lambda>(r, bs, s). (r, map Some bs, s)) (read_pipe (e_sched e) (e_kf e) fd sz s)
      | FIFOFS \<Rightarrow> map_option (\<lambda>(r, bs, s). (r, map Some bs, s)) (read_fifofs (e_sched e) (e_kf e) fd sz s)
      | STDIN \<Rightarrow> read_stdin (e_irq e) sz s
      | _ \<Rightarrow> None)"

definition call_write :: "'h env \<Rightarrow> fsmod \<Rightarrow> nat \<Rightarrow> u8 list \<Rightarrow> 'h fs_st \<Rightarrow> (int \<times> 'h fs_st) option" where
  "call_write e m fd buf s =
     (case m of
        RAMFS \<Rightarrow> write_ramfs (e_km e) fd buf s
      | PIPE \<Rightarrow> write_pipe (e_km e) fd buf s
      | FIFOFS \<Rightarrow> write_fifofs (e_km e) fd buf s
      | STDIN \<Rightarrow> Some (write_stdin buf s)
      | STDOUT \<Rightarrow> Some (write_stdout buf s)
      | STDERR \<Rightarrow> Some (write_stderr buf s))"

definition call_open :: "'h env \<Rightarrow> fsmod \<Rightarrow> u32 \<Rightarrow> u32 \<Rightarrow> 'h fs_st \<Rightarrow> (int \<times> 'h fs_st) option" where
  "call_open e m node fl s =
     (case m of
        FIFOFS \<Rightarrow> open_fifofs (e_sched e) node fl s
      | STDIN \<Rightarrow> open_stdin s
      | STDOUT \<Rightarrow> open_stdout s
      | STDERR \<Rightarrow> open_stderr s
      | _ \<Rightarrow> None)"

definition call_creat :: "'h env \<Rightarrow> fsmod \<Rightarrow> u32 \<Rightarrow> 'h fs_st \<Rightarrow> (int \<times> 'h fs_st) option" where
  "call_creat e m node s =
     (case m of
        RAMFS \<Rightarrow> creat_ramfs (e_km e) node s
      | FIFOFS \<Rightarrow> creat_fifofs (e_km e) (e_kf e) node s
      | _ \<Rightarrow> None)"

definition call_close :: "'h env \<Rightarrow> fsmod \<Rightarrow> nat \<Rightarrow> 'h fs_st \<Rightarrow> (int \<times> 'h fs_st) option" where
  "call_close e m fd s =
     (case m of
        PIPE \<Rightarrow> close_pipe (e_kf e) fd s
      | FIFOFS \<Rightarrow> close_fifofs fd s
      | _ \<Rightarrow> None)"

section \<open>vfs.c\<close>

text \<open>\<open>fd < 0 || fd >= OPEN_MAX || cur_task->files[fd].vfs_node == NULL\<close>\<close>

definition bad_fd :: "int \<Rightarrow> 'h fs_st \<Rightarrow> bool" where
  "bad_fd fd s \<longleftrightarrow> fd < 0 \<or> fd \<ge> OPEN_MAX \<or> vfs_node (files s (nat fd)) = 0"

text \<open>A NULL buffer is \<open>has_buf = False\<close>.\<close>

definition read_vfs ::
    "'h env \<Rightarrow> int \<Rightarrow> bool \<Rightarrow> u32 \<Rightarrow> 'h fs_st \<Rightarrow> (int \<times> u8 option list \<times> 'h fs_st) option" where
  "read_vfs e fd has_buf sz s =
     (let node = vnodes s (vfs_node (files s (nat fd))) in
      if \<not> has_buf then Some (-1, [], set_errno ENOMEM s)
      else if bad_fd fd s then Some (-1, [], set_errno EBADF s)
      else if st_mode (status node) AND S_IFDIR \<noteq> 0 then Some (-1, [], set_errno EISDIR s)
      else if sz = 0 then Some (0, [], s)
      else if oflag (files s (nat fd)) AND O_RDONLY \<noteq> 0 then
        (case v_read node of
           Some m \<Rightarrow> call_read e m (nat fd) sz s
         | None \<Rightarrow> Some (-1, [], set_errno ENXIO s))
      else Some (-1, [], set_errno EBADF s))"

text \<open>The buffer of a write: \<open>None\<close> for NULL, else its \<open>size\<close> bytes.\<close>

definition write_vfs :: "'h env \<Rightarrow> int \<Rightarrow> u8 list option \<Rightarrow> 'h fs_st \<Rightarrow> (int \<times> 'h fs_st) option" where
  "write_vfs e fd buf s =
     (case buf of
        None \<Rightarrow> fail ENOBUFS s
      | Some bs \<Rightarrow>
          if bad_fd fd s then fail EBADF s
          else if bs = [] then Some (0, s)
          else if oflag (files s (nat fd)) AND O_WRONLY \<noteq> 0 then
            (case v_write (vnodes s (vfs_node (files s (nat fd)))) of
               Some m \<Rightarrow> call_write e m (nat fd) bs s
             | None \<Rightarrow> fail ENXIO s)
          else fail EBADF s)"

definition close_vfs :: "'h env \<Rightarrow> int \<Rightarrow> 'h fs_st \<Rightarrow> (int \<times> 'h fs_st) option" where
  "close_vfs e fd s =
     (if bad_fd fd s then fail EBADF s
      else do {
        (ret, s) \<leftarrow> (case v_close (vnodes s (vfs_node (files s (nat fd)))) of
                       Some m \<Rightarrow> call_close e m (nat fd) s | None \<Rightarrow> Some (0, s));
        if ret < 0 then Some (-1, s)
        else Some (0, set_file (nat fd) (\<lambda>_. \<lparr>vfs_node = 0, at_off = 0, oflag = 0\<rparr>) s)
      })"

text \<open>What \<open>creat_vfs\<close> writes into the new node, up to the choice of the file system.\<close>

definition new_node :: "u8 list \<Rightarrow> u32 \<Rightarrow> vfs_node_t \<Rightarrow> vfs_node_t" where
  "new_node name mode v = v\<lparr>status := (status v)\<lparr>st_mode := mode, st_uid := 0, st_gid := 0, st_size := 0\<rparr>,
     v_next := 0, v_name := put_name_n name (v_name v)\<rparr>"

definition on_ramfs :: "u32 \<Rightarrow> fsmod \<Rightarrow> vfs_node_t \<Rightarrow> vfs_node_t" where
  "on_ramfs ino m v = v\<lparr>status := (status v)\<lparr>st_dev := DEVID_RAMFS, st_rdev := DEVID_RAMFS, st_ino := ino\<rparr>,
     v_creat := Some m\<rparr>"

text \<open>For an empty name \<open>strncpy\<close> goes on with the bytes behind the NUL of the caller's string: \<open>None\<close>.\<close>

definition creat_vfs :: "'h env \<Rightarrow> u8 list \<Rightarrow> u32 \<Rightarrow> 'h fs_st \<Rightarrow> (int \<times> 'h fs_st) option" where
  "creat_vfs e name mode s = do {
     (node, _, s) \<leftarrow> append_vnode (e_km e) s;
     if node = 0 then Some (-1, s)
     else if name = [] then None
     else do {
       let mode = (if mode AND S_IPERM = 0 then mode OR S_IRWXUGO else mode);
       let s = set_vnode node (new_node name mode) s;
       let regular = (mode AND S_IFREG \<noteq> 0 \<or> mode AND S_IFMT = 0);
       if \<not> regular \<and> mode AND S_IFIFO = 0 then fail EROFS s
       else do {
         let m = (if regular then RAMFS else FIFOFS);
         let s = set_vnode node (on_ramfs (ramfs_inodes s) m) (s\<lparr>ramfs_inodes := ramfs_inodes s + 1\<rparr>);
         (ret, s) \<leftarrow> call_creat e m node s;
         if ret < 0 then Some (-1, s)
         else do {
           fd \<leftarrow> get_free_fd 3 s;
           if fd < 0 then fail EMFILE s
           else Some (fd, set_file (nat fd) (\<lambda>_. \<lparr>vfs_node = node, at_off = 0, oflag = O_WRONLY\<rparr>) s)
         }
       }
     }
   }"

text \<open>The search for the node of a name; pipes have none.\<close>

partial_function (option) find_vnode :: "(u32 \<Rightarrow> vfs_node_t) \<Rightarrow> u8 list \<Rightarrow> u32 \<Rightarrow> u32 option" where
  "find_vnode vs name ptr =
     (if ptr = 0 then Some 0
      else if st_dev (status (vs ptr)) = DEVID_PIPE then find_vnode vs name (v_next (vs ptr))
      else if name = array_str (v_name (vs ptr)) then Some ptr
      else find_vnode vs name (v_next (vs ptr)))"

definition open_vfs :: "'h env \<Rightarrow> u8 list option \<Rightarrow> u32 \<Rightarrow> u32 \<Rightarrow> 'h fs_st \<Rightarrow> (int \<times> 'h fs_st) option" where
  "open_vfs e name fl mode s =
     (case name of
        None \<Rightarrow> fail ENOENT s
      | Some name \<Rightarrow> do {
          node \<leftarrow> find_vnode (vnodes s) name (vfs_root s);
          if node = 0 then
            if fl AND O_CREAT \<noteq> 0 then do {
              (ret, s) \<leftarrow> creat_vfs e name mode s;
              if ret < 0 then Some (-1, s)
              else Some (ret, set_file (nat ret) (\<lambda>f. f\<lparr>oflag := fl\<rparr>) s)
            }
            else fail ENOENT s
          else if fl AND (O_CREAT OR O_EXCL) = O_CREAT OR O_EXCL then fail EEXIST s
          else if st_mode (status (vnodes s node)) AND S_IFDIR \<noteq> 0 \<and> fl AND O_WRONLY \<noteq> 0 then fail EISDIR s
          else do {
            (fd, s) \<leftarrow> (case v_open (vnodes s node) of
                          Some m \<Rightarrow> call_open e m node fl s
                        | None \<Rightarrow> map_option (\<lambda>fd. (fd, s)) (get_free_fd 3 s));
            if fd \<ge> 0 then Some (fd, set_file (nat fd) (\<lambda>_. \<lparr>vfs_node = node, at_off = 0, oflag = fl\<rparr>) s)
            else fail EMFILE s
          }
        })"

abbreviation (input) SEEK_SET :: int where "SEEK_SET \<equiv> 0"
abbreviation (input) SEEK_CUR :: int where "SEEK_CUR \<equiv> 1"
abbreviation (input) SEEK_END :: int where "SEEK_END \<equiv> 2"

text \<open>No module has an \<open>lseek\<close> of its own, so a pointer to one is never followed.\<close>

definition lseek_vfs :: "int \<Rightarrow> u32 \<Rightarrow> int \<Rightarrow> 'h fs_st \<Rightarrow> (int \<times> 'h fs_st) option" where
  "lseek_vfs fd offset whence s =
     (if bad_fd fd s then fail EBADF s
      else
        let node = vnodes s (vfs_node (files s (nat fd)));
            seek = (\<lambda>at. Some (sint at, set_file (nat fd) (\<lambda>f. f\<lparr>at_off := at\<rparr>) s)) in
        if st_mode (status node) AND S_IFIFO \<noteq> 0 then fail ESPIPE s
        else if v_lseek node \<noteq> None then None
        else if whence = SEEK_SET then seek offset
        else if whence = SEEK_CUR then seek (at_off (files s (nat fd)) + offset)
        else if whence = SEEK_END then seek (st_size (status node) + offset)
        else fail EINVAL s)"

section \<open>On top of vfs.c\<close>

definition mkfifo :: "'h env \<Rightarrow> u8 list \<Rightarrow> u32 \<Rightarrow> 'h fs_st \<Rightarrow> (int \<times> 'h fs_st) option" where
  "mkfifo e path mode s = do {
     (fd, s) \<leftarrow> creat_vfs e path (mode OR S_IFIFO) s;
     if fd < 0 then Some (-1, s)
     else do { (_, s) \<leftarrow> close_vfs e fd s; Some (0, s) }
   }"

abbreviation (input) F_DUPFD :: int where "F_DUPFD \<equiv> 0x1"
abbreviation (input) F_GETFD :: int where "F_GETFD \<equiv> 0x2"
abbreviation (input) F_SETFD :: int where "F_SETFD \<equiv> 0x4"
abbreviation (input) F_GETFL :: int where "F_GETFL \<equiv> 0x8"
abbreviation (input) F_SETFL :: int where "F_SETFL \<equiv> 0x10"

definition do_fcntl :: "int \<Rightarrow> int \<Rightarrow> u32 \<Rightarrow> 'h fs_st \<Rightarrow> (int \<times> 'h fs_st) option" where
  "do_fcntl fd cmd arg s =
     (let f = files s (nat fd) in
      if bad_fd fd s then fail EBADF s
      else if cmd = F_DUPFD then
        if sint arg < 0 then fail EINVAL s
        else do {
          fd2 \<leftarrow> get_free_fd (sint arg) s;
          if fd2 < 0 then fail EMFILE s
          else Some (fd2, set_file (nat fd2) (\<lambda>_. f\<lparr>oflag := oflag f AND NOT FD_CLOEXEC\<rparr>) s)
        }
      else if cmd = F_GETFD then Some (sint (oflag f AND FD_MASK), s)
      else if cmd = F_SETFD then
        Some (0, set_file (nat fd) (\<lambda>f. f\<lparr>oflag := oflag f AND NOT FD_MASK OR arg AND FD_MASK\<rparr>) s)
      else if cmd = F_GETFL then Some (sint (oflag f AND O_MASK), s)
      else if cmd = F_SETFL then
        Some (0, set_file (nat fd) (\<lambda>f. f\<lparr>oflag := oflag f AND NOT O_SF_MASK OR arg AND O_SF_MASK\<rparr>) s)
      else fail EINVAL s)"

text \<open>The variadic wrappers: \<open>arg\<close> is the argument that may be there.\<close>

definition open_lib :: "'h env \<Rightarrow> u8 list option \<Rightarrow> u32 \<Rightarrow> u32 \<Rightarrow> 'h fs_st \<Rightarrow> (int \<times> 'h fs_st) option" where
  "open_lib e name fl arg s = open_vfs e name fl (if fl AND O_CREAT \<noteq> 0 then arg else 0) s"

definition creat_lib :: "'h env \<Rightarrow> u8 list \<Rightarrow> u32 \<Rightarrow> 'h fs_st \<Rightarrow> (int \<times> 'h fs_st) option" where
  "creat_lib = creat_vfs"

definition close_lib :: "'h env \<Rightarrow> int \<Rightarrow> 'h fs_st \<Rightarrow> (int \<times> 'h fs_st) option" where
  "close_lib = close_vfs"

definition fcntl :: "int \<Rightarrow> int \<Rightarrow> u32 \<Rightarrow> 'h fs_st \<Rightarrow> (int \<times> 'h fs_st) option" where
  "fcntl fd cmd arg s =
     do_fcntl fd cmd (if cmd = F_DUPFD \<or> cmd = F_SETFD \<or> cmd = F_SETFL then arg else 0) s"

definition lseek_lib :: "int \<Rightarrow> u32 \<Rightarrow> int \<Rightarrow> 'h fs_st \<Rightarrow> (int \<times> 'h fs_st) option" where
  "lseek_lib = lseek_vfs"

definition read_lib ::
    "'h env \<Rightarrow> int \<Rightarrow> bool \<Rightarrow> u32 \<Rightarrow> 'h fs_st \<Rightarrow> (int \<times> u8 option list \<times> 'h fs_st) option" where
  "read_lib = read_vfs"

definition write_lib :: "'h env \<Rightarrow> int \<Rightarrow> u8 list option \<Rightarrow> 'h fs_st \<Rightarrow> (int \<times> 'h fs_st) option" where
  "write_lib = write_vfs"

definition dup_lib :: "int \<Rightarrow> 'h fs_st \<Rightarrow> (int \<times> 'h fs_st) option" where
  "dup_lib fd s = fcntl fd F_DUPFD 0 s"

definition dup2_lib :: "'h env \<Rightarrow> int \<Rightarrow> int \<Rightarrow> 'h fs_st \<Rightarrow> (int \<times> 'h fs_st) option" where
  "dup2_lib e fd fd2 s = do {
     (_, s) \<leftarrow> close_lib e fd2 s;
     fcntl fd F_DUPFD (word_of_int fd2) s
   }"

text \<open>\<open>fstat\<close> follows \<open>vfs_node\<close> even if it is NULL; the second value is what it stores in \<open>*buf\<close>.\<close>

definition fstat :: "int \<Rightarrow> 'h fs_st \<Rightarrow> (int \<times> stat_t option \<times> 'h fs_st) option" where
  "fstat fd s =
     (if fd < 0 \<or> fd \<ge> OPEN_MAX then Some (-1, None, set_errno EBADF s)
      else if vfs_node (files s (nat fd)) = 0 then None
      else Some (0, Some (status (vnodes s (vfs_node (files s (nat fd))))), s))"

definition stat_path :: "'h env \<Rightarrow> u8 list option \<Rightarrow> 'h fs_st \<Rightarrow> (int \<times> stat_t option \<times> 'h fs_st) option" where
  "stat_path e path s =
     (if path = None then Some (-1, None, set_errno ENOENT s)
      else do {
        (fd, s) \<leftarrow> open_lib e path O_RDONLY 0 s;
        if fd < 0 then Some (-1, None, set_errno EBADF s)
        else do {
          (ret, buf, s) \<leftarrow> fstat fd s;
          (_, s) \<leftarrow> close_lib e fd s;
          Some (ret, buf, s)
        }
      })"

text \<open>The initial ram disk: its entries as names with the bytes their size and offset denote.\<close>

fun init_initrd :: "'h env \<Rightarrow> (u8 list \<times> u8 list) list \<Rightarrow> 'h fs_st \<Rightarrow> 'h fs_st option" where
  "init_initrd e [] s = Some s"
| "init_initrd e ((name, bs) # fs) s = do {
     (fd, s) \<leftarrow> open_vfs e (Some name) (O_RDWR OR O_CREAT) S_IFREG s;
     (_, s) \<leftarrow> write_vfs e fd (Some bs) s;
     (_, s) \<leftarrow> close_vfs e fd s;
     init_initrd e fs s
   }"

section \<open>The list of files\<close>

fun vlist :: "(u32 \<Rightarrow> vfs_node_t) \<Rightarrow> u32 \<Rightarrow> u32 list \<Rightarrow> bool" where
  "vlist vs p [] \<longleftrightarrow> p = 0"
| "vlist vs p (n # ns) \<longleftrightarrow> p = n \<and> n \<noteq> 0 \<and> vlist vs (v_next (vs n)) ns"

lemma vlist_cong: "vlist vs p ns \<Longrightarrow> \<forall>n \<in> set ns. v_next (vs' n) = v_next (vs n) \<Longrightarrow> vlist vs' p ns"
  by (induction ns arbitrary: p) auto

lemma vlist_last: "vlist vs p ns \<Longrightarrow> ns \<noteq> [] \<Longrightarrow> last_vnode vs p = Some (last ns)"
proof (induction ns arbitrary: p)
  case (Cons n ns)
  show ?case
  proof (cases "ns = []")
    case True
    then show ?thesis using Cons.prems by (subst last_vnode.simps) simp
  next
    case False
    then have "v_next (vs n) \<noteq> 0" using Cons.prems by (cases ns) auto
    then show ?thesis using Cons False by (subst last_vnode.simps) simp
  qed
qed simp

lemma vlist_last_next: "vlist vs p ns \<Longrightarrow> ns \<noteq> [] \<Longrightarrow> v_next (vs (last ns)) = 0"
  by (induction ns arbitrary: p) auto

lemma vlist_snoc:
  assumes "vlist vs p ns" "distinct ns" "n \<noteq> 0" "n \<notin> set ns" "v_next (vs' n) = 0"
    "\<forall>m \<in> set ns. v_next (vs' m) = (if m = last ns then n else v_next (vs m))"
  shows "vlist vs' (if ns = [] then n else p) (ns @ [n])"
  using assms
proof (induction ns arbitrary: p)
  case (Cons m ns)
  show ?case
  proof (cases "ns = []")
    case True
    then show ?thesis using Cons.prems by auto
  next
    case False
    moreover have "last ns \<noteq> m" using Cons.prems(2) False by (metis distinct.simps(2) last_in_set)
    ultimately show ?thesis using Cons.IH [of "v_next (vs m)"] Cons.prems by auto
  qed
qed simp

lemma find_vnode_vlist:
  "vlist vs p ns \<Longrightarrow> find_vnode vs name p
     = Some (case List.find (\<lambda>n. st_dev (status (vs n)) \<noteq> DEVID_PIPE \<and> name = array_str (v_name (vs n))) ns of
               None \<Rightarrow> 0 | Some n \<Rightarrow> n)"
proof (induction ns arbitrary: p)
  case Nil
  then show ?case by (subst find_vnode.simps) simp
next
  case (Cons n ns)
  then show ?case by (subst find_vnode.simps) auto
qed

lemma find_append_none: "\<forall>x \<in> set xs. \<not> P x \<Longrightarrow> List.find P (xs @ ys) = List.find P ys"
  by (induction xs) auto

text \<open>The list of files is well formed and its nodes are the file system's own.\<close>

definition vfs_ok :: "('h \<Rightarrow> (nat \<times> nat) set) \<Rightarrow> 'h fs_st \<Rightarrow> u32 list \<Rightarrow> bool" where
  "vfs_ok used s ns \<longleftrightarrow> vlist (vnodes s) (vfs_root s) ns \<and> distinct ns \<and> (\<forall>n \<in> set ns. owns used s n)"

text \<open>Whether a node of the list answers to a name.\<close>

definition named :: "'h fs_st \<Rightarrow> u8 list \<Rightarrow> u32 \<Rightarrow> bool" where
  "named s name n \<longleftrightarrow> st_dev (status (vnodes s n)) \<noteq> DEVID_PIPE \<and> name = array_str (v_name (vnodes s n))"

lemma find_vnode_named:
  "vfs_ok used s ns \<Longrightarrow> find_vnode (vnodes s) name (vfs_root s)
     = Some (case List.find (named s name) ns of None \<Rightarrow> 0 | Some n \<Rightarrow> n)"
  unfolding vfs_ok_def named_def by (rule find_vnode_vlist) simp

lemma array_str_put_name_n:
  assumes "length cs \<le> 63" "0 \<notin> set cs" "length cs < 63 \<longrightarrow> nm (length cs) = 0"
  shows "array_str (put_name_n cs nm) = cs"
proof -
  let ?f = "put_name_n cs nm"
  have "map ?f [0..<64] = map ?f [0..<length cs] @ map ?f [length cs..<64]"
    using upt_add_eq_append [of 0 "length cs" "64 - length cs"] assms(1) by (simp flip: map_append)
  moreover have "map ?f [0..<length cs] = cs"
    using assms(1) by (intro nth_equalityI) (auto simp: put_name_n_def)
  moreover have "map ?f [length cs..<64] = ?f (length cs) # map ?f [Suc (length cs)..<64]"
    using assms(1) by (subst upt_conv_Cons) simp_all
  moreover have "?f (length cs) = 0" using assms(1,3) by (cases "length cs = 63") (auto simp: put_name_n_def)
  ultimately have "map ?f [0..<64] = cs @ 0 # map ?f [Suc (length cs)..<64]" by simp
  moreover have "\<forall>c \<in> set cs. c \<noteq> 0" using assms(2) by auto
  ultimately show ?thesis unfolding array_str_def by (simp only: takeWhile_append_stop not_not)
qed

section \<open>Creating\<close>

locale vfs_files = ramfs_files km kf used inv
  for km :: "'h \<Rightarrow> u32 \<Rightarrow> u32 \<times> 'h" and kf :: "'h \<Rightarrow> u32 \<Rightarrow> 'h"
    and used :: "'h \<Rightarrow> (nat \<times> nat) set" and inv :: "'h \<Rightarrow> bool" +
  fixes e :: "'h env"
  assumes e_km: "e_km e = km" and e_kf: "e_kf e = kf"
begin

text \<open>
  A new node is linked behind the last one. Its link is whatever memory held; clearing it makes
  the list well formed again.
\<close>

lemma append_vnode_cases:
  assumes "inv (hs s)" "vfs_ok used s ns"
  shows "\<exists>n b s'. append_vnode km s = Some (n, b, s') \<and> inv (hs s') \<and> (\<forall>x. owns used s x \<longrightarrow> owns used s' x)
     \<and> s' = s\<lparr>vnodes := vnodes s', vfs_root := vfs_root s', hs := hs s', errno := errno s'\<rparr>
     \<and> (n = 0 \<longrightarrow> errno s' = Some ENOMEM \<and> vfs_ok used s' ns)
     \<and> (n \<noteq> 0 \<longrightarrow> n \<notin> set ns \<and> owns used s' n \<and> \<not> owns used s n \<and> errno s' = errno s
         \<and> vnodes s' n = vnodes s n
         \<and> (\<forall>m. status (vnodes s' m) = status (vnodes s m) \<and> v_name (vnodes s' m) = v_name (vnodes s m))
         \<and> (\<forall>v. v_next v = 0 \<longrightarrow> vlist ((vnodes s')(n := v)) (vfs_root s') (ns @ [n])))"
proof -
  note ok = assms(2) [unfolded vfs_ok_def]
  obtain n s1 where n: "fs_kmalloc km 132 s = (n, s1)" by force
  then have n': "fs_kmalloc km (of_nat 132) s = (n, s1)" by simp
  note km = fs_kmalloc_cases [OF assms(1) _ _ n', simplified]
  have s1: "vnodes s1 = vnodes s" "vfs_root s1 = vfs_root s" by (subst km(1), simp)+
  have keep: "owns used s x \<Longrightarrow> owns used s1 x" for x using km(3) by (auto simp: owns_def)
  have fresh: "n \<noteq> 0 \<Longrightarrow> owns used s1 n \<and> \<not> owns used s n \<and> n \<notin> set ns \<and> errno s1 = errno s"
    using km(5) ok by (auto simp: owns_def)
  show ?thesis
  proof (cases "ns = []")
    case True
    then have root: "vfs_root s = 0" using ok by simp
    show ?thesis
    proof (cases "n = 0")
      case True
      have "s1 = s\<lparr>vnodes := vnodes s1, vfs_root := vfs_root s1, hs := hs s1, errno := errno s1\<rparr>"
        by (subst (1) km(1)) (simp add: s1)
      then show ?thesis
        using True root n km(2,4) keep ok s1
        by (intro exI [of _ 0] exI [of _ s1]) (auto simp: append_vnode_def vfs_ok_def)
    next
      case False
      define s2 where "s2 = s1\<lparr>vfs_root := n\<rparr>"
      have "s2 = s\<lparr>vnodes := vnodes s2, vfs_root := vfs_root s2, hs := hs s2, errno := errno s2\<rparr>"
        unfolding s2_def by (subst (1) km(1)) (simp add: s1)
      moreover have "append_vnode km s = Some (n, 0, s2)" using root n False by (simp add: append_vnode_def s2_def)
      moreover have "owns used s2 x = owns used s1 x" for x by (simp add: owns_def s2_def)
      ultimately show ?thesis
        using fresh False keep km(2) \<open>ns = []\<close>
        by (intro exI [of _ n] exI [of _ 0] exI [of _ s2] conjI) (auto simp: s2_def s1)
    qed
  next
    case False
    define l where "l = last ns"
    have root: "vfs_root s \<noteq> 0" using ok False by (cases ns) auto
    have l: "last_vnode (vnodes s) (vfs_root s) = Some l" "v_next (vnodes s l) = 0" "l \<in> set ns"
      using vlist_last [of "vnodes s" "vfs_root s" ns] vlist_last_next [of "vnodes s" "vfs_root s" ns] ok False
      by (simp_all add: l_def)
    define s2 where "s2 = set_vnode l (\<lambda>v. v\<lparr>v_next := n\<rparr>) s1"
    have ap: "append_vnode km s = Some (n, l, s2)" using root l(1) n by (simp add: append_vnode_def s2_def)
    have vs: "vnodes s2 = (vnodes s)(l := (vnodes s l)\<lparr>v_next := n\<rparr>)" by (simp add: s2_def set_vnode_def s1)
    have s2: "s2 = s\<lparr>vnodes := vnodes s2, vfs_root := vfs_root s2, hs := hs s2, errno := errno s2\<rparr>"
      unfolding s2_def set_vnode_def by (subst (1) km(1)) (simp add: s1)
    have s2': "vfs_root s2 = vfs_root s" "hs s2 = hs s1" "errno s2 = errno s1"
      by (simp_all add: s2_def set_vnode_def s1)
    have own: "owns used s2 x = owns used s1 x" for x by (simp add: owns_def s2')
    show ?thesis
    proof (cases "n = 0")
      case True
      then have "vnodes s2 = vnodes s" using vs l(2) by (simp add: fun_eq_iff)
      then have "vfs_ok used s2 ns" using ok own keep by (simp add: vfs_ok_def s2')
      then show ?thesis using ap True km(2,4) keep own s2' s2 by (intro exI [of _ n] exI [of _ l] exI [of _ s2]) simp
    next
      case n: False
      have "vlist ((vnodes s2)(n := v)) (vfs_root s2) (ns @ [n])" if "v_next v = 0" for v
      proof -
        have "\<forall>m \<in> set ns. v_next (((vnodes s2)(n := v)) m) = (if m = last ns then n else v_next (vnodes s m))"
          using fresh n by (auto simp: vs l_def)
        then show ?thesis
          using vlist_snoc [of "vnodes s" "vfs_root s" ns n "(vnodes s2)(n := v)"] ok n fresh False that
          by (simp add: s2')
      qed
      moreover have "vnodes s2 n = vnodes s n" using fresh n l(3) by (auto simp: vs)
      moreover have "status (vnodes s2 m) = status (vnodes s m)" "v_name (vnodes s2 m) = v_name (vnodes s m)" for m by (simp_all add: vs)
      ultimately show ?thesis
        using ap n fresh keep own km(2) s2 s2' by (intro exI [of _ n] exI [of _ l] exI [of _ s2]) simp
    qed
  qed
qed

lemma creat_ramfs_cases:
  assumes "inv (hs s)" "st_ino (status (vnodes s n)) = of_nat ino" "ino < 1024"
  shows "\<exists>r s'. creat_ramfs km n s = Some (r, s') \<and> inv (hs s') \<and> (\<forall>x. owns used s x \<longrightarrow> owns used s' x)
     \<and> vfs_root s' = vfs_root s \<and> files s' = files s
     \<and> vnodes s' = (vnodes s)(n := (vnodes s n)\<lparr>v_read := Some RAMFS, v_write := Some RAMFS, v_open := None,
                                v_close := None, v_lseek := None\<rparr>)
     \<and> (r = -1 \<and> errno s' = Some ENOSPC \<or> r = 1 \<and> owns used s' (ramfs_nodes s' ino))"
proof -
  define s1 where "s1 = set_vnode n (\<lambda>v. v\<lparr>v_read := Some RAMFS, v_write := Some RAMFS, v_open := None,
      v_close := None, v_lseek := None\<rparr>) s"
  have ino: "unat (st_ino (status (vnodes s1 n))) = ino"
    using assms(2,3) by (simp add: s1_def set_vnode_def unat_of_nat_u32)
  obtain p s2 where p: "fs_kmalloc km 260 s1 = (p, s2)" by force
  then have p': "fs_kmalloc km (of_nat 260) s1 = (p, s2)" by simp
  have inv1: "inv (hs s1)" using assms(1) by (simp add: s1_def set_vnode_def)
  note km = fs_kmalloc_cases [OF inv1 _ _ p', simplified]
  have own: "owns used s x \<Longrightarrow> owns used s2 x" for x using km(3) by (auto simp: owns_def s1_def set_vnode_def)
  have s2: "vfs_root s2 = vfs_root s" "files s2 = files s" "vnodes s2 = vnodes s1"
    by (subst km(1), simp add: s1_def set_vnode_def)+
  define s3 where "s3 = s2\<lparr>ramfs_nodes := (ramfs_nodes s2)(ino := p)\<rparr>"
  define s4 where "s4 = (if p = 0 then set_errno ENOSPC s3 else set_blk p zero_blk s3)"
  have "creat_ramfs km n s = Some (if p = 0 then -1 else 1, s4)"
    using p ino assms(3) unfolding creat_ramfs_def s1_def [symmetric] by (simp add: s3_def s4_def)
  moreover have "hs s4 = hs s2" "vfs_root s4 = vfs_root s2" "files s4 = files s2" "vnodes s4 = vnodes s2"
      "ramfs_nodes s4 ino = p" "p = 0 \<Longrightarrow> errno s4 = Some ENOSPC"
    by (simp_all add: s4_def s3_def fs_upds)
  moreover have "p \<noteq> 0 \<Longrightarrow> owns used s2 p" using km(5) by (auto simp: owns_def)
  ultimately show ?thesis
    using km(2) own s2 by (intro exI [of _ "if p = 0 then -1 else 1"] exI [of _ s4])
      (auto simp: owns_def s1_def set_vnode_def)
qed

end

text \<open>What it takes for a node to be a regular file of the RAM file system.\<close>

definition is_file :: "('h \<Rightarrow> (nat \<times> nat) set) \<Rightarrow> 'h fs_st \<Rightarrow> u32 \<Rightarrow> nat \<Rightarrow> bool" where
  "is_file used s n ino \<longleftrightarrow> ino < 1024 \<and> owns used s (ramfs_nodes s ino)
     \<and> st_ino (status (vnodes s n)) = of_nat ino \<and> st_dev (status (vnodes s n)) = DEVID_RAMFS
     \<and> st_mode (status (vnodes s n)) AND S_IFDIR = 0 \<and> v_read (vnodes s n) = Some RAMFS
     \<and> v_write (vnodes s n) = Some RAMFS \<and> v_open (vnodes s n) = None \<and> v_close (vnodes s n) = None
     \<and> v_lseek (vnodes s n) = None"

context vfs_files
begin

text \<open>
  Creating a regular file fails with a reason in \<open>errno\<close>, or gives the lowest free descriptor
  from 3 on, open for writing at the start of a new empty file at the end of the list; the other
  descriptors and the other files are as before.
\<close>

lemma append_vnode_node: "append_vnode km s = Some (n, b, s') \<Longrightarrow> n = fst (km (hs s) 132)"
  by (auto simp: append_vnode_def fs_kmalloc_def Let_def split: if_splits prod.splits Option.bind_splits)

lemma creat_vfs_regular:
  assumes "inv (hs s)" "vfs_ok used s ns" "mode AND S_IFREG \<noteq> 0" "mode AND S_IFDIR = 0"
    "ramfs_inodes s < 1024" "name \<noteq> []"
  shows "\<exists>r s'. creat_vfs e name mode s = Some (r, s') \<and> inv (hs s')
     \<and> (r = -1 \<and> errno s' \<in> {Some ENOMEM, Some ENOSPC, Some EMFILE} \<and> files s' = files s
        \<or> (\<exists>n. n = fst (km (hs s) 132) \<and> 3 \<le> r \<and> r < 32 \<and> vfs_node (files s (nat r)) = 0
             \<and> (\<forall>k. 3 \<le> k \<and> int k < r \<longrightarrow> vfs_node (files s k) \<noteq> 0)
             \<and> files s' = (files s)(nat r := \<lparr>vfs_node = n, at_off = 0, oflag = O_WRONLY\<rparr>)
             \<and> n \<notin> set ns \<and> vfs_ok used s' (ns @ [n]) \<and> is_file used s' n (unat (ramfs_inodes s))
             \<and> st_size (status (vnodes s' n)) = 0 \<and> v_name (vnodes s' n) = put_name_n name (v_name (vnodes s n))
             \<and> (\<forall>m nm. m \<in> set ns \<longrightarrow> named s' nm m = named s nm m)))"
proof -
  obtain n b s1 where s1: "append_vnode km s = Some (n, b, s1)" "inv (hs s1)"
      "\<forall>x. owns used s x \<longrightarrow> owns used s1 x"
      "s1 = s\<lparr>vnodes := vnodes s1, vfs_root := vfs_root s1, hs := hs s1, errno := errno s1\<rparr>"
      "n = 0 \<longrightarrow> errno s1 = Some ENOMEM \<and> vfs_ok used s1 ns"
      "n \<noteq> 0 \<longrightarrow> n \<notin> set ns \<and> owns used s1 n \<and> \<not> owns used s n \<and> errno s1 = errno s
         \<and> vnodes s1 n = vnodes s n
         \<and> (\<forall>m. status (vnodes s1 m) = status (vnodes s m) \<and> v_name (vnodes s1 m) = v_name (vnodes s m))
         \<and> (\<forall>v. v_next v = 0 \<longrightarrow> vlist ((vnodes s1)(n := v)) (vfs_root s1) (ns @ [n]))"
    using append_vnode_cases [OF assms(1,2)] by blast
  have f1: "files s1 = files s" "ramfs_inodes s1 = ramfs_inodes s" by (subst s1(4), simp)+
  show ?thesis
  proof (cases "n = 0")
    case True
    then show ?thesis using s1 f1 by (auto simp: creat_vfs_def e_km)
  next
    case n: False
    define md where "md = (if mode AND S_IPERM = 0 then mode OR S_IRWXUGO else mode)"
    have md: "md AND S_IFREG \<noteq> 0" "md AND S_IFDIR = 0"
      using assms(3,4) by (simp_all add: md_def bit.conj_disj_distrib2)
    define ino where "ino = unat (ramfs_inodes s)"
    have ino: "ino < 1024" "of_nat ino = ramfs_inodes s" using assms(5) by (simp_all add: ino_def word_less_nat_alt)
    define s2 where "s2 = set_vnode n (on_ramfs (ramfs_inodes s) RAMFS)
        ((set_vnode n (new_node name md) s1)\<lparr>ramfs_inodes := ramfs_inodes s + 1\<rparr>)"
    have s2: "hs s2 = hs s1" "vfs_root s2 = vfs_root s1" "files s2 = files s"
        "vnodes s2 = (vnodes s1)(n := on_ramfs (ramfs_inodes s) RAMFS (new_node name md (vnodes s n)))"
      using s1(6) n f1 by (simp_all add: s2_def set_vnode_def)
    have own2: "owns used s2 x = owns used s1 x" for x by (simp add: owns_def s2)
    obtain r s3 where s3: "creat_ramfs km n s2 = Some (r, s3)" "inv (hs s3)" "\<forall>x. owns used s2 x \<longrightarrow> owns used s3 x"
        "vfs_root s3 = vfs_root s2" "files s3 = files s2"
        "vnodes s3 = (vnodes s2)(n := (vnodes s2 n)\<lparr>v_read := Some RAMFS, v_write := Some RAMFS, v_open := None,
            v_close := None, v_lseek := None\<rparr>)"
        "r = -1 \<and> errno s3 = Some ENOSPC \<or> r = 1 \<and> owns used s3 (ramfs_nodes s3 ino)"
      using creat_ramfs_cases [of s2 n ino] s1(2) ino by (auto simp: s2 on_ramfs_def)
    obtain fd where fd: "get_free_fd 3 s3 = Some fd"
        "fd = -1 \<or> 3 \<le> fd \<and> fd < 32 \<and> vfs_node (files s (nat fd)) = 0
           \<and> (\<forall>k. 3 \<le> int k \<and> int k < fd \<longrightarrow> vfs_node (files s k) \<noteq> 0)"
      using get_free_fd_cases [of 3 s3] s3(5) s2(3) by auto
    have run: "creat_vfs e name mode s = (if r < 0 then Some (-1, s3) else if fd < 0 then fail EMFILE s3
        else Some (fd, set_file (nat fd) (\<lambda>_. \<lparr>vfs_node = n, at_off = 0, oflag = O_WRONLY\<rparr>) s3))"
      using s1(1) n md s3(1) fd(1) f1 assms(6) unfolding creat_vfs_def e_km md_def [symmetric]
      by (simp add: Let_def call_creat_def e_km s2_def set_vnode_def)
    show ?thesis
    proof (cases "r = 1 \<and> fd \<noteq> -1")
      case False
      then show ?thesis using run s3 fd s2(3) by (auto simp: set_errno_def)
    next
      case True
      define s4 where "s4 = set_file (nat fd) (\<lambda>_. \<lparr>vfs_node = n, at_off = 0, oflag = O_WRONLY\<rparr>) s3"
      define v where "v = (on_ramfs (ramfs_inodes s) RAMFS (new_node name md (vnodes s n)))
          \<lparr>v_read := Some RAMFS, v_write := Some RAMFS, v_open := None, v_close := None, v_lseek := None\<rparr>"
      have s4: "hs s4 = hs s3" "vfs_root s4 = vfs_root s1" "vnodes s4 = (vnodes s1)(n := v)"
          "ramfs_nodes s4 = ramfs_nodes s3"
          "files s4 = (files s)(nat fd := \<lparr>vfs_node = n, at_off = 0, oflag = O_WRONLY\<rparr>)"
        using s3(4,5,6) s2 by (simp_all add: s4_def set_file_def v_def)
      have own: "owns used s1 x \<Longrightarrow> owns used s4 x" "owns used s4 x = owns used s3 x" for x
        using s3(3) own2 by (simp_all add: owns_def s4)
      have "v_next v = 0" by (simp add: v_def on_ramfs_def new_node_def)
      then have "vfs_ok used s4 (ns @ [n])"
        using s1(3,6) n own(1) assms(2) by (auto simp: vfs_ok_def s4)
      moreover have "is_file used s4 n ino"
        using True s3(7) ino md(2) own(2) by (auto simp: is_file_def s4 v_def on_ramfs_def new_node_def)
      moreover have "named s4 nm m = named s nm m" if "m \<in> set ns" for nm m
        using that s1(6) n by (auto simp: named_def s4)
      moreover have "st_size (status (vnodes s4 n)) = 0" "v_name (vnodes s4 n) = put_name_n name (v_name (vnodes s n))"
        by (simp_all add: s4 v_def on_ramfs_def new_node_def)
      moreover have "creat_vfs e name mode s = Some (fd, s4)" "inv (hs s4)"
        using run True fd(2) s3(2) s4(1) by (auto simp: s4_def)
      ultimately show ?thesis
        using True fd(2) s1(6) n s4(5) append_vnode_node [OF s1(1)]
        by (intro exI [of _ fd] exI [of _ s4]) (auto simp: ino_def)
    qed
  qed
qed

lemma write_vfs_file:
  assumes "inv (hs s)" "is_file used s n ino" "n \<noteq> 0" "0 \<le> fd" "fd < 32" "buf \<noteq> []" "length buf < 2147483648"
    "files s (nat fd) = \<lparr>vfs_node = n, at_off = 0, oflag = fl\<rparr>" "fl AND O_WRONLY \<noteq> 0"
  shows "\<exists>k s'. write_vfs e fd (Some buf) s = Some (int k, s') \<and> 0 < k \<and> k \<le> length buf
     \<and> (k < length buf \<longrightarrow> errno s' = Some ENOMEM) \<and> inv (hs s') \<and> (\<forall>x. owns used s x \<longrightarrow> owns used s' x)
     \<and> blk_read_loop (blks s') k 0 (ramfs_nodes s ino) = Some (take k buf)
     \<and> only_blocks (ramfs_count (nat fd) n (of_nat k) s) s'"
proof -
  have "write_vfs e fd (Some buf) s = write_ramfs km (nat fd) buf s"
    using assms by (simp add: write_vfs_def bad_fd_def call_write_def is_file_def e_km)
  then show ?thesis
    using write_ramfs_stores [of s ino 0 buf "nat fd" n] assms by (auto simp: is_file_def)
qed

lemma read_vfs_file:
  assumes "is_file used s n ino" "n \<noteq> 0" "0 \<le> fd" "fd < 32" "m < 4294967296" "k < 2147483648"
    "files s (nat fd) = \<lparr>vfs_node = n, at_off = 0, oflag = fl\<rparr>" "fl AND O_RDONLY \<noteq> 0"
    "st_size (status (vnodes s n)) = of_nat k" "blk_read_loop (blks s) k 0 (ramfs_nodes s ino) = Some bs"
  shows "\<exists>s'. read_vfs e fd True (of_nat m) s = Some (int (min m k), map Some (take m bs), s')"
proof (cases "m = 0")
  case True
  then show ?thesis using assms by (simp add: read_vfs_def bad_fd_def is_file_def)
next
  case False
  then have "(of_nat m :: u32) \<noteq> 0" using assms(5) by (metis unat_0 unat_of_nat_u32)
  then have "read_vfs e fd True (of_nat m) s
      = map_option (\<lambda>(r, bs, s). (r, map Some bs, s)) (read_ramfs (nat fd) (of_nat m) s)"
    using assms by (simp add: read_vfs_def bad_fd_def is_file_def call_read_def)
  moreover have "read_ramfs (nat fd) (of_nat m) s = Some (int (min m k), take m bs,
      set_file (nat fd) (\<lambda>f. f\<lparr>at_off := at_off f + of_nat (min m k)\<rparr>) s)"
    using assms by (intro read_ramfs_gives [where node = n and ino = ino and a = 0]) (simp_all add: is_file_def)
  ultimately show ?thesis by simp
qed

text \<open>Opening a regular file for reading gives the lowest free descriptor, at its start.\<close>

lemma open_vfs_file:
  assumes "vfs_ok used s ns" "List.find (named s name) ns = Some n" "is_file used s n ino"
    "fl AND (O_CREAT OR O_EXCL) \<noteq> O_CREAT OR O_EXCL" "3 \<le> fd" "fd < 32"
    "vfs_node (files s (nat fd)) = 0" "\<forall>k. 3 \<le> k \<and> int k < fd \<longrightarrow> vfs_node (files s k) \<noteq> 0"
  shows "open_vfs e (Some name) fl mode s
     = Some (fd, set_file (nat fd) (\<lambda>_. \<lparr>vfs_node = n, at_off = 0, oflag = fl\<rparr>) s)"
proof -
  have n: "n \<noteq> 0" using assms(1,2) by (auto simp: vfs_ok_def owns_def find_Some_iff)
  obtain r where r: "get_free_fd 3 s = Some r" "r = -1 \<and> (\<forall>k. 3 \<le> int k \<and> k < 32 \<longrightarrow> vfs_node (files s k) \<noteq> 0)
      \<or> 3 \<le> r \<and> r < 32 \<and> vfs_node (files s (nat r)) = 0 \<and> (\<forall>k. 3 \<le> int k \<and> int k < r \<longrightarrow> vfs_node (files s k) \<noteq> 0)"
    using get_free_fd_cases [of 3 s] by auto
  have fdn: "3 \<le> int (nat fd)" "nat fd < 32" "int (nat fd) = fd" using assms(5,6) by auto
  then have free: "3 \<le> r" "r < 32" "vfs_node (files s (nat r)) = 0"
      "\<forall>k. 3 \<le> int k \<and> int k < r \<longrightarrow> vfs_node (files s k) \<noteq> 0"
    using r(2) assms(7) by blast+
  have "\<not> fd < r" using free(4) fdn assms(7) by metis
  moreover have "\<not> r < fd" using assms(8) [rule_format, of "nat r"] free(1,3) by (auto simp: le_nat_iff)
  ultimately have "r = fd" by simp
  then show ?thesis
    using find_vnode_named [OF assms(1), of name] assms(2-5) n r(1) by (simp add: open_vfs_def is_file_def)
qed

text \<open>
  A file that is created, written and closed can be opened by its name and read back.
\<close>

lemma create_write_open_read:
  assumes "inv (hs s)" "vfs_ok used s ns" "mode AND S_IFREG \<noteq> 0" "mode AND S_IFDIR = 0" "ramfs_inodes s < 1024" "name \<noteq> []"
    "length name \<le> 63" "0 \<notin> set name" "length name < 63 \<longrightarrow> v_name (vnodes s (fst (km (hs s) 132))) (length name) = 0"
    "\<forall>m \<in> set ns. \<not> named s name m" "buf \<noteq> []" "length buf < 2147483648"
    "creat_vfs e name mode s = Some (fd, s1)" "0 \<le> fd"
  shows "\<exists>k s2 s3 s4. write_vfs e fd (Some buf) s1 = Some (int k, s2) \<and> 0 < k \<and> k \<le> length buf
     \<and> (k < length buf \<longrightarrow> errno s2 = Some ENOMEM)
     \<and> close_vfs e fd s2 = Some (0, s3) \<and> open_vfs e (Some name) O_RDONLY 0 s3 = Some (fd, s4)
     \<and> (\<forall>m < 4294967296. \<exists>s5. read_vfs e fd True (of_nat m) s4
          = Some (int (min m k), map Some (take m (take k buf)), s5))"
proof -
  define ino where "ino = unat (ramfs_inodes s)"
  obtain n where n_eq: "n = fst (km (hs s) 132)" and n: "3 \<le> fd" "fd < 32" "vfs_node (files s (nat fd)) = 0"
      "\<forall>k. 3 \<le> k \<and> int k < fd \<longrightarrow> vfs_node (files s k) \<noteq> 0"
      "files s1 = (files s)(nat fd := \<lparr>vfs_node = n, at_off = 0, oflag = O_WRONLY\<rparr>)"
      "n \<notin> set ns" "vfs_ok used s1 (ns @ [n])" "is_file used s1 n ino"
      "st_size (status (vnodes s1 n)) = 0" "v_name (vnodes s1 n) = put_name_n name (v_name (vnodes s n))"
      "\<forall>m nm. m \<in> set ns \<longrightarrow> named s1 nm m = named s nm m" "inv (hs s1)"
    using creat_vfs_regular [OF assms(1-6)] assms(13,14) by (auto simp: ino_def)
  have n0: "n \<noteq> 0" using n(7) by (simp add: vfs_ok_def owns_def)
  obtain k s2 where k: "write_vfs e fd (Some buf) s1 = Some (int k, s2)" "0 < k" "k \<le> length buf"
      "k < length buf \<longrightarrow> errno s2 = Some ENOMEM" "\<forall>x. owns used s1 x \<longrightarrow> owns used s2 x"
      "blk_read_loop (blks s2) k 0 (ramfs_nodes s1 ino) = Some (take k buf)"
      "only_blocks (ramfs_count (nat fd) n (of_nat k) s1) s2"
  proof -
    have "files s1 (nat fd) = \<lparr>vfs_node = n, at_off = 0, oflag = O_WRONLY\<rparr>" "0 \<le> fd" "O_WRONLY AND O_WRONLY \<noteq> 0"
      using n(1,5) by simp_all
    from write_vfs_file [OF n(12,8) n0 this(2) n(2) assms(11,12) this(1,3)] show thesis
      by (elim exE conjE) (rule that)
  qed
  note books = ramfs_count_books [OF k(7)]
  define s3 where "s3 = set_file (nat fd) (\<lambda>_. \<lparr>vfs_node = 0, at_off = 0, oflag = 0\<rparr>) s2"
  have close: "close_vfs e fd s2 = Some (0, s3)"
    using n(1,2,5,8) n0 by (simp add: close_vfs_def bad_fd_def books is_file_def add_size_def s3_def)
  have s3: "vnodes s3 = (vnodes s1)(n := add_size (of_nat k) (vnodes s1 n))" "vfs_root s3 = vfs_root s1"
      "ramfs_nodes s3 = ramfs_nodes s1" "blks s3 = blks s2" "hs s3 = hs s2"
      "files s3 = (files s)(nat fd := \<lparr>vfs_node = 0, at_off = 0, oflag = 0\<rparr>)"
    by (simp_all add: s3_def set_file_def books n(5))
  have own: "owns used s1 x \<Longrightarrow> owns used s3 x" for x using k(5) by (auto simp: owns_def s3)
  have file3: "is_file used s3 n ino" using n(8) own by (simp add: is_file_def s3 add_size_def)
  have "vlist (vnodes s3) (vfs_root s3) (ns @ [n])"
    using n(7) by (fastforce simp: vfs_ok_def s3 add_size_def elim: vlist_cong)
  then have ok3: "vfs_ok used s3 (ns @ [n])" using n(7) own by (auto simp: vfs_ok_def)
  have "named s3 name m = named s name m" if "m \<in> set ns" for m
    using n(6,11) that by (auto simp: named_def s3)
  moreover have "named s3 name n"
    using n(8,10) assms(7-9) n_eq by (simp add: named_def s3 add_size_def is_file_def array_str_put_name_n)
  ultimately have fnd: "List.find (named s3 name) (ns @ [n]) = Some n"
    using assms(10) by (simp add: find_append_none)
  define s4 where "s4 = set_file (nat fd) (\<lambda>_. \<lparr>vfs_node = n, at_off = 0, oflag = O_RDONLY\<rparr>) s3"
  have opn: "open_vfs e (Some name) O_RDONLY 0 s3 = Some (fd, s4)"
    unfolding s4_def using n(1-4) by (intro open_vfs_file [OF ok3 fnd file3]) (auto simp: s3)
  have "\<exists>s5. read_vfs e fd True (of_nat m) s4 = Some (int (min m k), map Some (take m (take k buf)), s5)"
    if m: "m < 4294967296" for m
    using read_vfs_file [of s4 n ino fd m k O_RDONLY "take k buf"] file3 n0 n(1,2,9) m k(3,6) assms(12)
    by (simp add: s4_def set_file_def is_file_def owns_def s3 add_size_def)
  then show ?thesis using k close opn by blast
qed

end

end
