(* ===== verification/Frames.thy ===== *)
theory Frames
  imports Prelude
begin

text \<open>
  The physical frame allocator of \<^verbatim>\<open>kernel/src/mm/paging.c\<close>: a bitmap with one bit per 4 KiB
  frame. \<open>frames\<close> is the array of the source, indexed by \<open>frame_index\<close>; the abstraction
  \<open>frame_used\<close> reads it as a predicate on frame numbers, and every operation is shown to act on
  that predicate as its name says. The array of the source has
  \<open>0xFFFFFFFF/4096/32 = 32767\<close> entries; \<open>frame_in_array\<close> says that an address falls into it.
  The locale \<open>frame_allocator\<close> is the contract the page-table code relies on.
\<close>

section \<open>State\<close>

record frames_st =
  frames :: "nat \<Rightarrow> u32"
  memsize :: u32
  kerrno :: "errno option"

abbreviation (input) PAGE_SIZE :: u32 where "PAGE_SIZE \<equiv> 4096"

definition frame_index :: "u32 \<Rightarrow> nat" where
  "frame_index a = unat a div 32"

definition frame_offset :: "u32 \<Rightarrow> nat" where
  "frame_offset a = unat a mod 32"

section \<open>Operations\<close>

definition set_frame :: "u32 \<Rightarrow> 'z frames_st_scheme \<Rightarrow> 'z frames_st_scheme" where
  "set_frame frame s =
     (let frame = drop_bit 12 frame; i = frame_index frame in
      s\<lparr>frames := (frames s)(i := frames s i OR push_bit (frame_offset frame) 1)\<rparr>)"

definition clear_frame :: "u32 \<Rightarrow> 'z frames_st_scheme \<Rightarrow> 'z frames_st_scheme" where
  "clear_frame frame s =
     (let frame = drop_bit 12 frame; i = frame_index frame in
      s\<lparr>frames := (frames s)(i := frames s i AND NOT (push_bit (frame_offset frame) 1))\<rparr>)"

text \<open>The inner loop over the 32 bits of one entry, from bit \<open>j\<close> on.\<close>

function find_free_bit :: "u32 \<Rightarrow> nat \<Rightarrow> nat option" where
  "find_free_bit w j =
     (if j < 32 then (if w AND push_bit j 1 = 0 then Some j else find_free_bit w (j + 1)) else None)"
  by pat_completeness auto
termination by (relation "measure (\<lambda>(w, j). 32 - j)") auto

declare find_free_bit.simps [simp del]

text \<open>The outer loop over the entries, from entry \<open>i\<close> on.\<close>

function find_free_from :: "(nat \<Rightarrow> u32) \<Rightarrow> nat \<Rightarrow> nat \<Rightarrow> u32" where
  "find_free_from fr lim i =
     (if i < lim then
        (if fr i \<noteq> 0xFFFFFFFF then
           (case find_free_bit (fr i) 0 of
              Some j \<Rightarrow> push_bit 12 (of_nat (i * 32 + j))
            | None \<Rightarrow> find_free_from fr lim (i + 1))
         else find_free_from fr lim (i + 1))
      else - 1)"
  by pat_completeness auto
termination by (relation "measure (\<lambda>(fr, lim, i). lim - i)") auto

declare find_free_from.simps [simp del]

definition find_free_frame :: "'z frames_st_scheme \<Rightarrow> u32" where
  "find_free_frame s = find_free_from (frames s) (frame_index (memsize s)) 0"

text \<open>The source compares the masked word with 1, not with 0.\<close>

definition get_used_frames :: "'z frames_st_scheme \<Rightarrow> u32" where
  "get_used_frames s =
     (\<Sum>i \<leftarrow> [0..<frame_index (memsize s)]. \<Sum>j \<leftarrow> [0..<32].
        if frames s i AND push_bit j 1 = 1 then 1 else 0)"

definition frame_alloc :: "'z frames_st_scheme \<Rightarrow> u32 \<times> 'z frames_st_scheme" where
  "frame_alloc s =
     (let addr = find_free_frame s in
      if addr = - 1 then (0, s\<lparr>kerrno := Some ENOMEM\<rparr>) else (addr, set_frame addr s))"

definition frame_free :: "u32 \<Rightarrow> 'z frames_st_scheme \<Rightarrow> 'z frames_st_scheme" where
  "frame_free addr s = clear_frame addr s"

section \<open>The bitmap as a set of frame numbers\<close>

definition frame_used :: "'z frames_st_scheme \<Rightarrow> nat \<Rightarrow> bool" where
  "frame_used s n \<longleftrightarrow> bit (frames s (n div 32)) (n mod 32)"

definition nframes :: "'z frames_st_scheme \<Rightarrow> nat" where
  "nframes s = 32 * (unat (memsize s) div 32)"

definition frame_no :: "u32 \<Rightarrow> nat" where
  "frame_no a = unat a div 4096"

definition frame_addr :: "nat \<Rightarrow> u32" where
  "frame_addr n = push_bit 12 (of_nat n)"

definition frame_in_array :: "u32 \<Rightarrow> bool" where
  "frame_in_array a \<longleftrightarrow> frame_no a div 32 < 32767"

lemma unat_drop_12: "unat (drop_bit 12 (a :: u32)) = unat a div 4096"
  by (simp add: drop_bit_eq_div unat_div_distrib)

lemma masked_bit_eq_0: "w AND push_bit j 1 = 0 \<longleftrightarrow> \<not> bit (w :: u32) j" if "j < 32"
proof -
  have "bit (w AND push_bit j 1) n \<longleftrightarrow> bit w j \<and> n = j" for n
    using that by (auto simp: bit_simps)
  then show ?thesis by (metis bit_eqI bit_0_eq bot_apply bot_bool_def zero_and_eq)
qed

lemma masked_power_eq_0: "j < 32 \<Longrightarrow> w AND 2 ^ j = 0 \<longleftrightarrow> \<not> bit (w :: u32) j"
  using masked_bit_eq_0 [of j w] by simp

lemma frame_used_set_frame [frame_simps]:
  "frame_used (set_frame a s) n \<longleftrightarrow> frame_used s n \<or> n = frame_no a"
proof -
  have "n div 32 = frame_no a div 32 \<and> n mod 32 = frame_no a mod 32 \<longleftrightarrow> n = frame_no a"
    by (metis div_mult_mod_eq)
  moreover have "m mod 32 < LENGTH(32)" for m :: nat by simp
  ultimately show ?thesis
    by (auto simp: frame_used_def set_frame_def Let_def frame_index_def frame_offset_def
        unat_drop_12 frame_no_def bit_simps)
qed

lemma frame_used_clear_frame [frame_simps]:
  "frame_used (clear_frame a s) n \<longleftrightarrow> frame_used s n \<and> n \<noteq> frame_no a"
proof -
  have "n div 32 = frame_no a div 32 \<and> n mod 32 = frame_no a mod 32 \<longleftrightarrow> n = frame_no a"
    by (metis div_mult_mod_eq)
  moreover have "m mod 32 < LENGTH(32)" for m :: nat by simp
  ultimately show ?thesis
    by (auto simp: frame_used_def clear_frame_def Let_def frame_index_def frame_offset_def
        unat_drop_12 frame_no_def bit_simps)
qed

lemma set_frame_other [simp]:
  "memsize (set_frame a s) = memsize s" "kerrno (set_frame a s) = kerrno s"
  "frames_st.more (set_frame a s) = frames_st.more s"
  by (simp_all add: set_frame_def Let_def)

lemma clear_frame_other [simp]:
  "memsize (clear_frame a s) = memsize s" "kerrno (clear_frame a s) = kerrno s"
  "frames_st.more (clear_frame a s) = frames_st.more s"
  by (simp_all add: clear_frame_def Let_def)

section \<open>Finding a free frame\<close>

lemma find_free_bit_Some:
  "find_free_bit w j = Some k \<longleftrightarrow> j \<le> k \<and> k < 32 \<and> \<not> bit w k \<and> (\<forall>l. j \<le> l \<and> l < k \<longrightarrow> bit w l)"
proof (induction w j rule: find_free_bit.induct)
  case (1 w j)
  show ?case
  proof (cases "j < 32 \<and> bit w j")
    case True
    then show ?thesis using 1
      by (subst find_free_bit.simps)
        (auto simp: masked_power_eq_0 Suc_le_eq intro: le_neq_implies_less dest: le_imp_less_or_eq)
  next
    case False
    then show ?thesis
      by (subst find_free_bit.simps) (auto simp: masked_power_eq_0 dest: le_imp_less_or_eq)
  qed
qed

lemma find_free_bit_None: "find_free_bit w j = None \<longleftrightarrow> (\<forall>l. j \<le> l \<and> l < 32 \<longrightarrow> bit w l)"
proof (induction w j rule: find_free_bit.induct)
  case (1 w j)
  show ?case
    by (subst find_free_bit.simps)
      (use 1 in \<open>auto simp: masked_power_eq_0 Suc_le_eq dest: le_imp_less_or_eq\<close>)
qed

text \<open>The test \<open>frames[i] != 0xFFFFFFFF\<close> only skips entries without a clear bit.\<close>

lemma full_entry: "w = 0xFFFFFFFF \<longleftrightarrow> find_free_bit w 0 = None"
proof -
  have "w = - 1 \<longleftrightarrow> (\<forall>l<32. bit w l)"
    by (auto simp: bit_eq_iff bit_simps dest: bit_imp_le_length)
  moreover have "(0xFFFFFFFF :: u32) = - 1" by simp
  ultimately show ?thesis unfolding find_free_bit_None by (metis le0)
qed

lemma find_free_from_step:
  "find_free_from fr lim i =
     (if i < lim then
        (case find_free_bit (fr i) 0 of
           Some j \<Rightarrow> push_bit 12 (of_nat (i * 32 + j))
         | None \<Rightarrow> find_free_from fr lim (i + 1))
      else - 1)"
  using full_entry [of "fr i"] by (subst find_free_from.simps) auto

text \<open>The lowest clear bit at or after \<open>i * 32\<close>, as a search over frame numbers.\<close>

lemma find_free_from_spec:
  "(\<exists>n. 32 * i \<le> n \<and> n < 32 * lim \<and> \<not> bit (fr (n div 32)) (n mod 32)
      \<and> (\<forall>k. 32 * i \<le> k \<and> k < n \<longrightarrow> bit (fr (k div 32)) (k mod 32))
      \<and> find_free_from fr lim i = frame_addr n)
   \<or> (\<forall>k. 32 * i \<le> k \<and> k < 32 * lim \<longrightarrow> bit (fr (k div 32)) (k mod 32))
      \<and> find_free_from fr lim i = - 1"
proof (induction fr lim i rule: find_free_from.induct)
  case (1 fr lim i)
  have entry: "k div 32 = i \<and> k mod 32 = k - 32 * i" if "32 * i \<le> k" "k < 32 * Suc i" for k
    using that by (metis div_nat_eqI minus_mod_eq_mult_div minus_mult_div_eq_mod mult.commute)
  show ?case
  proof (cases "find_free_bit (fr i) 0")
    case None
    then have full: "bit (fr (k div 32)) (k mod 32)" if "32 * i \<le> k" "k < 32 * Suc i" for k
      using entry [OF that] that by (auto simp: find_free_bit_None)
    show ?thesis
    proof (cases "i < lim")
      case True
      then have eq: "find_free_from fr lim i = find_free_from fr lim (i + 1)"
        using None by (subst find_free_from_step) simp
      have IH: "?thesis" if "(\<exists>n. 32 * (i + 1) \<le> n \<and> n < 32 * lim \<and> \<not> bit (fr (n div 32)) (n mod 32)
            \<and> (\<forall>k. 32 * (i + 1) \<le> k \<and> k < n \<longrightarrow> bit (fr (k div 32)) (k mod 32))
            \<and> find_free_from fr lim (i + 1) = frame_addr n)
         \<or> (\<forall>k. 32 * (i + 1) \<le> k \<and> k < 32 * lim \<longrightarrow> bit (fr (k div 32)) (k mod 32))
            \<and> find_free_from fr lim (i + 1) = - 1"
        using that full unfolding eq
        by (smt (verit) Suc_eq_plus1 add_leD1 linorder_not_less mult.commute mult_Suc_right
            add.commute nle_le order.trans le_add2)
      show ?thesis
      proof (cases "fr i = 0xFFFFFFFF")
        case True
        then show ?thesis using IH 1(2) \<open>i < lim\<close> by blast
      next
        case False
        then show ?thesis using IH 1(1) \<open>i < lim\<close> None by blast
      qed
    next
      case False
      then show ?thesis by (subst (1 2) find_free_from_step) auto
    qed
  next
    case (Some j)
    show ?thesis
    proof (cases "i < lim")
      case True
      have j: "j < 32" "\<not> bit (fr i) j" "\<forall>l<j. bit (fr i) l"
        using Some by (auto simp: find_free_bit_Some)
      have "find_free_from fr lim i = frame_addr (i * 32 + j)"
        using Some True by (subst find_free_from_step) (simp add: frame_addr_def)
      moreover have "bit (fr (k div 32)) (k mod 32)" if "32 * i \<le> k" "k < i * 32 + j" for k
        using entry [of k] that j by auto
      ultimately show ?thesis using True j
        by (intro disjI1 exI [of _ "i * 32 + j"]) auto
    next
      case False
      then show ?thesis by (subst (1 2) find_free_from_step) auto
    qed
  qed
qed

lemma frame_no_addr: "n < 2 ^ 20 \<Longrightarrow> frame_no (frame_addr n) = n"
  by (simp add: frame_no_def frame_addr_def push_bit_eq_mult unat_word_ariths unat_of_nat)

lemma frame_addr_aligned: "n < 2 ^ 20 \<Longrightarrow> unat (frame_addr n) = 4096 * n"
  by (simp add: frame_addr_def push_bit_eq_mult unat_word_ariths unat_of_nat)

lemma frame_addr_neq: "n < 2 ^ 20 \<Longrightarrow> frame_addr n \<noteq> - 1"
proof
  assume n: "n < 2 ^ 20" and "frame_addr n = - 1"
  then have "4096 * n = unat (- 1 :: u32)" using frame_addr_aligned by metis
  moreover have "unat (- 1 :: u32) = 4294967295"
    by (simp add: unsigned_minus_1_eq_mask mask_eq_exp_minus_1)
  moreover have "even (4096 * n)" and "odd (4294967295 :: nat)" by simp_all
  ultimately show False by metis
qed

definition frames_ok :: "'z frames_st_scheme \<Rightarrow> bool" where
  "frames_ok s \<longleftrightarrow> unat (memsize s) \<le> 2 ^ 20"

lemma nframes_le: "frames_ok s \<Longrightarrow> nframes s \<le> 2 ^ 20"
  by (simp add: frames_ok_def nframes_def)

lemma find_free_frame_spec:
  "(\<exists>n < nframes s. \<not> frame_used s n \<and> (\<forall>k<n. frame_used s k) \<and> find_free_frame s = frame_addr n)
   \<or> (\<forall>k < nframes s. frame_used s k) \<and> find_free_frame s = - 1"
  using find_free_from_spec [of 0 "frame_index (memsize s)" "frames s"]
  by (auto simp: find_free_frame_def nframes_def frame_used_def frame_index_def)

lemma frame_alloc_Some:
  assumes "frames_ok s" "k < nframes s" "\<not> frame_used s k"
  shows "\<exists>n < nframes s. n \<le> k \<and> \<not> frame_used s n \<and> (\<forall>l<n. frame_used s l)
     \<and> frame_alloc s = (frame_addr n, set_frame (frame_addr n) s)"
proof -
  obtain n where n: "n < nframes s" "\<not> frame_used s n" "\<forall>l<n. frame_used s l"
      "find_free_frame s = frame_addr n"
    using find_free_frame_spec [of s] assms by blast
  then have "frame_addr n \<noteq> - 1" using nframes_le [OF assms(1)] by (intro frame_addr_neq) simp
  then show ?thesis
    using n assms(3) by (intro exI [of _ n]) (auto simp: frame_alloc_def Let_def not_less [symmetric])
qed

lemma frame_alloc_None:
  assumes "\<forall>k < nframes s. frame_used s k"
  shows "frame_alloc s = (0, s\<lparr>kerrno := Some ENOMEM\<rparr>)"
  using find_free_frame_spec [of s] assms by (auto simp: frame_alloc_def Let_def)

lemma frame_alloc_more [simp]: "frames_st.more (snd (frame_alloc s)) = frames_st.more s"
  and frame_alloc_memsize [simp]: "memsize (snd (frame_alloc s)) = memsize s"
  by (simp_all add: frame_alloc_def Let_def)

lemma frames_ok_upd [simp]:
  "frames_ok (set_frame a s) = frames_ok s" "frames_ok (frame_free a s) = frames_ok s"
  "frames_ok (snd (frame_alloc s)) = frames_ok s"
  by (simp_all add: frames_ok_def frame_free_def)

lemma nframes_upd [simp]:
  "nframes (set_frame a s) = nframes s" "nframes (frame_free a s) = nframes s"
  "nframes (snd (frame_alloc s)) = nframes s"
  by (simp_all add: nframes_def frame_free_def)

section \<open>The contract of a frame allocator\<close>

locale frame_allocator =
  fixes alloc :: "'s \<Rightarrow> u32 \<times> 's"
    and free :: "u32 \<Rightarrow> 's \<Rightarrow> 's"
    and used :: "'s \<Rightarrow> nat \<Rightarrow> bool"
    and total :: "'s \<Rightarrow> nat"
    and ok :: "'s \<Rightarrow> bool"
  assumes total_le: "ok s \<Longrightarrow> total s \<le> 2 ^ 20"
    and alloc_ok: "ok s \<Longrightarrow> k < total s \<Longrightarrow> \<not> used s k \<Longrightarrow>
      \<exists>n s'. alloc s = (frame_addr n, s') \<and> n < total s \<and> \<not> used s n \<and> (\<forall>l<n. used s l)
        \<and> ok s' \<and> total s' = total s \<and> (\<forall>l. used s' l \<longleftrightarrow> used s l \<or> l = n)"
    and alloc_full: "ok s \<Longrightarrow> \<forall>k < total s. used s k \<Longrightarrow> fst (alloc s) = 0"
    and free_used: "ok s \<Longrightarrow> used (free a s) n \<longleftrightarrow> used s n \<and> n \<noteq> frame_no a"
    and free_ok: "ok s \<Longrightarrow> ok (free a s) \<and> total (free a s) = total s"
begin

text \<open>A frame in use is never handed out, and two allocations in a row differ.\<close>

lemma alloc_not_used:
  assumes "ok s" "k < total s" "\<not> used s k"
  shows "\<not> used s (frame_no (fst (alloc s)))"
  using alloc_ok [OF assms] total_le [OF assms(1)] by (auto simp: frame_no_addr)

lemma alloc_twice_distinct:
  assumes "ok s" "k < total s" "l < total s" "k \<noteq> l" "\<not> used s k" "\<not> used s l"
  shows "frame_no (fst (alloc s)) \<noteq> frame_no (fst (alloc (snd (alloc s))))"
proof -
  obtain n s' where n: "alloc s = (frame_addr n, s')" "n < total s" "ok s'" "total s' = total s"
      "\<forall>l. used s' l \<longleftrightarrow> used s l \<or> l = n"
    using alloc_ok [OF assms(1,2,5)] by blast
  then obtain j where "j < total s'" "\<not> used s' j" using assms by metis
  then have "\<not> used s' (frame_no (fst (alloc s')))" using alloc_not_used n(3) by blast
  moreover have "used s' (frame_no (fst (alloc s)))"
    using n total_le [OF assms(1)] by (simp add: frame_no_addr)
  ultimately show ?thesis using n(1) by (metis snd_conv)
qed

text \<open>Freeing a frame makes it the next one handed out if every lower frame is in use.\<close>

lemma alloc_after_free:
  assumes "ok s" "n < total s" "\<forall>l<n. used s l"
  shows "fst (alloc (free (frame_addr n) s)) = frame_addr n"
proof -
  have fn: "frame_no (frame_addr n) = n" using total_le [OF assms(1)] assms(2) by (simp add: frame_no_addr)
  obtain m s' where m: "alloc (free (frame_addr n) s) = (frame_addr m, s')"
      "\<not> used (free (frame_addr n) s) m" "\<forall>l<m. used (free (frame_addr n) s) l"
    using alloc_ok [of "free (frame_addr n) s" n] free_ok [OF assms(1)] free_used [OF assms(1)]
      assms fn by metis
  have "m = n"
    using m(2,3) free_used [OF assms(1)] assms(3) fn by (metis linorder_neqE_nat)
  then show ?thesis using m by simp
qed

end

interpretation bitmap: frame_allocator frame_alloc frame_free frame_used nframes frames_ok
proof unfold_locales
  fix s :: "'z frames_st_scheme" and k
  assume ok: "frames_ok s" and k: "k < nframes s" "\<not> frame_used s k"
  obtain n where n: "n < nframes s" "\<not> frame_used s n" "\<forall>l<n. frame_used s l"
      "frame_alloc s = (frame_addr n, set_frame (frame_addr n) s)"
    using frame_alloc_Some [OF ok k] by blast
  then have "frame_no (frame_addr n) = n" using nframes_le [OF ok] by (simp add: frame_no_addr)
  then show "\<exists>n s'. frame_alloc s = (frame_addr n, s') \<and> n < nframes s \<and> \<not> frame_used s n
      \<and> (\<forall>l<n. frame_used s l) \<and> frames_ok s' \<and> nframes s' = nframes s
      \<and> (\<forall>l. frame_used s' l = (frame_used s l \<or> l = n))"
    using n ok by (auto simp: frame_simps)
qed (auto simp: nframes_le frame_alloc_None frame_free_def frame_simps frames_ok_def nframes_def)

section \<open>Properties\<close>

text \<open>
  C27. \<open>frame_alloc\<close> is a lowest-first allocator: if some frame below the size of memory is
  free it returns the address of the lowest one, page aligned, and marks that frame and no
  other; if all are in use it returns 0 with \<open>ENOMEM\<close> and changes nothing else.
\<close>

theorem frame_alloc_lowest_first:
  assumes "frames_ok s"
  shows "if \<exists>k < nframes s. \<not> frame_used s k
     then \<exists>n < nframes s. \<not> frame_used s n \<and> (\<forall>l<n. frame_used s l)
        \<and> fst (frame_alloc s) = frame_addr n \<and> unat (frame_addr n) = 4096 * n
        \<and> (\<forall>l. frame_used (snd (frame_alloc s)) l \<longleftrightarrow> frame_used s l \<or> l = n)
     else frame_alloc s = (0, s\<lparr>kerrno := Some ENOMEM\<rparr>)"
proof (cases "\<exists>k < nframes s. \<not> frame_used s k")
  case True
  then show ?thesis
    using bitmap.alloc_ok [OF assms] nframes_le [OF assms] frame_addr_aligned
    by (smt (verit) fst_conv order_less_le_trans snd_conv)
qed (auto simp: frame_alloc_None)

theorem frame_alloc_lowest_first_witness:
  "if \<exists>k < nframes \<lparr>frames = (\<lambda>_. 1), memsize = 64, kerrno = None\<rparr>.
       \<not> frame_used \<lparr>frames = (\<lambda>_. 1), memsize = 64, kerrno = None\<rparr> k
     then \<exists>n < nframes \<lparr>frames = (\<lambda>_. 1), memsize = 64, kerrno = None\<rparr>.
        \<not> frame_used \<lparr>frames = (\<lambda>_. 1), memsize = 64, kerrno = None\<rparr> n
        \<and> (\<forall>l<n. frame_used \<lparr>frames = (\<lambda>_. 1), memsize = 64, kerrno = None\<rparr> l)
        \<and> fst (frame_alloc \<lparr>frames = (\<lambda>_. 1), memsize = 64, kerrno = None\<rparr>) = frame_addr n
        \<and> unat (frame_addr n) = 4096 * n
        \<and> (\<forall>l. frame_used (snd (frame_alloc \<lparr>frames = (\<lambda>_. 1), memsize = 64, kerrno = None\<rparr>)) l
             \<longleftrightarrow> frame_used \<lparr>frames = (\<lambda>_. 1), memsize = 64, kerrno = None\<rparr> l \<or> l = n)
     else frame_alloc \<lparr>frames = (\<lambda>_. 1), memsize = 64, kerrno = None\<rparr>
        = (0, \<lparr>frames = (\<lambda>_. 1), memsize = 64, kerrno = None\<rparr>\<lparr>kerrno := Some ENOMEM\<rparr>)"
  by (rule frame_alloc_lowest_first) (simp add: frames_ok_def)

lemma sum_list_masked:
  "(\<Sum>j \<leftarrow> [0..<32]. if w AND push_bit j 1 = 1 then 1 else 0) = (of_bool (bit (w :: u32) 0) :: u32)"
proof -
  have eq: "w AND push_bit j 1 = 1 \<longleftrightarrow> j = 0 \<and> bit w 0" for j
  proof
    assume "w AND push_bit j 1 = 1"
    then have "bit (w AND push_bit j 1) 0" by simp
    then show "j = 0 \<and> bit w 0" by (simp add: bit_simps)
  next
    assume "j = 0 \<and> bit w 0"
    then show "w AND push_bit j 1 = 1" by (simp add: and_one_eq bit_0 mod_2_eq_odd)
  qed
  have "(\<Sum>j \<leftarrow> js. if w AND push_bit j 1 = 1 then 1 else 0)
      = (\<Sum>j \<leftarrow> js. of_bool (j = 0 \<and> bit w 0) :: u32)" for js
    by (simp only: eq of_bool_def)
  moreover have "(\<Sum>j \<leftarrow> [0..<Suc n]. of_bool (j = 0 \<and> bit w 0) :: u32) = of_bool (bit w 0)" for n
    by (induction n) auto
  moreover have "32 = Suc 31" by simp
  ultimately show ?thesis by metis
qed

text \<open>
  \<open>get_used_frames\<close> compares the masked bit with 1, so of each group of 32 frames only
  the first one is counted: the result is the number of groups whose first frame is in use.
\<close>

theorem get_used_frames_counts_groups:
  "get_used_frames s = of_nat (card {i. i < nframes s div 32 \<and> frame_used s (32 * i)})"
proof -
  have "(\<Sum>i \<leftarrow> [0..<n]. of_bool (bit (frames s i) 0) :: u32)
      = of_nat (card {i. i < n \<and> frame_used s (32 * i)})" for n
  proof (induction n)
    case (Suc n)
    have "{i. i < Suc n \<and> frame_used s (32 * i)}
        = {i. i < n \<and> frame_used s (32 * i)} \<union> (if frame_used s (32 * n) then {n} else {})"
      by (auto simp: less_Suc_eq)
    then show ?case using Suc by (auto simp: frame_used_def)
  qed simp
  then show ?thesis
    by (simp add: get_used_frames_def sum_list_masked frame_index_def nframes_def
        del: push_bit_of_1)
qed

end
