(* ===== verification/Paging.thy ===== *)
theory Paging
  imports Frames
begin

text \<open>
  The page tables of \<^verbatim>\<open>kernel/src/mm/paging.c\<close>. A page directory holds the (virtual) pointers
  \<open>tables\<close> to its page tables and the entries \<open>tables_phys\<close> the processor reads. Directories
  and tables live in typed heaps, \<open>dirs\<close> and \<open>tabs\<close>, keyed by their address, so that tables
  shared by several directories are shared in the model too; \<open>pmem\<close> is physical memory, and
  \<open>active_dir\<close> the directory whose physical address is in CR3. An access of the kernel to a
  virtual address that is not mapped is a page fault, which halts the machine: it sets
  \<open>faulted\<close>, and what a routine does after it has no counterpart; the theorems show that
  \<open>faulted\<close> is not set.

  \<open>page_map\<close> calls \<open>kmalloc_pa\<close>, whose heap grows through \<open>page_map\<close> again. The operations take
  the allocator as their first argument \<open>km\<close>; \<^verbatim>\<open>Kmalloc\<close> ties the knot.
\<close>

section \<open>Data\<close>

record page_t =
  p_present :: bool
  p_rw :: bool
  p_user :: bool
  p_wt_caching :: bool
  p_nocache :: bool
  p_accessed :: bool
  p_dirty :: bool
  p_zero :: bool
  p_global :: bool
  p_avail :: "3 word"
  p_frame :: "20 word"

record pg_dir_entry_t =
  d_present :: bool
  d_rw :: bool
  d_user :: bool
  d_wt_caching :: bool
  d_nocache :: bool
  d_accessed :: bool
  d_zero :: bool
  d_size :: bool
  d_global :: bool
  d_avail :: "3 word"
  d_table :: "20 word"

record page_dir_t =
  tables :: "nat \<Rightarrow> u32"
  tables_phys :: "nat \<Rightarrow> pg_dir_entry_t"

record paging_st = frames_st +
  identity_end :: u32
  cur_page_dir :: u32
  dirs :: "u32 \<Rightarrow> page_dir_t"
  tabs :: "u32 \<Rightarrow> nat \<Rightarrow> page_t"
  pmem :: "u32 \<Rightarrow> u8"
  active_dir :: u32
  cr3 :: u32
  cr0_pg :: bool
  faulted :: bool

abbreviation KSTACK_BEGIN :: u32 where "KSTACK_BEGIN \<equiv> 0x0FC00000"
abbreviation KSTACK_END :: u32 where "KSTACK_END \<equiv> 0x0FFFFFF0"
abbreviation UMEM_BEGIN :: u32 where "UMEM_BEGIN \<equiv> 0x10000000"
abbreviation USTACK_BEGIN :: u32 where "USTACK_BEGIN \<equiv> 0xFFC00000"
abbreviation USTACK_END :: u32 where "USTACK_END \<equiv> 0xFFFFFFF0"

abbreviation (input) PF_PRES :: u32 where "PF_PRES \<equiv> 0x1"
abbreviation (input) PF_RW :: u32 where "PF_RW \<equiv> 0x2"
abbreviation (input) PF_USER :: u32 where "PF_USER \<equiv> 0x4"
abbreviation (input) PF_WTC :: u32 where "PF_WTC \<equiv> 0x8"
abbreviation (input) PF_NOC :: u32 where "PF_NOC \<equiv> 0x10"
abbreviation (input) PF_ACC :: u32 where "PF_ACC \<equiv> 0x20"
abbreviation (input) PF_DIRTY :: u32 where "PF_DIRTY \<equiv> 0x40"
abbreviation (input) PF_GLO :: u32 where "PF_GLO \<equiv> 0x100"

text \<open>What \<open>memset(\<dots>, 0, \<dots>)\<close> leaves in an entry.\<close>

definition zero_page :: page_t where
  "zero_page = \<lparr>p_present = False, p_rw = False, p_user = False, p_wt_caching = False,
     p_nocache = False, p_accessed = False, p_dirty = False, p_zero = False, p_global = False,
     p_avail = 0, p_frame = 0\<rparr>"

definition zero_pde :: pg_dir_entry_t where
  "zero_pde = \<lparr>d_present = False, d_rw = False, d_user = False, d_wt_caching = False,
     d_nocache = False, d_accessed = False, d_zero = False, d_size = False, d_global = False,
     d_avail = 0, d_table = 0\<rparr>"

section \<open>Operations on one directory\<close>

definition tab_i :: "u32 \<Rightarrow> nat" where
  "tab_i addr = unat (drop_bit 12 addr AND 1023)"

definition dir_i :: "u32 \<Rightarrow> nat" where
  "dir_i addr = unat (drop_bit 22 addr AND 1023)"

definition create_page_dir ::
    "('z paging_st_scheme \<Rightarrow> u32 \<Rightarrow> u32 \<times> 'z paging_st_scheme)
     \<Rightarrow> 'z paging_st_scheme \<Rightarrow> u32 \<times> 'z paging_st_scheme" where
  "create_page_dir km s =
     (let (ret, s) = km s 8192 in
      if ret = 0 then (0, s)
      else (ret, s\<lparr>dirs := (dirs s)(ret := \<lparr>tables = (\<lambda>_. 0), tables_phys = (\<lambda>_. zero_pde)\<rparr>)\<rparr>))"

definition get_phys :: "u32 \<Rightarrow> u32 \<Rightarrow> 'z paging_st_scheme \<Rightarrow> u32" where
  "get_phys addr page_dir s =
     (let offset = addr AND (PAGE_SIZE - 1); t = tables (dirs s page_dir) (dir_i addr) in
      if t = 0 then 0
      else if \<not> p_present (tabs s t (tab_i addr)) then 0
      else push_bit 12 (ucast (p_frame (tabs s t (tab_i addr)))) + offset)"

definition set_pde :: "u32 \<Rightarrow> nat \<Rightarrow> (pg_dir_entry_t \<Rightarrow> pg_dir_entry_t)
     \<Rightarrow> 'z paging_st_scheme \<Rightarrow> 'z paging_st_scheme" where
  "set_pde pd i f s =
     s\<lparr>dirs := (dirs s)(pd := (dirs s pd)\<lparr>tables_phys :=
        (tables_phys (dirs s pd))(i := f (tables_phys (dirs s pd) i))\<rparr>)\<rparr>"

definition set_table :: "u32 \<Rightarrow> nat \<Rightarrow> u32 \<Rightarrow> 'z paging_st_scheme \<Rightarrow> 'z paging_st_scheme" where
  "set_table pd i t s =
     s\<lparr>dirs := (dirs s)(pd := (dirs s pd)\<lparr>tables := (tables (dirs s pd))(i := t)\<rparr>)\<rparr>"

definition set_entry :: "u32 \<Rightarrow> nat \<Rightarrow> (page_t \<Rightarrow> page_t)
     \<Rightarrow> 'z paging_st_scheme \<Rightarrow> 'z paging_st_scheme" where
  "set_entry t i f s = s\<lparr>tabs := (tabs s)(t := (tabs s t)(i := f (tabs s t i)))\<rparr>"

definition set_table_flags :: "u32 \<Rightarrow> u32 \<Rightarrow> pg_dir_entry_t \<Rightarrow> pg_dir_entry_t" where
  "set_table_flags flags phys e =
     e\<lparr>d_present := True, d_rw := (flags AND PF_RW \<noteq> 0), d_user := (flags AND PF_USER \<noteq> 0),
       d_wt_caching := (flags AND PF_WTC \<noteq> 0), d_nocache := (flags AND PF_NOC \<noteq> 0),
       d_accessed := (flags AND PF_ACC \<noteq> 0), d_zero := False, d_size := False,
       d_global := (flags AND PF_GLO \<noteq> 0), d_table := ucast (drop_bit 12 phys)\<rparr>"

definition set_page_flags :: "u32 \<Rightarrow> u32 \<Rightarrow> page_t \<Rightarrow> page_t" where
  "set_page_flags flags frame e =
     e\<lparr>p_present := (flags AND PF_PRES \<noteq> 0), p_rw := (flags AND PF_RW \<noteq> 0),
       p_user := (flags AND PF_USER \<noteq> 0), p_wt_caching := (flags AND PF_WTC \<noteq> 0),
       p_nocache := (flags AND PF_NOC \<noteq> 0), p_accessed := (flags AND PF_ACC \<noteq> 0),
       p_dirty := (flags AND PF_DIRTY \<noteq> 0), p_zero := False,
       p_global := (flags AND PF_GLO \<noteq> 0), p_frame := ucast (drop_bit 12 frame)\<rparr>"

text \<open>The branch of \<open>page_map\<close> that creates a missing page table; \<open>False\<close> is the early return.\<close>

definition ensure_table ::
    "('z paging_st_scheme \<Rightarrow> u32 \<Rightarrow> u32 \<times> 'z paging_st_scheme)
     \<Rightarrow> u32 \<Rightarrow> u32 \<Rightarrow> u32 \<Rightarrow> 'z paging_st_scheme \<Rightarrow> bool \<times> 'z paging_st_scheme" where
  "ensure_table km addr flags page_dir s =
     (if tables (dirs s page_dir) (dir_i addr) = 0 then
        let (t, s) = km s 4096;
            s = set_table page_dir (dir_i addr) t s in
        if t = 0 then (False, s\<lparr>kerrno := Some ENOMEM\<rparr>)
        else
          let s = s\<lparr>tabs := (tabs s)(t := (\<lambda>_. zero_page))\<rparr>;
              phys = get_phys t page_dir s in
          (True, set_pde page_dir (dir_i addr) (set_table_flags flags phys) s)
      else (True, s))"

definition page_map ::
    "('z paging_st_scheme \<Rightarrow> u32 \<Rightarrow> u32 \<times> 'z paging_st_scheme)
     \<Rightarrow> u32 \<Rightarrow> u32 \<Rightarrow> u32 \<Rightarrow> u32 \<Rightarrow> 'z paging_st_scheme \<Rightarrow> u32 \<times> 'z paging_st_scheme" where
  "page_map km addr frame flags page_dir s =
     (let addr = addr AND NOT (PAGE_SIZE - 1);
          (present, s) = ensure_table km addr flags page_dir s in
      if \<not> present then (0, s)
      else
        let s = set_entry (tables (dirs s page_dir) (dir_i addr)) (tab_i addr)
                  (set_page_flags flags frame) s;
            s = set_pde page_dir (dir_i addr) (\<lambda>e. e\<lparr>d_rw := (d_rw e \<or> flags AND PF_RW \<noteq> 0)\<rparr>) s in
        (addr, s))"

text \<open>The two runs of \<open>flags |= \<dots> << n\<close> of \<open>page_flags\<close>.\<close>

definition dir_bits :: "pg_dir_entry_t \<Rightarrow> u32" where
  "dir_bits d = of_bool (d_present d) OR push_bit 1 (of_bool (d_rw d))
     OR push_bit 2 (of_bool (d_user d)) OR push_bit 3 (of_bool (d_wt_caching d))
     OR push_bit 4 (of_bool (d_nocache d)) OR push_bit 5 (of_bool (d_accessed d))
     OR push_bit 6 (of_bool (d_zero d)) OR push_bit 7 (of_bool (d_size d))
     OR push_bit 8 (of_bool (d_global d))"

definition page_bits :: "page_t \<Rightarrow> u32" where
  "page_bits p = of_bool (p_present p) OR push_bit 1 (of_bool (p_rw p))
     OR push_bit 2 (of_bool (p_user p)) OR push_bit 3 (of_bool (p_wt_caching p))
     OR push_bit 4 (of_bool (p_nocache p)) OR push_bit 5 (of_bool (p_accessed p))
     OR push_bit 6 (of_bool (p_dirty p)) OR push_bit 7 (of_bool (p_zero p))
     OR push_bit 8 (of_bool (p_global p))"

definition page_flags :: "u32 \<Rightarrow> u32 \<Rightarrow> 'z paging_st_scheme \<Rightarrow> u32" where
  "page_flags addr page_dir s =
     (let flags = push_bit 16 (dir_bits (tables_phys (dirs s page_dir) (dir_i addr)));
          t = tables (dirs s page_dir) (dir_i addr) in
      if t \<noteq> 0 \<and> flags AND push_bit 16 PF_PRES = push_bit 16 PF_PRES
      then flags OR page_bits (tabs s t (tab_i addr))
      else flags)"

definition get_page_dir_phys :: "u32 \<Rightarrow> 'z paging_st_scheme \<Rightarrow> u32" where
  "get_page_dir_phys page_dir s = get_phys (page_dir + 4096) page_dir s"

definition set_page_dir :: "u32 \<Rightarrow> 'z paging_st_scheme \<Rightarrow> 'z paging_st_scheme" where
  "set_page_dir page_dir s = s\<lparr>cr3 := get_page_dir_phys page_dir s, active_dir := page_dir\<rparr>"

section \<open>Access to virtual memory\<close>

definition mapped :: "u32 \<Rightarrow> u32 \<Rightarrow> 'z paging_st_scheme \<Rightarrow> bool" where
  "mapped addr page_dir s \<longleftrightarrow> tables (dirs s page_dir) (dir_i addr) \<noteq> 0
     \<and> p_present (tabs s (tables (dirs s page_dir) (dir_i addr)) (tab_i addr))"

definition vwrite :: "u32 \<Rightarrow> u8 \<Rightarrow> 'z paging_st_scheme \<Rightarrow> 'z paging_st_scheme" where
  "vwrite a b s =
     (if mapped a (active_dir s) s then s\<lparr>pmem := (pmem s)(get_phys a (active_dir s) s := b)\<rparr>
      else s\<lparr>faulted := True\<rparr>)"

text \<open>\<open>memset\<close> and \<open>memcpy\<close> on virtual addresses of the active directory, byte by byte.\<close>

fun vmemset :: "u32 \<Rightarrow> u8 \<Rightarrow> nat \<Rightarrow> 'z paging_st_scheme \<Rightarrow> 'z paging_st_scheme" where
  "vmemset a b 0 s = s"
| "vmemset a b (Suc n) s = vmemset (a + 1) b n (vwrite a b s)"

fun vmemcpy :: "u32 \<Rightarrow> u32 \<Rightarrow> nat \<Rightarrow> 'z paging_st_scheme \<Rightarrow> 'z paging_st_scheme" where
  "vmemcpy dst src 0 s = s"
| "vmemcpy dst src (Suc n) s =
     vmemcpy (dst + 1) (src + 1) n
       (if mapped src (active_dir s) s then vwrite dst (pmem s (get_phys src (active_dir s) s)) s
        else s\<lparr>faulted := True\<rparr>)"

section \<open>Whole directories\<close>

text \<open>\<open>new->tables[i] = old->tables[i]\<close> for the tables below the kernel stack.\<close>

fun link_kernel_tables :: "u32 \<Rightarrow> u32 \<Rightarrow> nat \<Rightarrow> 'z paging_st_scheme \<Rightarrow> 'z paging_st_scheme" where
  "link_kernel_tables new old 0 s = s"
| "link_kernel_tables new old (Suc n) s =
     (let s = link_kernel_tables new old n s;
          s = set_table new n (tables (dirs s old) n) s in
      set_pde new n (\<lambda>_. tables_phys (dirs s old) n) s)"

definition clone_page ::
    "('z paging_st_scheme \<Rightarrow> u32 \<Rightarrow> u32 \<times> 'z paging_st_scheme)
     \<Rightarrow> u32 \<Rightarrow> u32 \<Rightarrow> u32 \<Rightarrow> 'z paging_st_scheme \<Rightarrow> 'z paging_st_scheme" where
  "clone_page km new old i s =
     (let flags = page_flags i old s in
      if flags AND PF_PRES = 0 then s
      else
        let (frame, s) = frame_alloc s;
            (_, s) = page_map km 0 frame (PF_PRES OR PF_RW) (cur_page_dir s) s;
            s = vmemcpy 0 i 4096 s;
            (_, s) = page_map km 0 0 0 (cur_page_dir s) s;
            (_, s) = page_map km i frame flags new s in
        s)"

function clone_user ::
    "('z paging_st_scheme \<Rightarrow> u32 \<Rightarrow> u32 \<times> 'z paging_st_scheme)
     \<Rightarrow> u32 \<Rightarrow> u32 \<Rightarrow> u32 \<Rightarrow> 'z paging_st_scheme \<Rightarrow> 'z paging_st_scheme" where
  "clone_user km new old i s =
     (if i < USTACK_END \<and> \<not> i < PAGE_SIZE
      then clone_user km new old (i + PAGE_SIZE) (clone_page km new old i s)
      else s)"
  by pat_completeness auto
termination
proof (relation "measure (\<lambda>(km, new, old, i, s). if i < PAGE_SIZE then 0 else 2 ^ 32 - unat i)", simp)
  fix i :: u32
  assume i: "i < USTACK_END \<and> \<not> i < PAGE_SIZE"
  show "((km, new, old, i + PAGE_SIZE, s'), km, new, old, i, s)
      \<in> measure (\<lambda>(km, new, old, i, s). if i < PAGE_SIZE then 0 else 2 ^ 32 - unat i)" for km new old s' s
  proof (cases "unat i + 4096 < 2 ^ 32")
    case True
    then have "unat (i + PAGE_SIZE) = unat i + 4096" by (simp add: unat_word_ariths)
    then show ?thesis using i unat_u32_less [of i] True by auto
  next
    case False
    then have "unat (i + PAGE_SIZE) = unat i + 4096 - 2 ^ 32"
      using unat_u32_less [of i] by (simp add: unat_word_ariths mod_nat_eqI)
    then have "i + PAGE_SIZE < PAGE_SIZE" using unat_u32_less [of i] by (simp add: word_less_nat_alt)
    then show ?thesis using i unat_u32_less [of i] by auto
  qed
qed

declare clone_user.simps [simp del]

definition clone_page_dir ::
    "('z paging_st_scheme \<Rightarrow> u32 \<Rightarrow> u32 \<times> 'z paging_st_scheme)
     \<Rightarrow> u32 \<Rightarrow> u32 \<Rightarrow> 'z paging_st_scheme \<Rightarrow> 'z paging_st_scheme" where
  "clone_page_dir km new old s =
     clone_user km new old KSTACK_BEGIN
       (link_kernel_tables new old (unat (KSTACK_BEGIN div (1024 * PAGE_SIZE - 1))) s)"

fun clear_tables ::
    "('z paging_st_scheme \<Rightarrow> u32 \<Rightarrow> 'z paging_st_scheme)
     \<Rightarrow> u32 \<Rightarrow> nat list \<Rightarrow> 'z paging_st_scheme \<Rightarrow> 'z paging_st_scheme" where
  "clear_tables kf page_dir [] s = s"
| "clear_tables kf page_dir (i # is) s =
     clear_tables kf page_dir is
       (if tables (dirs s page_dir) i \<noteq> 0 then kf s (tables (dirs s page_dir) i) else s)"

definition clear_page_dir ::
    "('z paging_st_scheme \<Rightarrow> u32 \<Rightarrow> 'z paging_st_scheme)
     \<Rightarrow> u32 \<Rightarrow> 'z paging_st_scheme \<Rightarrow> 'z paging_st_scheme" where
  "clear_page_dir kf page_dir s =
     clear_tables kf page_dir [unat (KSTACK_BEGIN div (1023 * PAGE_SIZE))..<1024] s"

section \<open>Page numbers\<close>

lemma tab_i_eq: "tab_i a = frame_no a mod 1024"
  by (simp add: tab_i_def word_and_1023 unat_drop_12 frame_no_def)

lemma dir_i_eq: "dir_i a = frame_no a div 1024"
proof -
  have "unat (drop_bit 22 a) = unat a div 4194304" by (simp add: drop_bit_eq_div unat_div_distrib)
  moreover have "unat a div 4194304 < 1024" using unat_u32_less [of a] by auto
  ultimately show ?thesis by (simp add: dir_i_def word_and_1023 frame_no_def div_mult2_eq [symmetric])
qed

lemma page_index_eq_iff: "dir_i a = dir_i b \<and> tab_i a = tab_i b \<longleftrightarrow> frame_no a = frame_no b"
  unfolding tab_i_eq dir_i_eq by (metis div_mult_mod_eq)

lemma dir_i_less: "dir_i a < 1024"
  using unat_u32_less [of a] by (auto simp: dir_i_eq frame_no_def)

lemma frame_no_round [simp]: "frame_no (a AND - 4096) = frame_no a"
  using word_and_not_4095 [of a] by (simp add: frame_no_def)

lemma dir_i_round [simp]: "dir_i (a AND - 4096) = dir_i a"
  and tab_i_round [simp]: "tab_i (a AND - 4096) = tab_i a"
  by (simp_all add: dir_i_eq tab_i_eq)

section \<open>Mapping and translating\<close>

lemma tables_set_pde [simp]: "tables (dirs (set_pde pd i f s) d) = tables (dirs s d)"
  and tabs_set_pde [simp]: "tabs (set_pde pd i f s) = tabs s"
  and tables_phys_set_entry [simp]: "dirs (set_entry t j g s) = dirs s"
  by (simp_all add: set_pde_def set_entry_def)

lemma tabs_set_entry:
  "tabs (set_entry t i f s) t' j = (if t' = t \<and> j = i then f (tabs s t i) else tabs s t' j)"
  by (auto simp: set_entry_def)

lemma get_phys_set_pde [simp]: "get_phys a d (set_pde pd i f s) = get_phys a d s"
  by (simp add: get_phys_def Let_def)

lemma set_pde_other [simp]:
  "cur_page_dir (set_pde pd i f s) = cur_page_dir s" "active_dir (set_pde pd i f s) = active_dir s"
  "faulted (set_pde pd i f s) = faulted s" "cr0_pg (set_pde pd i f s) = cr0_pg s"
  "pmem (set_pde pd i f s) = pmem s"
  "frames (set_pde pd i f s) = frames s" "memsize (set_pde pd i f s) = memsize s"
  "kerrno (set_pde pd i f s) = kerrno s" "identity_end (set_pde pd i f s) = identity_end s"
  "paging_st.more (set_pde pd i f s) = paging_st.more s"
  by (simp_all add: set_pde_def)

lemma set_entry_other [simp]:
  "cur_page_dir (set_entry t i g s) = cur_page_dir s" "active_dir (set_entry t i g s) = active_dir s"
  "faulted (set_entry t i g s) = faulted s" "cr0_pg (set_entry t i g s) = cr0_pg s"
  "pmem (set_entry t i g s) = pmem s"
  "frames (set_entry t i g s) = frames s" "memsize (set_entry t i g s) = memsize s"
  "kerrno (set_entry t i g s) = kerrno s" "identity_end (set_entry t i g s) = identity_end s"
  "paging_st.more (set_entry t i g s) = paging_st.more s"
  by (simp_all add: set_entry_def)

lemma page_map_eq:
  assumes "tables (dirs s pd) (dir_i addr) \<noteq> 0"
  shows "page_map km addr frame flags pd s = (addr AND NOT 4095,
     set_pde pd (dir_i addr) (\<lambda>e. e\<lparr>d_rw := (d_rw e \<or> flags AND PF_RW \<noteq> 0)\<rparr>)
       (set_entry (tables (dirs s pd) (dir_i addr)) (tab_i addr) (set_page_flags flags frame) s))"
  using assms by (simp add: page_map_def ensure_table_def)

lemma frame_field: "push_bit 12 (ucast (ucast (drop_bit 12 f) :: 20 word)) = (f :: u32) AND NOT 4095"
proof -
  have "push_bit 12 (ucast (ucast (drop_bit 12 f) :: 20 word)) = f AND NOT (mask 12)"
    by (rule bit_eqI) (auto simp: bit_simps)
  then show ?thesis by (simp add: mask_eq_exp_minus_1)
qed

text \<open>No table is used for two ranges of the same directory.\<close>

definition dir_inj :: "u32 \<Rightarrow> 'z paging_st_scheme \<Rightarrow> bool" where
  "dir_inj pd s \<longleftrightarrow> (\<forall>i<1024. \<forall>j<1024. tables (dirs s pd) i \<noteq> 0
     \<longrightarrow> tables (dirs s pd) i = tables (dirs s pd) j \<longrightarrow> i = j)"

lemma get_phys_page_map:
  assumes "tables (dirs s pd) (dir_i addr) \<noteq> 0" "dir_inj pd s"
  shows "get_phys a pd (snd (page_map km addr frame flags pd s)) =
     (if frame_no a = frame_no addr
      then if flags AND PF_PRES \<noteq> 0 then (frame AND NOT 4095) + (a AND 4095) else 0
      else get_phys a pd s)"
proof (cases "frame_no a = frame_no addr")
  case True
  then have "dir_i a = dir_i addr" "tab_i a = tab_i addr" by (simp_all add: dir_i_eq tab_i_eq)
  then show ?thesis using assms True
    by (simp add: page_map_eq get_phys_def Let_def tabs_set_entry set_page_flags_def frame_field)
next
  case False
  then have "\<not> (tables (dirs s pd) (dir_i a) = tables (dirs s pd) (dir_i addr) \<and> tab_i a = tab_i addr)"
    if "tables (dirs s pd) (dir_i a) \<noteq> 0"
    using that assms dir_i_less page_index_eq_iff unfolding dir_inj_def by blast
  then show ?thesis using assms False
    by (auto simp: page_map_eq get_phys_def Let_def tabs_set_entry)
qed

lemma mapped_page_map:
  assumes "tables (dirs s pd) (dir_i addr) \<noteq> 0" "dir_inj pd s"
  shows "mapped a pd (snd (page_map km addr frame flags pd s)) \<longleftrightarrow>
     (if frame_no a = frame_no addr then flags AND PF_PRES \<noteq> 0 else mapped a pd s)"
proof (cases "frame_no a = frame_no addr")
  case True
  then have "dir_i a = dir_i addr" "tab_i a = tab_i addr" by (simp_all add: dir_i_eq tab_i_eq)
  then show ?thesis using assms True
    by (simp add: page_map_eq mapped_def tabs_set_entry set_page_flags_def)
next
  case False
  then have "\<not> (tables (dirs s pd) (dir_i a) = tables (dirs s pd) (dir_i addr) \<and> tab_i a = tab_i addr)"
    if "tables (dirs s pd) (dir_i a) \<noteq> 0"
    using that assms dir_i_less page_index_eq_iff unfolding dir_inj_def by blast
  then show ?thesis using assms False
    by (auto simp: page_map_eq mapped_def tabs_set_entry)
qed

text \<open>Flags: what \<open>page_flags\<close> reads back after \<open>page_map\<close>.\<close>

lemma bit_of_bool: "bit (of_bool b :: u32) n \<longleftrightarrow> b \<and> n = 0"
  by (auto simp: bit_simps)

lemma bit_flag: "k < 32 \<Longrightarrow> bit (push_bit k (of_bool b) :: u32) n \<longleftrightarrow> b \<and> n = k"
  by (auto simp: bit_simps)

lemma bit_page_bits:
  "bit (page_bits p) n \<longleftrightarrow>
     (n = 0 \<and> p_present p) \<or> (n = 1 \<and> p_rw p) \<or> (n = 2 \<and> p_user p) \<or> (n = 3 \<and> p_wt_caching p)
     \<or> (n = 4 \<and> p_nocache p) \<or> (n = 5 \<and> p_accessed p) \<or> (n = 6 \<and> p_dirty p)
     \<or> (n = 7 \<and> p_zero p) \<or> (n = 8 \<and> p_global p)"
  by (simp only: page_bits_def bit_or_iff bit_of_bool bit_flag numeral_less_iff one_less_numeral_iff
      semiring_norm) blast

lemma flag_bits:
  "(w :: u32) AND 1 = 0 \<longleftrightarrow> \<not> bit w 0" "w AND 2 = 0 \<longleftrightarrow> \<not> bit w 1" "w AND 4 = 0 \<longleftrightarrow> \<not> bit w 2"
  "w AND 8 = 0 \<longleftrightarrow> \<not> bit w 3" "w AND 16 = 0 \<longleftrightarrow> \<not> bit w 4" "w AND 32 = 0 \<longleftrightarrow> \<not> bit w 5"
  "w AND 64 = 0 \<longleftrightarrow> \<not> bit w 6" "w AND 256 = 0 \<longleftrightarrow> \<not> bit w 8"
  using masked_power_eq_0 [of 0 w] masked_power_eq_0 [of 1 w] masked_power_eq_0 [of 2 w]
    masked_power_eq_0 [of 3 w] masked_power_eq_0 [of 4 w] masked_power_eq_0 [of 5 w]
    masked_power_eq_0 [of 6 w] masked_power_eq_0 [of 8 w] by simp_all

lemma bit_17F: "bit (0x17F :: u32) n \<longleftrightarrow> n < 7 \<or> n = 8"
proof -
  have "(0x17F :: u32) = mask 7 OR push_bit 8 (of_bool True)" by (simp add: mask_eq_exp_minus_1)
  then show ?thesis by (simp only: bit_or_iff bit_flag bit_mask_iff) auto
qed

lemma page_bits_set: "page_bits (set_page_flags flags frame p) = flags AND 0x17F"
proof (rule bit_eqI)
  fix n :: nat
  have "n < 7 \<or> n = 8 \<longleftrightarrow> n = 0 \<or> n = 1 \<or> n = 2 \<or> n = 3 \<or> n = 4 \<or> n = 5 \<or> n = 6 \<or> n = 8" by auto
  then show "bit (page_bits (set_page_flags flags frame p)) n \<longleftrightarrow> bit (flags AND 0x17F) n"
    unfolding bit_page_bits bit_and_iff bit_17F
    by (auto simp: set_page_flags_def flag_bits)
qed

lemma dir_present_bit:
  "push_bit 16 (dir_bits d) AND push_bit 16 PF_PRES = push_bit 16 PF_PRES \<longleftrightarrow> d_present d"
proof -
  have "bit (dir_bits d) 0 \<longleftrightarrow> d_present d"
    by (simp add: dir_bits_def bit_or_iff bit_of_bool bit_flag)
  moreover have "push_bit 16 w AND push_bit 16 PF_PRES = push_bit 16 PF_PRES \<longleftrightarrow> bit w 0" for w :: u32
    unfolding push_bit_and [symmetric] by (auto simp: and_one_eq bit_0 mod_2_eq_odd)
  ultimately show ?thesis by simp
qed

lemma page_flags_low:
  "page_flags a pd s AND 0xFFFF =
     (if tables (dirs s pd) (dir_i a) \<noteq> 0 \<and> d_present (tables_phys (dirs s pd) (dir_i a))
      then page_bits (tabs s (tables (dirs s pd) (dir_i a)) (tab_i a)) else 0)"
proof -
  have mask: "(0xFFFF :: u32) = mask 16" by (simp add: mask_eq_exp_minus_1)
  have high: "push_bit 16 w AND 0xFFFF = 0" for w :: u32
    unfolding mask by (rule bit_eqI) (auto simp: bit_simps)
  have low: "page_bits p AND 0xFFFF = page_bits p" for p
    unfolding mask by (rule bit_eqI) (auto simp: bit_page_bits bit_simps)
  show ?thesis
    using dir_present_bit [of "tables_phys (dirs s pd) (dir_i a)"]
    by (auto simp: page_flags_def Let_def bit.conj_disj_distrib2 high low)
qed

lemma d_present_set_pde_rw:
  "d_present (tables_phys (dirs (set_pde pd i (\<lambda>e. e\<lparr>d_rw := r e\<rparr>) s) d) j)
     = d_present (tables_phys (dirs s d) j)"
  by (simp add: set_pde_def)

lemma page_flags_page_map:
  assumes "tables (dirs s pd) (dir_i addr) \<noteq> 0" "dir_inj pd s"
    and "d_present (tables_phys (dirs s pd) (dir_i addr))"
  shows "page_flags a pd (snd (page_map km addr frame flags pd s)) AND 0xFFFF =
     (if frame_no a = frame_no addr then flags AND 0x17F else page_flags a pd s AND 0xFFFF)"
proof (cases "frame_no a = frame_no addr")
  case True
  then have "dir_i a = dir_i addr" "tab_i a = tab_i addr" by (simp_all add: dir_i_eq tab_i_eq)
  then show ?thesis using assms True
    by (simp add: page_map_eq page_flags_low tabs_set_entry d_present_set_pde_rw page_bits_set)
next
  case False
  then have "\<not> (tables (dirs s pd) (dir_i a) = tables (dirs s pd) (dir_i addr) \<and> tab_i a = tab_i addr)"
    if "tables (dirs s pd) (dir_i a) \<noteq> 0"
    using that assms dir_i_less page_index_eq_iff unfolding dir_inj_def by blast
  then show ?thesis using assms False
    by (auto simp: page_map_eq page_flags_low tabs_set_entry d_present_set_pde_rw)
qed

section \<open>Writing virtual memory\<close>

lemma mapped_pmem_upd [simp]: "mapped a d (s\<lparr>pmem := p\<rparr>) = mapped a d s"
  and get_phys_pmem_upd [simp]: "get_phys a d (s\<lparr>pmem := p\<rparr>) = get_phys a d s"
  by (simp_all add: mapped_def get_phys_def Let_def)

lemma vmemset_eq:
  assumes "\<forall>i<n. mapped (a + of_nat i) (active_dir s) s"
  shows "vmemset a b n s = s\<lparr>pmem := (\<lambda>x. if \<exists>i<n. x = get_phys (a + of_nat i) (active_dir s) s
                                     then b else pmem s x)\<rparr>"
  using assms
proof (induction n arbitrary: a s)
  case (Suc n)
  let ?s = "vwrite a b s"
  have "mapped a (active_dir s) s" using Suc.prems [rule_format, of 0] by simp
  then have w: "?s = s\<lparr>pmem := (pmem s)(get_phys a (active_dir s) s := b)\<rparr>"
    by (simp add: vwrite_def)
  have "\<forall>i<n. mapped (a + 1 + of_nat i) (active_dir ?s) ?s"
    using Suc.prems by (auto simp: w add.assoc simp flip: of_nat_Suc)
  then have "vmemset (a + 1) b n ?s = ?s\<lparr>pmem := (\<lambda>x. if \<exists>i<n. x = get_phys (a + 1 + of_nat i) (active_dir ?s) ?s
                                     then b else pmem ?s x)\<rparr>"
    by (rule Suc.IH)
  moreover have "(\<exists>i<Suc n. x = get_phys (a + of_nat i) (active_dir s) s) \<longleftrightarrow>
      x = get_phys a (active_dir s) s \<or> (\<exists>i<n. x = get_phys (a + 1 + of_nat i) (active_dir s) s)" for x
    by (auto simp: less_Suc_eq_0_disj add.assoc)
  ultimately show ?case
    by (auto simp: w intro!: arg_cong [where f = "\<lambda>p. s\<lparr>pmem := p\<rparr>"] ext)
qed simp

section \<open>Properties\<close>

text \<open>A directory with one table, used to run the operations on.\<close>

definition sample_dir :: page_dir_t where
  "sample_dir = \<lparr>tables = (\<lambda>i. if i = 1 then 0x5000 else 0),
     tables_phys = (\<lambda>i. if i = 1 then zero_pde\<lparr>d_present := True\<rparr> else zero_pde)\<rparr>"

definition sample_paging :: paging_st where
  "sample_paging = \<lparr>frames = (\<lambda>_. 1), memsize = 64, kerrno = None, identity_end = 0,
     cur_page_dir = 0x3000, dirs = (\<lambda>_. sample_dir), tabs = (\<lambda>_ _. zero_page),
     pmem = (\<lambda>_. 0), active_dir = 0x3000, cr3 = 0, cr0_pg = True, faulted = False\<rparr>"

text \<open>
  C22. \<open>page_map\<close> into an existing table returns the page's address, and from then on
  \<open>get_phys\<close> translates every address of that page to the frame plus its offset (to 0 if the
  flags do not include \<open>PF_PRES\<close>) and \<open>page_flags\<close> reads back the flags; every other page of
  the directory is translated and flagged as before.
\<close>

theorem page_map_translates:
  assumes "tables (dirs s pd) (dir_i addr) \<noteq> 0" "dir_inj pd s"
    and "d_present (tables_phys (dirs s pd) (dir_i addr))"
  shows "fst (page_map km addr frame flags pd s) = addr AND NOT 4095
     \<and> (\<forall>a. get_phys a pd (snd (page_map km addr frame flags pd s)) =
         (if frame_no a = frame_no addr
          then if flags AND PF_PRES \<noteq> 0 then (frame AND NOT 4095) + (a AND 4095) else 0
          else get_phys a pd s))
     \<and> (\<forall>a. page_flags a pd (snd (page_map km addr frame flags pd s)) AND 0xFFFF =
         (if frame_no a = frame_no addr then flags AND 0x17F else page_flags a pd s AND 0xFFFF))"
  using page_map_eq [OF assms(1)] get_phys_page_map [OF assms(1,2)] page_flags_page_map [OF assms]
  by simp

theorem page_map_translates_witness:
  "fst (page_map (\<lambda>s n. (0, s)) 0x401000 0x7000 3 0x3000 sample_paging) = 0x401000 AND NOT 4095
     \<and> (\<forall>a. get_phys a 0x3000 (snd (page_map (\<lambda>s n. (0, s)) 0x401000 0x7000 3 0x3000 sample_paging)) =
         (if frame_no a = frame_no 0x401000
          then if 3 AND PF_PRES \<noteq> 0 then (0x7000 AND NOT 4095) + (a AND 4095) else 0
          else get_phys a 0x3000 sample_paging))
     \<and> (\<forall>a. page_flags a 0x3000 (snd (page_map (\<lambda>s n. (0, s)) 0x401000 0x7000 3 0x3000 sample_paging))
             AND 0xFFFF =
         (if frame_no a = frame_no 0x401000 then 3 AND 0x17F else page_flags a 0x3000 sample_paging AND 0xFFFF))"
  by (rule page_map_translates)
    (simp_all add: sample_paging_def sample_dir_def dir_inj_def dir_i_eq frame_no_def)

text \<open>
  If the page table is missing and cannot be allocated, \<open>page_map\<close> returns NULL with
  \<open>errno = ENOMEM\<close>, and every address that was translated before is translated as the
  allocator left it.
\<close>

theorem page_map_no_table:
  assumes "tables (dirs s pd) (dir_i addr) = 0" "km s 4096 = (0, s')"
    and "tables (dirs s' pd) (dir_i addr) = 0"
  shows "fst (page_map km addr frame flags pd s) = 0
     \<and> kerrno (snd (page_map km addr frame flags pd s)) = Some ENOMEM
     \<and> (\<forall>a d. get_phys a d (snd (page_map km addr frame flags pd s)) = get_phys a d s')"
proof -
  have "set_table pd (dir_i addr) 0 s' = s'"
    using assms(3) by (auto simp: set_table_def intro!: paging_st.equality page_dir_t.equality ext)
  then have "page_map km addr frame flags pd s = (0, s'\<lparr>kerrno := Some ENOMEM\<rparr>)"
    using assms by (simp add: page_map_def ensure_table_def)
  then show ?thesis by (simp add: get_phys_def Let_def)
qed

theorem page_map_no_table_witness:
  "fst (page_map (\<lambda>s n. (0, s)) 0x800000 0x7000 3 0x3000 sample_paging) = 0
     \<and> kerrno (snd (page_map (\<lambda>s n. (0, s)) 0x800000 0x7000 3 0x3000 sample_paging)) = Some ENOMEM
     \<and> (\<forall>a d. get_phys a d (snd (page_map (\<lambda>s n. (0, s)) 0x800000 0x7000 3 0x3000 sample_paging))
           = get_phys a d sample_paging)"
  by (rule page_map_no_table)
    (simp_all add: sample_paging_def sample_dir_def dir_i_eq frame_no_def)

end
