(* ===== verification/Kvm.thy ===== *)
theory Kvm
  imports Paging
begin

text \<open>
  Kernel virtual memory: \<^verbatim>\<open>kernel/src/mm/kvm.c\<close> (the kernel's \<open>brk\<close> and \<open>sbrk\<close>) and the part of
  \<^verbatim>\<open>kernel/src/mm/paging.c\<close> that sets paging up at boot. \<open>kheap_start\<close> and \<open>kheap_size\<close> are the
  two statics of \<^verbatim>\<open>kvm.c\<close>. The kernel's page tables exist before the heap grows, so no
  operation on the kernel heap reaches the allocator \<open>km\<close> of \<open>page_map\<close>: the theorems hold for
  every \<open>km\<close>.
\<close>

section \<open>State and operations of kvm.c\<close>

record kvm_st = paging_st +
  kheap_start :: u32
  kheap_size :: u32

definition kvm_init :: "u32 \<Rightarrow> 'z kvm_st_scheme \<Rightarrow> 'z kvm_st_scheme" where
  "kvm_init start s = s\<lparr>kheap_start := start\<rparr>"

definition kvm_page_alloc ::
    "('z kvm_st_scheme \<Rightarrow> u32 \<Rightarrow> u32 \<times> 'z kvm_st_scheme)
     \<Rightarrow> 'z kvm_st_scheme \<Rightarrow> u32 \<times> 'z kvm_st_scheme" where
  "kvm_page_alloc km s =
     (let (frame, s) = frame_alloc s;
          (ret, s) = page_map km (kheap_start s + kheap_size s) frame (PF_PRES OR PF_RW)
                       (cur_page_dir s) s in
      if ret = 0 then (0, s\<lparr>kerrno := Some ENOMEM\<rparr>)
      else (ret, s\<lparr>kheap_size := kheap_size s + PAGE_SIZE\<rparr>))"

definition kvm_page_alloc_zeroed ::
    "('z kvm_st_scheme \<Rightarrow> u32 \<Rightarrow> u32 \<times> 'z kvm_st_scheme)
     \<Rightarrow> 'z kvm_st_scheme \<Rightarrow> u32 \<times> 'z kvm_st_scheme" where
  "kvm_page_alloc_zeroed km s =
     (let (ret, s) = kvm_page_alloc km s in
      if ret = 0 then (0, s) else (ret, vmemset ret 0 4096 s))"

definition kvm_page_free ::
    "('z kvm_st_scheme \<Rightarrow> u32 \<Rightarrow> u32 \<times> 'z kvm_st_scheme)
     \<Rightarrow> 'z kvm_st_scheme \<Rightarrow> 'z kvm_st_scheme" where
  "kvm_page_free km s =
     (let addr = kheap_start s + kheap_size s;
          s = frame_free (get_phys addr (cur_page_dir s) s) s;
          (_, s) = page_map km addr 0 0 (cur_page_dir s) s in
      s\<lparr>kheap_size := kheap_size s - PAGE_SIZE\<rparr>)"

text \<open>The two loops of \<open>kbrk\<close>; the flag says whether the loop ended without \<open>goto bad\<close>.\<close>

partial_function (option) kbrk_enlarge ::
    "('z kvm_st_scheme \<Rightarrow> u32 \<Rightarrow> u32 \<times> 'z kvm_st_scheme)
     \<Rightarrow> u32 \<Rightarrow> 'z kvm_st_scheme \<Rightarrow> (bool \<times> 'z kvm_st_scheme) option" where
  "kbrk_enlarge km addr s =
     (if addr > kheap_start s + kheap_size s then
        let (ret, s) = kvm_page_alloc_zeroed km s in
        if ret = 0 then Some (False, s) else kbrk_enlarge km addr s
      else Some (True, s))"

partial_function (option) kbrk_shrink ::
    "('z kvm_st_scheme \<Rightarrow> u32 \<Rightarrow> u32 \<times> 'z kvm_st_scheme)
     \<Rightarrow> u32 \<Rightarrow> 'z kvm_st_scheme \<Rightarrow> 'z kvm_st_scheme option" where
  "kbrk_shrink km addr s =
     (if addr < kheap_start s + kheap_size s then kbrk_shrink km addr (kvm_page_free km s)
      else Some s)"

definition kbrk ::
    "('z kvm_st_scheme \<Rightarrow> u32 \<Rightarrow> u32 \<times> 'z kvm_st_scheme)
     \<Rightarrow> u32 \<Rightarrow> 'z kvm_st_scheme \<Rightarrow> (int \<times> 'z kvm_st_scheme) option" where
  "kbrk km addr s =
     (if addr < kheap_start s \<or> addr > KSTACK_BEGIN then Some (-1, s\<lparr>kerrno := Some ENOMEM\<rparr>)
      else if addr = kheap_start s + kheap_size s then Some (0, s)
      else if addr > kheap_start s + kheap_size s then
        map_option (\<lambda>(ok, s). if ok then (0, s) else (-1, s\<lparr>kerrno := Some ENOMEM\<rparr>))
          (kbrk_enlarge km addr s)
      else map_option (\<lambda>s. (0, s)) (kbrk_shrink km addr s))"

text \<open>The loops of \<open>ksbrk\<close>, over the signed \<open>incr\<close>.\<close>

function ksbrk_enlarge ::
    "('z kvm_st_scheme \<Rightarrow> u32 \<Rightarrow> u32 \<times> 'z kvm_st_scheme)
     \<Rightarrow> int \<Rightarrow> 'z kvm_st_scheme \<Rightarrow> bool \<times> 'z kvm_st_scheme" where
  "ksbrk_enlarge km incr s =
     (if incr > 0 then
        let (ret, s) = kvm_page_alloc_zeroed km s in
        if ret = 0 then (False, s) else ksbrk_enlarge km (incr - 4096) s
      else (True, s))"
  by pat_completeness auto
termination by (relation "measure (\<lambda>(km, incr, s). nat incr)") auto

function ksbrk_shrink ::
    "('z kvm_st_scheme \<Rightarrow> u32 \<Rightarrow> u32 \<times> 'z kvm_st_scheme)
     \<Rightarrow> int \<Rightarrow> 'z kvm_st_scheme \<Rightarrow> 'z kvm_st_scheme" where
  "ksbrk_shrink km incr s =
     (if incr < 0 then ksbrk_shrink km (incr + 4096) (kvm_page_free km s) else s)"
  by pat_completeness auto
termination by (relation "measure (\<lambda>(km, incr, s). nat (- incr))") auto

declare ksbrk_enlarge.simps [simp del] ksbrk_shrink.simps [simp del]

definition ksbrk ::
    "('z kvm_st_scheme \<Rightarrow> u32 \<Rightarrow> u32 \<times> 'z kvm_st_scheme)
     \<Rightarrow> u32 \<Rightarrow> 'z kvm_st_scheme \<Rightarrow> u32 \<times> 'z kvm_st_scheme" where
  "ksbrk km incr s =
     (let ret = kheap_start s + kheap_size s in
      if sint incr > 0 then
        if kheap_start s + kheap_size s + incr > KSTACK_BEGIN
        then (- 1, s\<lparr>kerrno := Some ENOMEM\<rparr>)
        else
          let (done, s) = ksbrk_enlarge km (sint incr) s in
          if done then (ret, s) else (- 1, s\<lparr>kerrno := Some ENOMEM\<rparr>)
      else if sint incr < 0 then
        if kheap_start s + kheap_size s + incr < kheap_start s
        then (- 1, s\<lparr>kerrno := Some ENOMEM\<rparr>)
        else (ret, ksbrk_shrink km (sint incr + 4095) s)
      else (ret, s))"

section \<open>Setting up paging at boot\<close>

record memory_map =
  mm_size :: u32
  base_addr_low :: u32
  base_addr_high :: u32
  length_low :: u32
  length_high :: u32
  mm_type :: u32

text \<open>
  What the code reads of the multiboot information: the map, and the word at \<open>mods_addr + 4\<close>
  (the end of the initial ramdisk).
\<close>

record multiboot_info =
  mmap :: "nat \<Rightarrow> memory_map"
  mmap_length :: u32
  initrd_end :: u32

partial_function (option) register_region_loop ::
    "memory_map \<Rightarrow> u32 \<Rightarrow> u32 \<Rightarrow> 'z paging_st_scheme \<Rightarrow> (u32 \<times> 'z paging_st_scheme) option" where
  "register_region_loop region offset ret s =
     (if offset + PAGE_SIZE \<le> length_low region then
        let addr = base_addr_low region + offset in
        register_region_loop region (offset + PAGE_SIZE) (ret + 1)
          (if addr < identity_end s then s else frame_free addr s)
      else Some (ret, s))"

definition register_mem_region ::
    "memory_map \<Rightarrow> 'z paging_st_scheme \<Rightarrow> (u32 \<times> 'z paging_st_scheme) option" where
  "register_mem_region region s = register_region_loop region 0 0 s"

fun register_mem_loop ::
    "memory_map list \<Rightarrow> u32 \<Rightarrow> 'z paging_st_scheme \<Rightarrow> (u32 \<times> 'z paging_st_scheme) option" where
  "register_mem_loop [] ret s = Some (ret, s)"
| "register_mem_loop (r # rs) ret s =
     (if mm_type r = 1 then
        do { (n, s) \<leftarrow> register_mem_region r s; register_mem_loop rs (ret + n) s }
      else register_mem_loop rs ret s)"

definition register_mem ::
    "multiboot_info \<Rightarrow> 'z paging_st_scheme \<Rightarrow> (u32 \<times> 'z paging_st_scheme) option" where
  "register_mem mb s =
     register_mem_loop (map (mmap mb) [0..<unat (mmap_length mb) div 24]) 0 s"

text \<open>
  The loop of \<open>identity_map\<close>: \<open>identity_end\<close> is read in every iteration, but the kernel's
  tables exist, so \<open>page_map\<close> does not change it; the model takes it once, as \<open>en\<close>.
\<close>

function identity_map_loop ::
    "('z paging_st_scheme \<Rightarrow> u32 \<Rightarrow> u32 \<times> 'z paging_st_scheme)
     \<Rightarrow> nat \<Rightarrow> nat \<Rightarrow> 'z paging_st_scheme \<Rightarrow> 'z paging_st_scheme" where
  "identity_map_loop km i en s =
     (if i < en then
        let s = set_frame (of_nat i) s;
            (_, s) = page_map km (of_nat i) (of_nat i) (PF_PRES OR PF_RW) (cur_page_dir s) s in
        identity_map_loop km (i + 4096) en s
      else s)"
  by pat_completeness auto
termination by (relation "measure (\<lambda>(km, i, en, s). en - i)") auto

declare identity_map_loop.simps [simp del]

definition identity_map ::
    "('z paging_st_scheme \<Rightarrow> u32 \<Rightarrow> u32 \<times> 'z paging_st_scheme)
     \<Rightarrow> 'z paging_st_scheme \<Rightarrow> 'z paging_st_scheme" where
  "identity_map km s =
     (let s = (if identity_end s AND (PAGE_SIZE * 1024 - 1) \<noteq> 0 then
                 s\<lparr>identity_end := (identity_end s + PAGE_SIZE * 1024) AND NOT (PAGE_SIZE * 1024 - 1)\<rparr>
               else s);
          s = set_frame 0 s in
      identity_map_loop km 4096 (unat (identity_end s)) s)"

fun create_kstack_loop ::
    "('z paging_st_scheme \<Rightarrow> u32 \<Rightarrow> u32 \<times> 'z paging_st_scheme)
     \<Rightarrow> nat \<Rightarrow> u32 \<Rightarrow> 'z paging_st_scheme \<Rightarrow> 'z paging_st_scheme" where
  "create_kstack_loop km 0 i s = s"
| "create_kstack_loop km (Suc n) i s =
     (let (frame, s) = frame_alloc s;
          (_, s) = page_map km i frame (PF_PRES OR PF_RW) (cur_page_dir s) s in
      create_kstack_loop km n (i + PAGE_SIZE) s)"

text \<open>\<open>i\<close> runs from \<open>KSTACK_BEGIN\<close> below \<open>KSTACK_END\<close> in steps of a page: 1024 iterations.\<close>

definition create_kstack ::
    "('z paging_st_scheme \<Rightarrow> u32 \<Rightarrow> u32 \<times> 'z paging_st_scheme)
     \<Rightarrow> 'z paging_st_scheme \<Rightarrow> 'z paging_st_scheme" where
  "create_kstack km s = create_kstack_loop km (unat ((KSTACK_END - KSTACK_BEGIN + 4095) div 4096)) KSTACK_BEGIN s"

definition set_alloc_start :: "u32 \<Rightarrow> 'z paging_st_scheme \<Rightarrow> u32 \<times> 'z paging_st_scheme" where
  "set_alloc_start addr s =
     (let s = (if addr > identity_end s then s\<lparr>identity_end := addr\<rparr> else s) in
      (identity_end s, s))"

text \<open>The kernel's page tables; \<open>False\<close> is \<open>panic\<close>.\<close>

fun create_kernel_tables ::
    "('z paging_st_scheme \<Rightarrow> u32 \<Rightarrow> u32 \<times> 'z paging_st_scheme)
     \<Rightarrow> nat list \<Rightarrow> 'z paging_st_scheme \<Rightarrow> 'z paging_st_scheme option" where
  "create_kernel_tables km [] s = Some s"
| "create_kernel_tables km (i # is) s =
     (let (t, s) = km s 4096;
          s = set_table (cur_page_dir s) i t s in
      if t = 0 then None
      else
        let s = s\<lparr>tabs := (tabs s)(t := (\<lambda>_. zero_page))\<rparr>;
            s = set_pde (cur_page_dir s) i (\<lambda>e. e\<lparr>d_present := True, d_rw := True, d_user := False,
                  d_wt_caching := False, d_nocache := False, d_accessed := False, d_zero := False,
                  d_size := False, d_global := False, d_table := ucast (drop_bit 12 t)\<rparr>) s in
        create_kernel_tables km is s)"

text \<open>\<open>end_of_image\<close> is the linker's symbol; \<open>None\<close> is a panic or a map that never ends.\<close>

definition paging_init ::
    "('z kvm_st_scheme \<Rightarrow> u32 \<Rightarrow> u32 \<times> 'z kvm_st_scheme)
     \<Rightarrow> u32 \<Rightarrow> multiboot_info \<Rightarrow> 'z kvm_st_scheme \<Rightarrow> 'z kvm_st_scheme option" where
  "paging_init km end_of_image mb s =
     (let s = s\<lparr>identity_end := 0, frames := (\<lambda>_. 0)\<rparr>;
          (_, s) = set_alloc_start end_of_image s;
          (_, s) = set_alloc_start (initrd_end mb) s in
      do {
        (n, s) \<leftarrow> register_mem mb s;
        let s = s\<lparr>memsize := n AND NOT 31\<rparr>;
        let (d, s) = create_page_dir km s;
        let s = s\<lparr>cur_page_dir := d\<rparr>;
        if d = 0 then None
        else do {
          s \<leftarrow> create_kernel_tables km [0..<unat (KSTACK_END div (PAGE_SIZE * 1023))] s;
          let s = create_kstack km (identity_map km s);
          let s = set_page_dir (cur_page_dir s) (kvm_init (identity_end s) s);
          Some (s\<lparr>cr0_pg := True\<rparr>)
        }
      })"

section \<open>The kernel heap's address range\<close>

definition kheap_top :: "'z kvm_st_scheme \<Rightarrow> u32" where
  "kheap_top s = kheap_start s + kheap_size s"

text \<open>
  The state the kernel heap works in: the heap is made of whole pages below the kernel stack,
  the tables of that range exist in the boot directory, are distinct, and are shared with the
  directory the processor uses.
\<close>

definition kvm_ok :: "'z kvm_st_scheme \<Rightarrow> bool" where
  "kvm_ok s \<longleftrightarrow> 4096 dvd unat (kheap_start s) \<and> 4096 dvd unat (kheap_size s)
     \<and> 0 < unat (kheap_start s) \<and> unat (kheap_start s) + unat (kheap_size s) \<le> unat KSTACK_BEGIN
     \<and> (\<forall>i<64. tables (dirs s (cur_page_dir s)) i \<noteq> 0)
     \<and> (\<forall>i<63. tables (dirs s (active_dir s)) i = tables (dirs s (cur_page_dir s)) i)
     \<and> dir_inj (cur_page_dir s) s"

text \<open>
  \<open>kvm_grown k s s'\<close>: from \<open>s\<close> to \<open>s'\<close> the heap grew by \<open>k\<close> pages, all of them mapped in
  \<open>s'\<close>; nothing else of the address space changed, and no access faulted.
\<close>

definition kvm_grown :: "nat \<Rightarrow> 'z kvm_st_scheme \<Rightarrow> 'z kvm_st_scheme \<Rightarrow> bool" where
  "kvm_grown k s s' \<longleftrightarrow> kvm_ok s' \<and> kheap_start s' = kheap_start s
     \<and> unat (kheap_size s') = unat (kheap_size s) + 4096 * k
     \<and> cur_page_dir s' = cur_page_dir s \<and> active_dir s' = active_dir s
     \<and> (\<forall>d. tables (dirs s' d) = tables (dirs s d))
     \<and> (\<forall>a. frame_no a < frame_no (kheap_top s) \<or> frame_no (kheap_top s) + k \<le> frame_no a
          \<longrightarrow> get_phys a (cur_page_dir s) s' = get_phys a (cur_page_dir s) s
            \<and> mapped a (cur_page_dir s) s' = mapped a (cur_page_dir s) s)
     \<and> (\<forall>a. frame_no (kheap_top s) \<le> frame_no a \<and> frame_no a < frame_no (kheap_top s) + k
          \<longrightarrow> mapped a (cur_page_dir s) s')
     \<and> faulted s' = faulted s \<and> cr0_pg s' = cr0_pg s \<and> kvm_st.more s' = kvm_st.more s"

lemma unat_kheap_top: "kvm_ok s \<Longrightarrow> unat (kheap_top s) = unat (kheap_start s) + unat (kheap_size s)"
  by (simp add: kvm_ok_def kheap_top_def unat_word_ariths)

lemma kheap_top_aligned: "kvm_ok s \<Longrightarrow> unat (kheap_top s) = 4096 * frame_no (kheap_top s)"
  by (simp add: unat_kheap_top frame_no_def kvm_ok_def)

lemma kheap_top_dir_i:
  assumes "kvm_ok s" "unat (kheap_top s) < unat KSTACK_BEGIN"
  shows "dir_i (kheap_top s) < 63"
  using assms by (simp add: dir_i_eq frame_no_def div_mult2_eq [symmetric] less_mult_imp_div_less)

lemma frame_alloc_paging [simp]:
  "dirs (snd (frame_alloc s)) = dirs s" "tabs (snd (frame_alloc s)) = tabs s"
  "cur_page_dir (snd (frame_alloc s)) = cur_page_dir s" "active_dir (snd (frame_alloc s)) = active_dir s"
  "faulted (snd (frame_alloc s)) = faulted s" "cr0_pg (snd (frame_alloc s)) = cr0_pg s" "pmem (snd (frame_alloc s)) = pmem s"
  by (simp_all add: frame_alloc_def Let_def set_frame_def)

lemma frame_alloc_kvm [simp]:
  "kheap_start (snd (frame_alloc s)) = kheap_start s" "kheap_size (snd (frame_alloc s)) = kheap_size s"
  "kvm_st.more (snd (frame_alloc s)) = kvm_st.more s"
  by (simp_all add: frame_alloc_def Let_def set_frame_def)

lemma word_aligned_and:
  assumes "4096 dvd unat (a :: u32)"
  shows "a AND NOT 4095 = a"
  using word_and_not_4095 [of a] assms by (metis dvd_mult_div_cancel word_unat_eq_iff)

lemma kvm_fields_set [simp]:
  "kheap_start (set_pde pd i f s) = kheap_start s" "kheap_size (set_pde pd i f s) = kheap_size s"
  "kvm_st.more (set_pde pd i f s) = kvm_st.more s"
  "kheap_start (set_entry t j g s) = kheap_start s" "kheap_size (set_entry t j g s) = kheap_size s"
  "kvm_st.more (set_entry t j g s) = kvm_st.more s"
  by (simp_all add: set_pde_def set_entry_def)

lemma paging_kheap_size [simp]:
  "get_phys a d (s\<lparr>kheap_size := n\<rparr>) = get_phys a d s" "mapped a d (s\<lparr>kheap_size := n\<rparr>) = mapped a d s"
  "dir_inj d (s\<lparr>kheap_size := n\<rparr>) = dir_inj d s"
  by (simp_all add: get_phys_def mapped_def dir_inj_def Let_def)

lemma paging_frame_alloc [simp]:
  "get_phys a d (snd (frame_alloc s)) = get_phys a d s"
  "mapped a d (snd (frame_alloc s)) = mapped a d s"
  "dir_inj d (snd (frame_alloc s)) = dir_inj d s"
  by (simp_all add: get_phys_def mapped_def dir_inj_def Let_def)

lemma dir_inj_tables_cong:
  "tables (dirs s' d) = tables (dirs s d) \<Longrightarrow> dir_inj d s' = dir_inj d s"
  by (simp add: dir_inj_def)

lemma page_map_other:
  assumes "tables (dirs s pd) (dir_i addr) \<noteq> 0"
  shows "tables (dirs (snd (page_map km addr frame flags pd s)) d) = tables (dirs s d)"
    "cur_page_dir (snd (page_map km addr frame flags pd s)) = cur_page_dir s"
    "active_dir (snd (page_map km addr frame flags pd s)) = active_dir s"
    "faulted (snd (page_map km addr frame flags pd s)) = faulted s"
    "cr0_pg (snd (page_map km addr frame flags pd s)) = cr0_pg s"
  using assms by (simp_all add: page_map_eq)

lemma page_map_kvm_other:
  fixes s :: "'z kvm_st_scheme"
  assumes "tables (dirs s pd) (dir_i addr) \<noteq> 0"
  shows "kheap_start (snd (page_map km addr frame flags pd s)) = kheap_start s"
    "kheap_size (snd (page_map km addr frame flags pd s)) = kheap_size s"
    "kvm_st.more (snd (page_map km addr frame flags pd s)) = kvm_st.more s"
  using assms by (simp_all add: page_map_eq)

text \<open>One page more.\<close>

lemma kvm_page_alloc_eq:
  assumes "kvm_ok s" "unat (kheap_top s) < unat KSTACK_BEGIN"
  shows "\<exists>s'. kvm_page_alloc km s = (kheap_top s, s') \<and> kvm_grown 1 s s'"
proof -
  let ?top = "kheap_top s" and ?d = "cur_page_dir s"
  obtain f s1 where f: "frame_alloc s = (f, s1)" by fastforce
  have s1: "s1 = snd (frame_alloc s)" using f by simp
  have tab: "tables (dirs s1 (cur_page_dir s1)) (dir_i ?top) \<noteq> 0"
    using assms kheap_top_dir_i [OF assms] by (simp add: s1 kvm_ok_def)
  have inj: "dir_inj (cur_page_dir s1) s1" using assms by (simp add: s1 kvm_ok_def)
  define s2 where "s2 = snd (page_map km ?top f 3 (cur_page_dir s1) s1)"
  have al: "?top AND NOT 4095 = ?top"
    using kheap_top_aligned [OF assms(1)] by (intro word_aligned_and) simp
  have "?top \<noteq> 0" using assms by (metis kvm_ok_def add_gr_0 unat_0 unat_kheap_top less_irrefl)
  have pm: "page_map km ?top f 3 (cur_page_dir s1) s1 = (?top, s2)"
    unfolding s2_def page_map_eq [OF tab] al by simp
  have fields: "kheap_start s1 + kheap_size s1 = ?top" by (simp add: s1 kheap_top_def)
  have pa: "kvm_page_alloc km s = (?top, s2\<lparr>kheap_size := kheap_size s2 + 4096\<rparr>)"
    using \<open>?top \<noteq> 0\<close> by (simp add: kvm_page_alloc_def f fields pm)
  note other = page_map_other [OF tab, of km f 3] page_map_kvm_other [OF tab, of km f 3]
  have top': "unat ?top = unat (kheap_start s) + unat (kheap_size s)" by (rule unat_kheap_top [OF assms(1)])
  then have size: "unat (kheap_size s + 4096) = unat (kheap_size s) + 4096"
    using assms(2) by (simp add: unat_word_ariths)
  have room: "unat ?top + 4096 \<le> unat KSTACK_BEGIN"
    using assms(2) kheap_top_aligned [OF assms(1)] by simp
  have "kvm_grown 1 s (s2\<lparr>kheap_size := kheap_size s2 + 4096\<rparr>)"
    unfolding kvm_grown_def
    using assms(1) other get_phys_page_map [OF tab inj, of _ km f 3] mapped_page_map [OF tab inj, of _ km f 3]
      size room top' dir_inj_tables_cong [of s2 ?d s]
    by (auto simp: s2_def s1 kvm_ok_def)
  then show ?thesis using pa by blast
qed

lemma mapped_active:
  assumes "kvm_ok s" "dir_i a < 63"
  shows "mapped a (active_dir s) s = mapped a (cur_page_dir s) s"
  using assms by (simp add: mapped_def kvm_ok_def)

lemma kvm_ok_pmem: "kvm_ok (s\<lparr>pmem := p\<rparr>) = kvm_ok s"
  by (simp add: kvm_ok_def dir_inj_def)

lemma kvm_grown_pmem:
  "kvm_grown k s s' \<Longrightarrow> kvm_grown k s (s'\<lparr>pmem := p\<rparr>)"
  by (auto simp: kvm_grown_def kvm_ok_pmem)

lemma page_offset:
  assumes "unat (a :: u32) = 4096 * n" "i < 4096"
  shows "frame_no (a + of_nat i) = n"
proof -
  have "unat (a + of_nat i) = (4096 * n + i) mod 2 ^ 32"
    using assms by (simp add: unat_word_ariths unat_of_nat)
  moreover have "n < 1048576" using assms unat_u32_less [of a] by simp
  then have "4096 * n + i < 2 ^ 32" using assms(2) by simp
  ultimately show ?thesis using assms(2) by (simp add: frame_no_def)
qed

lemma kvm_page_alloc_zeroed_eq:
  assumes "kvm_ok s" "unat (kheap_top s) < unat KSTACK_BEGIN"
  shows "\<exists>s'. kvm_page_alloc_zeroed km s = (kheap_top s, s') \<and> kvm_grown 1 s s'"
proof -
  let ?top = "kheap_top s"
  obtain s1 where s1: "kvm_page_alloc km s = (?top, s1)" "kvm_grown 1 s s1"
    using kvm_page_alloc_eq [OF assms] by blast
  have "?top \<noteq> 0" using assms by (metis kvm_ok_def add_gr_0 unat_0 unat_kheap_top less_irrefl)
  moreover have "mapped (?top + of_nat i) (active_dir s1) s1" if "i < 4096" for i
  proof -
    have fn: "frame_no (?top + of_nat i) = frame_no ?top"
      using page_offset [OF kheap_top_aligned [OF assms(1)] that] .
    then have "dir_i (?top + of_nat i) < 63"
      using kheap_top_dir_i [OF assms] by (simp add: dir_i_eq)
    then show ?thesis using mapped_active [of s1] s1(2) fn by (simp add: kvm_grown_def)
  qed
  ultimately show ?thesis
    using s1 vmemset_eq [of 4096 ?top s1 0] kvm_grown_pmem [OF s1(2)]
    by (auto simp: kvm_page_alloc_zeroed_def)
qed

lemma kvm_grown_refl: "kvm_ok s \<Longrightarrow> kvm_grown 0 s s"
  by (auto simp: kvm_grown_def)

lemma kvm_grown_ok: "kvm_grown k s s' \<Longrightarrow> kvm_ok s'"
  by (simp add: kvm_grown_def)

lemma kvm_grown_top:
  assumes "kvm_ok s" "kvm_grown k s s'"
  shows "unat (kheap_top s') = unat (kheap_top s) + 4096 * k"
    "frame_no (kheap_top s') = frame_no (kheap_top s) + k"
proof -
  show top: "unat (kheap_top s') = unat (kheap_top s) + 4096 * k"
    using assms kvm_grown_ok [OF assms(2)] by (simp add: unat_kheap_top kvm_grown_def)
  show "frame_no (kheap_top s') = frame_no (kheap_top s) + k" by (simp add: frame_no_def top)
qed

lemma kvm_grown_trans:
  assumes "kvm_ok s" "kvm_grown k s s1" "kvm_grown l s1 s2"
  shows "kvm_grown (k + l) s s2"
proof -
  have top: "frame_no (kheap_top s1) = frame_no (kheap_top s) + k"
    using kvm_grown_top [OF assms(1,2)] by simp
  have m: "mapped a (cur_page_dir s) s2"
    if "frame_no (kheap_top s) \<le> frame_no a" "frame_no a < frame_no (kheap_top s) + (k + l)" for a
    using that assms(2,3) top unfolding kvm_grown_def
    by (cases "frame_no a < frame_no (kheap_top s) + k") auto
  show ?thesis
    using assms(2,3) m unfolding kvm_grown_def top by (auto simp: add_ac)
qed

text \<open>The number of pages that cover \<open>n\<close> bytes.\<close>

definition pages_for :: "int \<Rightarrow> nat" where
  "pages_for n = nat ((n + 4095) div 4096)"

lemma pages_for_step: "0 < n \<Longrightarrow> pages_for n = Suc (pages_for (n - 4096))"
proof -
  assume n: "0 < n"
  have "(n - 1 + 4096) div 4096 = (n - 1) div 4096 + 1" by (rule div_add_self2) simp
  moreover have "0 \<le> (n - 1) div 4096" using n by (simp add: pos_imp_zdiv_nonneg_iff)
  ultimately show ?thesis by (simp add: pages_for_def Suc_nat_eq_nat_zadd1 add.commute)
qed

lemma ksbrk_enlarge_eq:
  assumes "kvm_ok s" "int (unat (kheap_top s)) + n \<le> int (unat KSTACK_BEGIN)"
  shows "\<exists>s'. ksbrk_enlarge km n s = (True, s') \<and> kvm_grown (pages_for n) s s'"
  using assms
proof (induction n arbitrary: s rule: measure_induct_rule [where f = nat])
  case (less n)
  show ?case
  proof (cases "0 < n")
    case True
    have "unat (kheap_top s) < unat KSTACK_BEGIN" using less.prems True by linarith
    then obtain s1 where s1: "kvm_page_alloc_zeroed km s = (kheap_top s, s1)" "kvm_grown 1 s s1"
      using kvm_page_alloc_zeroed_eq [OF less.prems(1)] by blast
    have top: "kheap_top s \<noteq> 0"
      using less.prems(1) by (metis kvm_ok_def add_gr_0 unat_0 unat_kheap_top less_irrefl)
    have "int (unat (kheap_top s1)) + (n - 4096) \<le> int (unat KSTACK_BEGIN)"
      using kvm_grown_top [OF less.prems(1) s1(2)] less.prems(2) by simp
    then obtain s2 where s2: "ksbrk_enlarge km (n - 4096) s1 = (True, s2)" "kvm_grown (pages_for (n - 4096)) s1 s2"
      using less.IH [of "n - 4096" s1] True kvm_grown_ok [OF s1(2)] by auto
    have "ksbrk_enlarge km n s = (True, s2)"
      using True s1(1) s2(1) top by (subst ksbrk_enlarge.simps) simp
    moreover have "kvm_grown (pages_for n) s s2"
      using kvm_grown_trans [OF less.prems(1) s1(2) s2(2)] by (simp add: pages_for_step [OF True])
    ultimately show ?thesis by blast
  next
    case False
    then have "pages_for n = 0" by (simp add: pages_for_def)
    then show ?thesis using False kvm_grown_refl [OF less.prems(1)]
      by (subst ksbrk_enlarge.simps) simp
  qed
qed

lemma ksbrk_grow:
  assumes "kvm_ok s" "0 < sint incr" "unat (kheap_top s) + unat incr \<le> unat KSTACK_BEGIN"
  shows "\<exists>s'. ksbrk km incr s = (kheap_top s, s') \<and> kvm_grown (pages_for (sint incr)) s s'"
proof -
  have u: "sint incr = int (unat incr)" using assms(2) by (intro sint_nonneg_u32) simp
  have "unat (kheap_start s + kheap_size s + incr) = unat (kheap_top s) + unat incr"
    using assms(3) by (simp add: kheap_top_def unat_word_ariths)
  then have "\<not> kheap_start s + kheap_size s + incr > KSTACK_BEGIN"
    using assms(3) by (simp add: word_less_nat_alt not_less)
  moreover obtain s' where "ksbrk_enlarge km (sint incr) s = (True, s')" "kvm_grown (pages_for (sint incr)) s s'"
    using ksbrk_enlarge_eq [OF assms(1)] assms(3) u by (metis of_nat_add of_nat_le_iff)
  ultimately show ?thesis using assms(2) by (simp add: ksbrk_def kheap_top_def)
qed

lemma sint_unat_less: "sint (w :: u32) = int (unat w) \<Longrightarrow> unat w < 2147483648"
  using sint_u32_lt [of w] by linarith

lemma ksbrk_no_room:
  assumes "kvm_ok s" "0 < sint incr" "unat (kheap_top s) + unat incr > unat KSTACK_BEGIN"
  shows "ksbrk km incr s = (- 1, s\<lparr>kerrno := Some ENOMEM\<rparr>)"
proof -
  have "sint incr = int (unat incr)" using assms(2) by (intro sint_nonneg_u32) simp
  then have "unat incr < 2147483648" by (rule sint_unat_less)
  moreover have "unat (kheap_top s) \<le> unat KSTACK_BEGIN"
    using assms(1) unat_kheap_top [OF assms(1)] by (simp add: kvm_ok_def)
  ultimately have "unat (kheap_start s + kheap_size s + incr) = unat (kheap_top s) + unat incr"
    by (simp add: kheap_top_def unat_word_ariths(1) [of _ incr])
  then have "kheap_start s + kheap_size s + incr > KSTACK_BEGIN"
    using assms(3) by (simp add: word_less_nat_alt)
  then show ?thesis using assms(2) by (simp add: ksbrk_def)
qed

section \<open>Shrinking\<close>

text \<open>
  \<open>kvm_shrunk k s s'\<close>: the heap lost \<open>k\<close> pages. The pages that are unmapped are those behind
  the new top up to and including the one behind the old top: \<open>kvm_page_free\<close> works on the
  address just past the heap.
\<close>

definition kvm_shrunk :: "nat \<Rightarrow> 'z kvm_st_scheme \<Rightarrow> 'z kvm_st_scheme \<Rightarrow> bool" where
  "kvm_shrunk k s s' \<longleftrightarrow> kvm_ok s' \<and> kheap_start s' = kheap_start s
     \<and> unat (kheap_size s') + 4096 * k = unat (kheap_size s)
     \<and> cur_page_dir s' = cur_page_dir s \<and> active_dir s' = active_dir s
     \<and> (\<forall>d. tables (dirs s' d) = tables (dirs s d)) \<and> pmem s' = pmem s
     \<and> (\<forall>t. t \<notin> tables (dirs s (cur_page_dir s)) ` {..<64} \<longrightarrow> tabs s' t = tabs s t)
     \<and> (\<forall>a. mapped a (cur_page_dir s) s' \<longleftrightarrow> mapped a (cur_page_dir s) s
          \<and> (frame_no a + k \<le> frame_no (kheap_top s) \<or> frame_no (kheap_top s) < frame_no a))
     \<and> (\<forall>a. frame_no a + k \<le> frame_no (kheap_top s) \<or> frame_no (kheap_top s) < frame_no a
          \<longrightarrow> get_phys a (cur_page_dir s) s' = get_phys a (cur_page_dir s) s)
     \<and> faulted s' = faulted s \<and> cr0_pg s' = cr0_pg s \<and> kvm_st.more s' = kvm_st.more s"

lemma frame_free_paging [simp]:
  "dirs (frame_free f s) = dirs s" "tabs (frame_free f s) = tabs s"
  "cur_page_dir (frame_free f s) = cur_page_dir s" "active_dir (frame_free f s) = active_dir s"
  "faulted (frame_free f s) = faulted s" "cr0_pg (frame_free f s) = cr0_pg s" "pmem (frame_free f s) = pmem s"
  "get_phys a d (frame_free f s) = get_phys a d s" "mapped a d (frame_free f s) = mapped a d s"
  "dir_inj d (frame_free f s) = dir_inj d s"
  by (simp_all add: frame_free_def clear_frame_def Let_def get_phys_def mapped_def dir_inj_def)

lemma frame_free_kvm [simp]:
  "kheap_start (frame_free f s) = kheap_start s" "kheap_size (frame_free f s) = kheap_size s"
  "kvm_st.more (frame_free f s) = kvm_st.more s"
  by (simp_all add: frame_free_def clear_frame_def Let_def)

lemma kvm_page_free_eq:
  assumes "kvm_ok s" "4096 \<le> unat (kheap_size s)"
  shows "kvm_shrunk 1 s (kvm_page_free km s)"
proof -
  let ?top = "kheap_top s" and ?d = "cur_page_dir s"
  let ?s = "frame_free (get_phys ?top ?d s) s"
  have "unat ?top \<le> unat KSTACK_BEGIN" using assms(1) by (simp add: unat_kheap_top kvm_ok_def)
  then have i64: "dir_i ?top < 64" by (simp add: dir_i_eq frame_no_def div_mult2_eq [symmetric] less_mult_imp_div_less)
  then have tab: "tables (dirs ?s (cur_page_dir ?s)) (dir_i ?top) \<noteq> 0" using assms(1) by (simp add: kvm_ok_def)
  have inj: "dir_inj (cur_page_dir ?s) ?s" using assms(1) by (simp add: kvm_ok_def)
  define s2 where "s2 = snd (page_map km ?top 0 0 (cur_page_dir ?s) ?s)"
  have pf: "kvm_page_free km s = s2\<lparr>kheap_size := kheap_size s2 - 4096\<rparr>"
    by (simp add: kvm_page_free_def s2_def kheap_top_def Let_def split: prod.splits)
  note other = page_map_other [OF tab, of km 0 0] page_map_kvm_other [OF tab, of km 0 0]
  have kept: "tabs s2 t = tabs s t" if "t \<notin> tables (dirs s ?d) ` {..<64}" for t
  proof -
    have "t \<noteq> tables (dirs s ?d) (dir_i ?top)" using that i64 by blast
    then show ?thesis using tab by (simp add: s2_def page_map_eq set_entry_def set_pde_def)
  qed
  have pm: "pmem s2 = pmem s" using tab by (simp add: s2_def page_map_eq set_entry_def set_pde_def)
  have size: "unat (kheap_size s - 4096) = unat (kheap_size s) - 4096"
    using assms(2) by (simp add: unat_sub word_le_nat_alt)
  have room: "frame_no a + 1 \<le> frame_no ?top \<or> frame_no ?top < frame_no a \<longleftrightarrow> frame_no a \<noteq> frame_no ?top" for a
    by auto
  show ?thesis
    unfolding kvm_shrunk_def room pf
    using assms other get_phys_page_map [OF tab inj, of _ km 0 0] mapped_page_map [OF tab inj, of _ km 0 0]
      size dir_inj_tables_cong [of s2 ?d s] kept pm
    by (auto simp: s2_def kvm_ok_def)
qed

lemma kvm_shrunk_top:
  assumes "kvm_ok s" "kvm_shrunk k s s'"
  shows "unat (kheap_top s') + 4096 * k = unat (kheap_top s)"
    "frame_no (kheap_top s') + k = frame_no (kheap_top s)"
proof -
  have ok': "kvm_ok s'" using assms(2) by (simp add: kvm_shrunk_def)
  show top: "unat (kheap_top s') + 4096 * k = unat (kheap_top s)"
    using assms ok' by (simp add: unat_kheap_top kvm_shrunk_def)
  show "frame_no (kheap_top s') + k = frame_no (kheap_top s)"
    using top kheap_top_aligned [OF assms(1)] kheap_top_aligned [OF ok'] by linarith
qed

lemma kvm_shrunk_trans:
  assumes "kvm_ok s" "kvm_shrunk 1 s s1" "kvm_shrunk l s1 s2"
  shows "kvm_shrunk (Suc l) s s2"
proof -
  have top: "frame_no (kheap_top s1) + 1 = frame_no (kheap_top s)"
    using kvm_shrunk_top [OF assms(1,2)] by simp
  have range: "(frame_no a + l \<le> frame_no (kheap_top s1) \<or> frame_no (kheap_top s1) < frame_no a)
       \<and> (frame_no a + 1 \<le> frame_no (kheap_top s) \<or> frame_no (kheap_top s) < frame_no a)
     \<longleftrightarrow> frame_no a + Suc l \<le> frame_no (kheap_top s) \<or> frame_no (kheap_top s) < frame_no a" for a
    using top by auto
  show ?thesis
    using assms(2,3) unfolding kvm_shrunk_def range [symmetric] by auto
qed

lemma ksbrk_shrink_eq:
  assumes "kvm_ok s" "pages_for (- n) * 4096 \<le> unat (kheap_size s)"
  shows "kvm_shrunk (pages_for (- n)) s (ksbrk_shrink km n s)"
  using assms
proof (induction n arbitrary: s rule: measure_induct_rule [where f = "\<lambda>n. nat (- n)"])
  case (less n)
  show ?case
  proof (cases "n < 0")
    case True
    then have p: "pages_for (- n) = Suc (pages_for (- (n + 4096)))"
      using pages_for_step [of "- n"] by simp
    have s1: "kvm_shrunk 1 s (kvm_page_free km s)"
      using less.prems p by (intro kvm_page_free_eq) auto
    moreover have "kvm_shrunk (pages_for (- (n + 4096))) (kvm_page_free km s)
        (ksbrk_shrink km (n + 4096) (kvm_page_free km s))"
      using True s1 less.prems p by (intro less.IH) (auto simp: kvm_shrunk_def)
    ultimately show ?thesis
      using kvm_shrunk_trans [OF less.prems(1)] True p by (subst ksbrk_shrink.simps) auto
  next
    case False
    then have "pages_for (- n) = 0" by (simp add: pages_for_def)
    then show ?thesis using False less.prems(1)
      by (subst ksbrk_shrink.simps) (auto simp: kvm_shrunk_def)
  qed
qed

lemma sint_neg_u32:
  assumes "sint (w :: u32) < 0"
  shows "int (unat w) = 2 ^ 32 + sint w"
proof -
  have "- (2 ^ 31) \<le> sint w" using sint_ge [of w] by simp
  then have "(sint w) mod 2 ^ 32 = 2 ^ 32 + sint w"
    using assms mod_pos_pos_trivial [of "2 ^ 32 + sint w" "2 ^ 32"] by (simp add: mod_add_self1)
  moreover have "uint (word_of_int k :: u32) = k mod 2 ^ 32" for k
    by (simp add: uint_word_of_int)
  ultimately show ?thesis by (metis of_int_sint scast_id uint_nat)
qed

lemma ksbrk_shrinks:
  assumes "kvm_ok s" "sint incr < 0" "- sint incr \<le> int (unat (kheap_size s))"
  shows "\<exists>s'. ksbrk km incr s = (kheap_top s, s') \<and> kvm_shrunk (nat (- sint incr div 4096)) s s'"
proof -
  have "int (unat (kheap_top s)) - - sint incr \<ge> int (unat (kheap_start s))"
    using assms(3) unat_kheap_top [OF assms(1)] by simp
  moreover have "int (unat (kheap_top s + incr)) = int (unat (kheap_top s)) + sint incr"
  proof -
    have "int (unat (kheap_top s)) + int (unat incr) = int (unat (kheap_top s)) + sint incr + 2 ^ 32"
      using sint_neg_u32 [OF assms(2)] by simp
    moreover have "0 \<le> int (unat (kheap_top s)) + sint incr"
      using assms(3) unat_kheap_top [OF assms(1)] by linarith
    moreover have "int (unat (kheap_top s)) + sint incr < 4294967296"
      using assms(2) unat_u32_lt [of "kheap_top s"] by linarith
    ultimately show ?thesis
      using mod_add_self2 [of "int (unat (kheap_top s)) + sint incr" 4294967296]
      by (simp add: unat_word_ariths zmod_int add.assoc)
  qed
  ultimately have "\<not> kheap_start s + kheap_size s + incr < kheap_start s"
    by (simp add: word_less_def kheap_top_def not_less)
  moreover have p: "pages_for (- (sint incr + 4095)) = nat (- sint incr div 4096)"
    by (simp add: pages_for_def)
  moreover have "nat (- sint incr div 4096) * 4096 \<le> unat (kheap_size s)"
  proof -
    have "nat (- sint incr) \<le> unat (kheap_size s)" using assms(3) by linarith
    then show ?thesis using div_times_less_eq_dividend [of "nat (- sint incr)" 4096]
      by (simp add: nat_div_distrib)
  qed
  ultimately show ?thesis
    using ksbrk_shrink_eq [OF assms(1), of "sint incr + 4095" km] assms(2)
    by (simp add: ksbrk_def kheap_top_def)
qed

section \<open>Properties\<close>

text \<open>A boot directory with its 64 kernel tables, and a heap of two pages at 4 MiB.\<close>

definition sample_kvm :: kvm_st where
  "sample_kvm = \<lparr>frames = (\<lambda>_. 1), memsize = 64, kerrno = None, identity_end = 0x400000,
     cur_page_dir = 0x3000,
     dirs = (\<lambda>_. \<lparr>tables = (\<lambda>i. if i < 64 then of_nat (4096 * (i + 16)) else 0),
                 tables_phys = (\<lambda>_. zero_pde)\<rparr>),
     tabs = (\<lambda>_ _. zero_page), pmem = (\<lambda>_. 0), active_dir = 0x3000, cr3 = 0, cr0_pg = True,
     faulted = False, kheap_start = 0x400000, kheap_size = 0x2000\<rparr>"

lemma kvm_ok_sample: "kvm_ok sample_kvm"
proof -
  have u: "unat (word_of_nat (4096 * (i + 16)) :: u32) = 4096 * (i + 16)" if "i < 64" for i
    by (rule unat_of_nat_u32) (use that in simp)
  have nz: "(word_of_nat (4096 * (i + 16)) :: u32) \<noteq> 0" if "i < 64" for i
  proof
    assume "(word_of_nat (4096 * (i + 16)) :: u32) = 0"
    then have "4096 * (i + 16) = unat (0 :: u32)" using u [OF that] by metis
    then show False by simp
  qed
  have inj: "i = j" if "i < 64" "j < 64" "word_of_nat (4096 * (i + 16)) = (word_of_nat (4096 * (j + 16)) :: u32)" for i j
  proof -
    have "4096 * (i + 16) = 4096 * (j + 16)" using u that by metis
    then show ?thesis by simp
  qed
  show ?thesis
    unfolding kvm_ok_def dir_inj_def using nz inj by (auto simp: sample_kvm_def split: if_splits)
qed

text \<open>
  C25. \<open>ksbrk\<close> with a positive increment that fits below the kernel stack returns the old end of
  the heap and grows the heap by the increment rounded up to pages; the new pages are mapped,
  no translation below or above them changes, and no access faults. It never calls the
  allocator of page tables.
\<close>

theorem ksbrk_grows_heap:
  assumes "kvm_ok s" "0 < sint incr" "unat (kheap_top s) + unat incr \<le> unat KSTACK_BEGIN"
  shows "\<exists>s'. ksbrk km incr s = (kheap_top s, s') \<and> kvm_grown (pages_for (sint incr)) s s'"
  by (rule ksbrk_grow [OF assms])

theorem ksbrk_grows_heap_witness:
  "\<exists>s'. ksbrk (\<lambda>s n. (0, s)) 0x1001 sample_kvm = (kheap_top sample_kvm, s')
      \<and> kvm_grown (pages_for (sint (0x1001 :: u32))) sample_kvm s'"
  by (rule ksbrk_grows_heap [OF kvm_ok_sample]) (simp_all add: sample_kvm_def kheap_top_def)

text \<open>
  \<open>ksbrk\<close> with a negative increment returns the old end and takes off whole pages, but it
  unmaps the wrong ones: the page just behind the old end instead of the page at the new end.
  The page at the new end stays mapped with its frame in use, and when the page behind the old
  end was not mapped, as it is in a heap that has never shrunk, frame 0 is marked free.
\<close>

theorem ksbrk_shrink_off_by_one:
  assumes "kvm_ok s" "sint incr < 0" "- sint incr \<le> int (unat (kheap_size s))"
  shows "\<exists>s'. ksbrk km incr s = (kheap_top s, s') \<and> kvm_shrunk (nat (- sint incr div 4096)) s s'
     \<and> mapped (kheap_top s') (cur_page_dir s) s' = mapped (kheap_top s') (cur_page_dir s) s"
proof -
  obtain s' where s': "ksbrk km incr s = (kheap_top s, s')"
      "kvm_shrunk (nat (- sint incr div 4096)) s s'"
    using ksbrk_shrinks [OF assms] by blast
  then show ?thesis using kvm_shrunk_top [OF assms(1) s'(2)] by (auto simp: kvm_shrunk_def)
qed

theorem ksbrk_shrink_off_by_one_witness:
  "\<exists>s'. ksbrk (\<lambda>s n. (0, s)) (- 0x1000) sample_kvm = (kheap_top sample_kvm, s')
     \<and> kvm_shrunk (nat (- sint (- 0x1000 :: u32) div 4096)) sample_kvm s'
     \<and> mapped (kheap_top s') (cur_page_dir sample_kvm) s'
         = mapped (kheap_top s') (cur_page_dir sample_kvm) sample_kvm"
  by (rule ksbrk_shrink_off_by_one [OF kvm_ok_sample]) (simp_all add: sample_kvm_def)

text \<open>
  Freeing one page of a heap whose next page is not mapped marks physical frame 0 as free,
  the frame that \<open>identity_map\<close> reserves "so that we wont use it".
\<close>

theorem kvm_page_free_frees_frame_0:
  assumes "kvm_ok s" "\<not> mapped (kheap_top s) (cur_page_dir s) s"
  shows "frame_used (kvm_page_free km s) n \<longleftrightarrow> n \<noteq> 0 \<and> frame_used s n"
proof -
  let ?s = "frame_free (get_phys (kheap_top s) (cur_page_dir s) s) s"
  have zero: "get_phys (kheap_top s) (cur_page_dir s) s = 0"
    using assms(2) by (auto simp: get_phys_def mapped_def Let_def)
  have "unat (kheap_top s) \<le> unat KSTACK_BEGIN" using assms(1) by (simp add: unat_kheap_top kvm_ok_def)
  then have "dir_i (kheap_top s) < 64"
    by (simp add: dir_i_eq frame_no_def div_mult2_eq [symmetric] less_mult_imp_div_less)
  then have tab: "tables (dirs ?s (cur_page_dir s)) (dir_i (kheap_top s)) \<noteq> 0"
    using assms(1) by (simp add: kvm_ok_def)
  have "frames (kvm_page_free km s) = frames ?s"
    using page_map_eq [OF tab, of km 0 0] by (simp add: kvm_page_free_def kheap_top_def Let_def)
  then have "frame_used (kvm_page_free km s) n = frame_used ?s n" for n
    by (simp add: frame_used_def)
  then show ?thesis by (auto simp: zero frame_free_def frame_simps frame_no_def)
qed

theorem kvm_page_free_frees_frame_0_witness:
  "\<forall>n. frame_used (kvm_page_free (\<lambda>s n. (0, s)) sample_kvm) n \<longleftrightarrow> n \<noteq> 0 \<and> frame_used sample_kvm n"
  by (intro allI kvm_page_free_frees_frame_0 [OF kvm_ok_sample])
    (simp add: sample_kvm_def mapped_def zero_page_def)

end
