(* ===== verification/Kmalloc.thy ===== *)
theory Kmalloc
  imports Kvm Alloc
begin

text \<open>
  The kernel heap, \<^verbatim>\<open>kernel/src/mm/kmalloc.c\<close>: a doubly linked list of headers
  (\<open>kheap_node_t\<close>, 16 bytes each) in address order, first fit, with the heap's end moved by
  \<open>ksbrk\<close>. Headers live in the typed heap \<open>nodes\<close>, keyed by their address; what is in memory
  before the code writes a header is arbitrary. The statics \<open>kheap_start\<close>, \<open>kheap_end\<close> and
  \<open>kheap_size\<close> of this file are \<open>kh_start\<close>, \<open>kh_end\<close> and \<open>kh_size\<close>.

  The operations take \<open>sbrk\<close> as an argument. The locale \<open>sbrk_provider\<close> states what they need
  of it; inside it the pointer structure is refined to a list of blocks. The interpretation on
  \<open>ksbrk\<close> gives the kernel's allocator, and the locale \<open>allocator\<close> is the contract its clients,
  the file systems and the task code, rely on.
\<close>

section \<open>State\<close>

record kheap_node_t =
  n_size :: u32
  n_status :: u32
  n_next :: u32
  n_prev :: u32

record kmalloc_st = kvm_st +
  nodes :: "u32 \<Rightarrow> kheap_node_t"
  kh_start :: u32
  kh_end :: u32
  kh_size :: u32

abbreviation (input) KMALLOC_FREE :: u32 where "KMALLOC_FREE \<equiv> 1"
abbreviation (input) KMALLOC_RES :: u32 where "KMALLOC_RES \<equiv> 0"
abbreviation (input) NODE_T_SIZE :: u32 where "NODE_T_SIZE \<equiv> 16"

definition set_node :: "u32 \<Rightarrow> (kheap_node_t \<Rightarrow> kheap_node_t) \<Rightarrow> 'z kmalloc_st_scheme \<Rightarrow> 'z kmalloc_st_scheme" where
  "set_node a f s = s\<lparr>nodes := (nodes s)(a := f (nodes s a))\<rparr>"

section \<open>Operations\<close>

definition round_up :: "u32 \<Rightarrow> u32 \<Rightarrow> u32" where
  "round_up num align =
     (if num AND (align - 1) \<noteq> 0 then let num = num + align in num - num mod align else num)"

text \<open>"Make sure we have a heap"; \<open>False\<close> is the early return of NULL.\<close>

definition init_heap ::
    "(u32 \<Rightarrow> 'z kmalloc_st_scheme \<Rightarrow> u32 \<times> 'z kmalloc_st_scheme)
     \<Rightarrow> u32 \<Rightarrow> 'z kmalloc_st_scheme \<Rightarrow> bool \<times> 'z kmalloc_st_scheme" where
  "init_heap sbrk sz s =
     (if kh_start s = 0 then
        let (start, s) = sbrk (sz + PAGE_SIZE) s;
            s = s\<lparr>kh_start := start\<rparr> in
        if start = - 1 then (False, s\<lparr>kerrno := Some ENOMEM\<rparr>)
        else
          let (en, s) = sbrk 0 s;
              s = s\<lparr>kh_end := en, kh_size := en - start\<rparr> in
          (True, set_node start (\<lambda>_. \<lparr>n_size = kh_size s - NODE_T_SIZE, n_status = KMALLOC_FREE,
                                      n_next = 0, n_prev = 0\<rparr>) s)
      else (True, s))"

text \<open>The head of the loop's body: the last node is enlarged if it is too small.\<close>

definition enlarge_last ::
    "(u32 \<Rightarrow> 'z kmalloc_st_scheme \<Rightarrow> u32 \<times> 'z kmalloc_st_scheme)
     \<Rightarrow> u32 \<Rightarrow> u32 \<Rightarrow> 'z kmalloc_st_scheme \<Rightarrow> bool \<times> 'z kmalloc_st_scheme" where
  "enlarge_last sbrk sz curnode s =
     (if n_next (nodes s curnode) = 0 \<and> n_size (nodes s curnode) < sz + PAGE_SIZE then
        let (prev_end, s) = sbrk (sz + PAGE_SIZE - n_size (nodes s curnode)) s;
            (en, s) = sbrk 0 s;
            s = s\<lparr>kh_end := en\<rparr> in
        if prev_end = - 1 then (False, s\<lparr>kerrno := Some ENOMEM\<rparr>)
        else
          let s = set_node curnode (\<lambda>n. n\<lparr>n_size := n_size n + (kh_end s - prev_end)\<rparr>) s in
          (True, s\<lparr>kh_size := kh_size s + (kh_end s - prev_end)\<rparr>)
      else (True, s))"

text \<open>
  \<open>curnode + NODE_T_SIZE\<close> is arithmetic on a pointer to a 16-byte structure, so it adds 256.
\<close>

definition padding_for :: "u32 \<Rightarrow> u32 \<Rightarrow> u32" where
  "padding_for curnode align =
     (if (curnode + 16 * NODE_T_SIZE) mod align \<noteq> 0 then align - curnode mod align else 0)"

text \<open>"We have found a decent node": split off the padding and the rest, mark it reserved.\<close>

definition split_front :: "u32 \<Rightarrow> u32 \<Rightarrow> 'z kmalloc_st_scheme \<Rightarrow> u32 \<times> 'z kmalloc_st_scheme" where
  "split_front padding_amount padding s =
     (if padding_amount \<noteq> 0 \<and> padding_amount \<noteq> NODE_T_SIZE then
        let curnode = padding + padding_amount - NODE_T_SIZE;
            s = set_node padding (\<lambda>n. n\<lparr>n_size := padding_amount - 2 * NODE_T_SIZE,
                                       n_status := KMALLOC_FREE\<rparr>) s;
            s = set_node curnode (\<lambda>n. n\<lparr>n_next := n_next (nodes s padding)\<rparr>) s;
            s = set_node padding (\<lambda>n. n\<lparr>n_next := curnode\<rparr>) s;
            s = set_node curnode (\<lambda>n. n\<lparr>n_prev := padding\<rparr>) s;
            s = set_node curnode (\<lambda>n. n\<lparr>n_size := n_next n - curnode - NODE_T_SIZE\<rparr>) s in
        (curnode, s)
      else (padding, s))"

definition split_back :: "u32 \<Rightarrow> u32 \<Rightarrow> 'z kmalloc_st_scheme \<Rightarrow> 'z kmalloc_st_scheme" where
  "split_back sz curnode s =
     (if n_size (nodes s curnode) \<noteq> sz then
        let padding = curnode + NODE_T_SIZE + sz;
            s = set_node padding (\<lambda>n. n\<lparr>n_prev := curnode\<rparr>) s;
            s = set_node padding (\<lambda>n. n\<lparr>n_next := n_next (nodes s curnode)\<rparr>) s;
            s = (if n_next (nodes s padding) \<noteq> 0 then
                   let s = set_node padding (\<lambda>n. n\<lparr>n_size := n_next n - padding - NODE_T_SIZE\<rparr>) s in
                   set_node (n_next (nodes s padding)) (\<lambda>n. n\<lparr>n_prev := padding\<rparr>) s
                 else set_node padding (\<lambda>n. n\<lparr>n_size := kh_end s - padding - NODE_T_SIZE\<rparr>) s);
            s = set_node padding (\<lambda>n. n\<lparr>n_status := KMALLOC_FREE\<rparr>) s in
        set_node curnode (\<lambda>n. n\<lparr>n_next := padding\<rparr>) s
      else s)"

definition take_node :: "u32 \<Rightarrow> u32 \<Rightarrow> u32 \<Rightarrow> 'z kmalloc_st_scheme \<Rightarrow> u32 \<times> 'z kmalloc_st_scheme" where
  "take_node sz padding_amount curnode s =
     (let (curnode, s) = split_front padding_amount curnode s;
          s = split_back sz curnode s;
          s = set_node curnode (\<lambda>n. n\<lparr>n_size := sz, n_status := KMALLOC_RES\<rparr>) s in
      (curnode + NODE_T_SIZE, s))"

partial_function (option) find_node ::
    "(u32 \<Rightarrow> 'z kmalloc_st_scheme \<Rightarrow> u32 \<times> 'z kmalloc_st_scheme)
     \<Rightarrow> u32 \<Rightarrow> u32 \<Rightarrow> u32 \<Rightarrow> 'z kmalloc_st_scheme \<Rightarrow> (u32 \<times> 'z kmalloc_st_scheme) option" where
  "find_node sbrk sz align curnode s =
     (if curnode = 0 then Some (0, s)
      else
        let (grown, s) = enlarge_last sbrk sz curnode s in
        if \<not> grown then Some (0, s)
        else if n_status (nodes s curnode) = KMALLOC_RES
        then find_node sbrk sz align (n_next (nodes s curnode)) s
        else
          let padding_amount = padding_for curnode align in
          if n_size (nodes s curnode) < sz + padding_amount
          then find_node sbrk sz align (n_next (nodes s curnode)) s
          else Some (take_node sz padding_amount curnode s))"

definition do_kmalloc ::
    "(u32 \<Rightarrow> 'z kmalloc_st_scheme \<Rightarrow> u32 \<times> 'z kmalloc_st_scheme)
     \<Rightarrow> u32 \<Rightarrow> u32 \<Rightarrow> 'z kmalloc_st_scheme \<Rightarrow> (u32 \<times> 'z kmalloc_st_scheme) option" where
  "do_kmalloc sbrk sz align s =
     (if sz = 0 then Some (0, s)
      else
        let sz = round_up sz NODE_T_SIZE;
            (have_heap, s) = init_heap sbrk sz s in
        if \<not> have_heap then Some (0, s)
        else find_node sbrk sz align (kh_start s) s)"

definition unify_fwd :: "u32 \<Rightarrow> 'z kmalloc_st_scheme \<Rightarrow> 'z kmalloc_st_scheme" where
  "unify_fwd ptr s =
     (let nxt = n_next (nodes s ptr);
          s = set_node ptr (\<lambda>n. n\<lparr>n_size := n_size n + (n_size (nodes s nxt) + NODE_T_SIZE)\<rparr>) s;
          s = set_node ptr (\<lambda>n. n\<lparr>n_next := n_next (nodes s nxt)\<rparr>) s in
      if n_next (nodes s ptr) \<noteq> 0
      then set_node (n_next (nodes s ptr)) (\<lambda>n. n\<lparr>n_prev := ptr\<rparr>) s
      else s)"

definition trim_last ::
    "(u32 \<Rightarrow> 'z kmalloc_st_scheme \<Rightarrow> u32 \<times> 'z kmalloc_st_scheme)
     \<Rightarrow> u32 \<Rightarrow> 'z kmalloc_st_scheme \<Rightarrow> 'z kmalloc_st_scheme" where
  "trim_last sbrk ptr s =
     (if n_next (nodes s ptr) = 0 \<and> n_size (nodes s ptr) > 2 * PAGE_SIZE then
        let (prev_end, s) = sbrk (- n_size (nodes s ptr)) s;
            (en, s) = sbrk 0 s;
            s = s\<lparr>kh_end := en\<rparr> in
        set_node ptr (\<lambda>n. n\<lparr>n_size := n_size n - (prev_end - kh_end s)\<rparr>) s
      else s)"

definition do_kfree ::
    "(u32 \<Rightarrow> 'z kmalloc_st_scheme \<Rightarrow> u32 \<times> 'z kmalloc_st_scheme)
     \<Rightarrow> u32 \<Rightarrow> 'z kmalloc_st_scheme \<Rightarrow> 'z kmalloc_st_scheme" where
  "do_kfree sbrk addr s =
     (let ptr = addr - NODE_T_SIZE;
          s = set_node ptr (\<lambda>n. n\<lparr>n_status := KMALLOC_FREE\<rparr>) s;
          nxt = n_next (nodes s ptr);
          s = (if nxt \<noteq> 0 \<and> n_status (nodes s nxt) = KMALLOC_FREE then unify_fwd ptr s else s);
          prv = n_prev (nodes s ptr);
          (ptr, s) = (if prv \<noteq> 0 \<and> n_status (nodes s prv) = KMALLOC_FREE
                      then (prv, unify_fwd prv s) else (ptr, s)) in
      trim_last sbrk ptr s)"

definition pre_paging_kmalloc :: "u32 \<Rightarrow> u32 \<Rightarrow> 'z paging_st_scheme \<Rightarrow> u32 \<times> 'z paging_st_scheme" where
  "pre_paging_kmalloc sz align s =
     (let (cur_alloc_start, s) = set_alloc_start 0 s;
          cur_alloc_start = round_up cur_alloc_start align;
          (_, s) = set_alloc_start (cur_alloc_start + sz) s in
      (cur_alloc_start, s))"

definition kmalloc_a ::
    "(u32 \<Rightarrow> 'z kmalloc_st_scheme \<Rightarrow> u32 \<times> 'z kmalloc_st_scheme)
     \<Rightarrow> u32 \<Rightarrow> u32 \<Rightarrow> 'z kmalloc_st_scheme \<Rightarrow> (u32 \<times> 'z kmalloc_st_scheme) option" where
  "kmalloc_a sbrk sz align s =
     (let align = round_up align NODE_T_SIZE in
      if \<not> cr0_pg s then Some (pre_paging_kmalloc sz align s)
      else do_kmalloc sbrk sz align s)"

definition kmalloc_pa ::
    "(u32 \<Rightarrow> 'z kmalloc_st_scheme \<Rightarrow> u32 \<times> 'z kmalloc_st_scheme)
     \<Rightarrow> u32 \<Rightarrow> 'z kmalloc_st_scheme \<Rightarrow> (u32 \<times> 'z kmalloc_st_scheme) option" where
  "kmalloc_pa sbrk sz s = kmalloc_a sbrk sz PAGE_SIZE s"

definition kmalloc ::
    "(u32 \<Rightarrow> 'z kmalloc_st_scheme \<Rightarrow> u32 \<times> 'z kmalloc_st_scheme)
     \<Rightarrow> u32 \<Rightarrow> 'z kmalloc_st_scheme \<Rightarrow> (u32 \<times> 'z kmalloc_st_scheme) option" where
  "kmalloc sbrk sz s = kmalloc_a sbrk sz NODE_T_SIZE s"

definition kfree ::
    "(u32 \<Rightarrow> 'z kmalloc_st_scheme \<Rightarrow> u32 \<times> 'z kmalloc_st_scheme)
     \<Rightarrow> u32 \<Rightarrow> 'z kmalloc_st_scheme \<Rightarrow> 'z kmalloc_st_scheme" where
  "kfree sbrk ptr s = (if cr0_pg s then do_kfree sbrk ptr s else s)"

section \<open>The heap as a list of blocks\<close>

text \<open>
  A block is its size and whether it is free. \<open>kchain ns p a bs e\<close>: from the header at \<open>a\<close>,
  whose predecessor is \<open>p\<close>, the headers in \<open>ns\<close> describe the adjacent blocks \<open>bs\<close>, the last of
  which ends at \<open>e\<close>. \<open>kseg\<close> is the same for a part of the list that is followed by more.
\<close>

type_synonym kblock = "nat \<times> bool"

definition mk_node :: "nat \<Rightarrow> bool \<Rightarrow> nat \<Rightarrow> nat \<Rightarrow> kheap_node_t" where
  "mk_node z fr nx p = \<lparr>n_size = of_nat z, n_status = (if fr then KMALLOC_FREE else KMALLOC_RES),
     n_next = of_nat nx, n_prev = of_nat p\<rparr>"

fun kchain :: "(u32 \<Rightarrow> kheap_node_t) \<Rightarrow> nat \<Rightarrow> nat \<Rightarrow> kblock list \<Rightarrow> nat \<Rightarrow> bool" where
  "kchain ns p a [] e \<longleftrightarrow> False"
| "kchain ns p a ((z, fr) # bs) e \<longleftrightarrow>
     ns (of_nat a) = mk_node z fr (if bs = [] then 0 else a + 16 + z) p
     \<and> (if bs = [] then a + 16 + z = e else kchain ns a (a + 16 + z) bs e)"

fun kseg :: "(u32 \<Rightarrow> kheap_node_t) \<Rightarrow> nat \<Rightarrow> nat \<Rightarrow> kblock list \<Rightarrow> nat \<Rightarrow> nat \<Rightarrow> bool" where
  "kseg ns p a [] q b \<longleftrightarrow> q = p \<and> b = a"
| "kseg ns p a ((z, fr) # bs) q b \<longleftrightarrow>
     ns (of_nat a) = mk_node z fr (a + 16 + z) p \<and> kseg ns a (a + 16 + z) bs q b"

lemma kchain_Cons:
  "bs \<noteq> [] \<Longrightarrow> kchain ns p a ((z, f) # bs) e \<longleftrightarrow>
     ns (of_nat a) = mk_node z f (a + 16 + z) p \<and> kchain ns a (a + 16 + z) bs e"
  by simp

lemma kchain_append:
  "bs \<noteq> [] \<Longrightarrow> kchain ns p a (us @ bs) e \<longleftrightarrow> (\<exists>q b. kseg ns p a us q b \<and> kchain ns q b bs e)"
proof (induction us arbitrary: p a)
  case (Cons u us)
  then show ?case by (cases u) (simp; blast)
qed simp

lemma kseg_append:
  "kseg ns p a (us @ vs) q b \<longleftrightarrow> (\<exists>q' b'. kseg ns p a us q' b' \<and> kseg ns q' b' vs q b)"
proof (induction us arbitrary: p a)
  case (Cons u us)
  show ?case by (cases u) (simp add: Cons.IH; blast)
qed simp

lemma kseg_le: "kseg ns p a us q b \<Longrightarrow> a \<le> b"
  by (induction us arbitrary: p a) force+

lemma kchain_less: "kchain ns p a bs e \<Longrightarrow> a + 16 \<le> e"
proof (induction bs arbitrary: p a)
  case (Cons b bs)
  then show ?case by (cases b) (fastforce split: if_splits)
qed simp

lemma kchain_frame:
  "kchain ns p a bs e \<Longrightarrow> (\<And>x. a \<le> x \<Longrightarrow> x < e \<Longrightarrow> ns' (of_nat x) = ns (of_nat x)) \<Longrightarrow> kchain ns' p a bs e"
proof (induction bs arbitrary: p a)
  case (Cons b bs)
  obtain z fr where b: "b = (z, fr)" by force
  have "a < e" using kchain_less [OF Cons.prems(1)] by simp
  then have hd: "ns' (of_nat a) = ns (of_nat a)" by (intro Cons.prems) simp_all
  show ?case
  proof (cases "bs = []")
    case False
    then have "kchain ns' a (a + 16 + z) bs e"
      using Cons.prems b by (intro Cons.IH) auto
    then show ?thesis using Cons.prems(1) hd b False by simp
  qed (use Cons.prems(1) hd b in simp)
qed simp

lemma kseg_frame:
  "kseg ns p a us q b \<Longrightarrow> (\<And>x. a \<le> x \<Longrightarrow> x < b \<Longrightarrow> ns' (of_nat x) = ns (of_nat x)) \<Longrightarrow> kseg ns' p a us q b"
proof (induction us arbitrary: p a)
  case (Cons u us)
  obtain z fr where u: "u = (z, fr)" by force
  have "a + 16 + z \<le> b" using Cons.prems(1) u kseg_le by auto
  then have "ns' (of_nat a) = ns (of_nat a)" by (intro Cons.prems) simp_all
  moreover have "kseg ns' a (a + 16 + z) us q b" using Cons.prems u by (intro Cons.IH) auto
  ultimately show ?case using Cons.prems(1) u by simp
qed simp

lemma of_nat_u32_inject:
  "a < 4294967296 \<Longrightarrow> b < 4294967296 \<Longrightarrow> (of_nat a :: u32) = of_nat b \<longleftrightarrow> a = b"
  using unat_of_nat_u32 by metis

lemma of_nat_u32_neq:
  "a \<noteq> b \<Longrightarrow> a < 4294967296 \<Longrightarrow> b < 4294967296 \<Longrightarrow> (of_nat a :: u32) \<noteq> of_nat b"
  by (simp only: of_nat_u32_inject not_False_eq_True)

lemma of_nat_u32_neq_0: "0 < a \<Longrightarrow> a < 4294967296 \<Longrightarrow> (of_nat a :: u32) \<noteq> 0"
  using of_nat_u32_neq [of a 0] by simp

lemma kchain_new_prev:
  assumes "kchain ns p a bs e" "e < 4294967296"
  shows "kchain (ns(of_nat a := (ns (of_nat a))\<lparr>n_prev := of_nat p'\<rparr>)) p' a bs e"
proof (cases bs)
  case (Cons b cs)
  obtain z fr where b: "b = (z, fr)" by force
  have ne: "(of_nat x :: u32) \<noteq> of_nat a" if "a < x" "x < e" for x
    using that assms(2) by (intro of_nat_u32_neq) auto
  show ?thesis
  proof (cases "cs = []")
    case False
    have "kchain (ns(of_nat a := (ns (of_nat a))\<lparr>n_prev := of_nat p'\<rparr>)) a (a + 16 + z) cs e"
    proof (rule kchain_frame [of ns])
      show "kchain ns a (a + 16 + z) cs e" using assms(1) Cons b False by simp
    next
      fix x assume "a + 16 + z \<le> x" "x < e"
      then show "(ns(of_nat a := (ns (of_nat a))\<lparr>n_prev := of_nat p'\<rparr>)) (of_nat x) = ns (of_nat x)"
        using ne [of x] by simp
    qed
    then show ?thesis using assms Cons b False by (simp add: mk_node_def)
  qed (use assms Cons b in \<open>simp add: mk_node_def\<close>)
qed (use assms in simp)

section \<open>Splitting a node\<close>

definition split_block :: "nat \<Rightarrow> nat \<Rightarrow> nat \<Rightarrow> kblock list" where
  "split_block pad sz z =
     (if pad \<noteq> 0 \<and> pad \<noteq> 16 then [(pad - 32, True), (sz, False), (z - pad - sz, True)]
      else if z = sz then [(sz, False)]
      else [(sz, False), (z - sz - 16, True)])"

lemma nodes_set_node [simp]: "nodes (set_node a f s) = (nodes s)(a := f (nodes s a))"
  by (simp add: set_node_def)

lemma set_node_other [simp]:
  "kh_start (set_node a f s) = kh_start s" "kh_end (set_node a f s) = kh_end s"
  "kh_size (set_node a f s) = kh_size s"
  by (simp_all add: set_node_def)

lemma node_all_upd:
  "n\<lparr>n_prev := a, n_next := b, n_size := c, n_status := d\<rparr>
     = \<lparr>n_size = c, n_status = d, n_next = b, n_prev = a\<rparr>"
  by (cases n) simp

lemma split_back_nodes:
  assumes node: "nodes s (of_nat a) = \<lparr>n_size = w, n_status = st, n_next = of_nat nx, n_prev = of_nat p\<rparr>"
    and w: "w \<noteq> of_nat sz"
    and b: "b = a + 16 + sz" and e: "e < 4294967296"
    and nx: "nx = 0 \<and> unat (kh_end s) = e \<or> nx = e \<and> nx \<noteq> 0"
    and room: "b + 16 \<le> e" and a: "0 < a"
  shows "nodes (split_back (of_nat sz) (of_nat a) s) =
     (let ns = (nodes s)(of_nat b := mk_node (e - b - 16) True nx a,
                         of_nat a := \<lparr>n_size = w, n_status = st, n_next = of_nat b, n_prev = of_nat p\<rparr>)
      in if nx = 0 then ns else ns(of_nat nx := (nodes s (of_nat nx))\<lparr>n_prev := of_nat b\<rparr>))"
proof -
  have lt: "a < b" "b < e" using b room by simp_all
  have ne: "(of_nat b :: u32) \<noteq> of_nat a" by (rule of_nat_u32_neq) (use lt e in linarith)+
  have ne': "(of_nat nx :: u32) \<noteq> of_nat a" "(of_nat nx :: u32) \<noteq> of_nat b" "(of_nat nx :: u32) \<noteq> 0"
    if "nx \<noteq> 0"
  proof -
    have "nx = e" using nx that by blast
    then show "(of_nat nx :: u32) \<noteq> of_nat a" "(of_nat nx :: u32) \<noteq> of_nat b" "(of_nat nx :: u32) \<noteq> 0"
      using lt e by (intro of_nat_u32_neq of_nat_u32_neq_0; linarith)+
  qed
  have addr: "(of_nat a :: u32) + 16 + of_nat sz = of_nat b" by (simp add: b)
  have diff: "(of_nat e :: u32) - of_nat b - 16 = of_nat (e - b - 16)" using room by (simp add: of_nat_diff)
  have en: "nx = 0 \<Longrightarrow> kh_end s = of_nat e" using nx by auto
  show ?thesis
  proof (cases "nx = 0")
    case True
    then show ?thesis using w ne node en diff
      by (simp add: split_back_def Let_def addr mk_node_def fun_upd_twist node_all_upd)
  next
    case False
    then show ?thesis using w ne ne' node nx diff
      by (auto simp: split_back_def Let_def addr mk_node_def fun_upd_twist node_all_upd)
  qed
qed

text \<open>
  Splitting off the rest of a node at \<open>c\<close> whose region is \<open>y\<close> bytes long. The size field \<open>w\<close> and
  the back pointer of the following node may be stale, as they are after \<open>split_front\<close>.
\<close>

lemma back_chain:
  assumes node: "nodes s (of_nat c) = \<lparr>n_size = w, n_status = st,
        n_next = of_nat (if rest = [] then 0 else c + 16 + y), n_prev = of_nat q\<rparr>"
    and w: "w \<noteq> of_nat sz" and y: "sz + 16 \<le> y" and c: "0 < c"
    and e: "e < 4294967296" "c + 16 + y \<le> e"
    and rest: "if rest = [] then c + 16 + y = e \<and> unat (kh_end s) = e
               else kchain (nodes s) x (c + 16 + y) rest e"
  defines "s' \<equiv> set_node (of_nat c) (\<lambda>n. n\<lparr>n_size := of_nat sz, n_status := KMALLOC_RES\<rparr>)
                  (split_back (of_nat sz) (of_nat c) s)"
  shows "kchain (nodes s') q c ((sz, False) # (y - sz - 16, True) # rest) e"
    and "\<And>v. v < 4294967296 \<Longrightarrow> v < c \<or> e \<le> v \<Longrightarrow> nodes s' (of_nat v) = nodes s (of_nat v)"
proof -
  define eb b where "eb = c + 16 + y" and "b = c + 16 + sz"
  define nx where "nx = (if rest = [] then 0 else eb)"
  define ns where "ns = (nodes s)(of_nat b := mk_node (eb - b - 16) True nx c,
      of_nat c := \<lparr>n_size = w, n_status = st, n_next = of_nat b, n_prev = of_nat q\<rparr>)"
  have lt: "c < b" "b < eb" "eb \<le> e" "b + 16 \<le> eb" "c < eb" using y e(2) by (auto simp: b_def eb_def)
  have eb_e: "rest = [] \<Longrightarrow> eb = e" using rest by (simp add: eb_def)
  have eb_less: "rest \<noteq> [] \<Longrightarrow> eb < e" using rest kchain_less by (fastforce simp: eb_def)
  have nxe: "nx = 0 \<and> unat (kh_end s) = eb \<or> nx = eb \<and> nx \<noteq> 0"
    using rest lt by (auto simp: nx_def eb_def)
  have sb: "nodes (split_back (of_nat sz) (of_nat c) s) = (if nx = 0 then ns
      else ns(of_nat nx := (nodes s (of_nat nx))\<lparr>n_prev := of_nat b\<rparr>))"
    using split_back_nodes [of s c w st nx q sz b eb] node w b_def nxe lt e(1) c
    by (simp add: ns_def nx_def eb_def Let_def)
  have cb: "(of_nat c :: u32) \<noteq> of_nat b" by (rule of_nat_u32_neq) (use lt e in linarith)+
  have cx: "(of_nat c :: u32) \<noteq> of_nat eb" "(of_nat b :: u32) \<noteq> of_nat eb"
    by (rule of_nat_u32_neq; use lt e in linarith)+
  have d: "eb - b - 16 = y - sz - 16" by (simp add: eb_def b_def)
  have ns': "nodes s' = (let n1 = (nodes s)(of_nat b := mk_node (y - sz - 16) True nx c,
        of_nat c := mk_node sz False b q)
      in if nx = 0 then n1 else n1(of_nat eb := (nodes s (of_nat eb))\<lparr>n_prev := of_nat b\<rparr>))"
  proof (cases "nx = 0")
    case True
    then show ?thesis unfolding s'_def nodes_set_node sb ns_def d by (simp add: mk_node_def)
  next
    case False
    then have "nx = eb" using nxe by blast
    then show ?thesis
      using False cx unfolding s'_def nodes_set_node sb ns_def d by (simp add: mk_node_def fun_upd_twist)
  qed
  show "nodes s' (of_nat v) = nodes s (of_nat v)" if "v < 4294967296" "v < c \<or> e \<le> v" for v
  proof -
    have "(of_nat v :: u32) \<noteq> of_nat b" "(of_nat v :: u32) \<noteq> of_nat c"
      using that lt e by (intro of_nat_u32_neq; linarith)+
    moreover have "(of_nat v :: u32) \<noteq> of_nat eb" if "nx \<noteq> 0"
      using that \<open>v < 4294967296\<close> \<open>v < c \<or> e \<le> v\<close> lt e eb_less
      by (intro of_nat_u32_neq) (auto simp: nx_def split: if_splits)
    ultimately show ?thesis by (simp add: ns' Let_def)
  qed
  have hd: "nodes s' (of_nat c) = mk_node sz False b q" "nodes s' (of_nat b) = mk_node (y - sz - 16) True nx c"
    using cb cx by (simp_all add: ns' Let_def)
  have tail: "kchain (nodes s') b eb rest e" if "rest \<noteq> []"
  proof (rule kchain_frame)
    show "kchain ((nodes s)(of_nat eb := (nodes s (of_nat eb))\<lparr>n_prev := of_nat b\<rparr>)) b eb rest e"
      using rest that e by (intro kchain_new_prev [of _ x]) (simp_all add: eb_def)
  next
    fix v assume v: "eb \<le> v" "v < e"
    then have "(of_nat v :: u32) \<noteq> of_nat b" "(of_nat v :: u32) \<noteq> of_nat c"
      using lt e by (intro of_nat_u32_neq; linarith)+
    then show "nodes s' (of_nat v) = ((nodes s)(of_nat eb := (nodes s (of_nat eb))\<lparr>n_prev := of_nat b\<rparr>)) (of_nat v)"
      using that lt by (simp add: ns' Let_def nx_def)
  qed
  have "b + 16 + (y - sz - 16) = eb" using y by (simp add: b_def eb_def)
  then show "kchain (nodes s') q c ((sz, False) # (y - sz - 16, True) # rest) e"
    using hd tail eb_e by (auto simp: b_def nx_def)
qed

lemma split_front_nodes:
  assumes node: "nodes s (of_nat a) = mk_node z True nx p" and pad: "32 \<le> pad" "a + pad < 4294967296"
  defines "c \<equiv> a + pad - 16"
  shows "split_front (of_nat pad) (of_nat a) s = (of_nat c, s\<lparr>nodes := (nodes s)
     (of_nat a := mk_node (pad - 32) True c p,
      of_nat c := \<lparr>n_size = of_nat nx - of_nat c - 16, n_status = n_status (nodes s (of_nat c)),
                   n_next = of_nat nx, n_prev = of_nat a\<rparr>)\<rparr>)"
proof -
  have ne: "(of_nat c :: u32) \<noteq> of_nat a" using pad by (intro of_nat_u32_neq) (auto simp: c_def)
  have "(of_nat pad :: u32) \<noteq> 0" "(of_nat pad :: u32) \<noteq> of_nat 16"
    using pad by (intro of_nat_u32_neq_0 of_nat_u32_neq; simp)+
  then have guard: "(of_nat pad :: u32) \<noteq> 0 \<and> (of_nat pad :: u32) \<noteq> 16" by simp
  have "int a + int pad - 16 = int c" using pad by (simp add: c_def)
  then have c: "(of_nat a :: u32) + of_nat pad - 16 = of_nat c"
    using pad by (simp add: c_def of_nat_diff)
  have p32: "(of_nat pad :: u32) - 32 = of_nat (pad - 32)" using pad by (simp add: of_nat_diff)
  obtain n0 where n0: "nodes s (of_nat c) = n0" by simp
  show ?thesis
    using guard ne node n0
    by (cases n0) (auto simp: split_front_def c p32 Let_def set_node_def mk_node_def fun_upd_twist)
qed

text \<open>The end of \<open>take_node\<close>: what follows \<open>split_front\<close>.\<close>

definition finish_node :: "u32 \<Rightarrow> u32 \<Rightarrow> 'z kmalloc_st_scheme \<Rightarrow> 'z kmalloc_st_scheme" where
  "finish_node sz c s = set_node c (\<lambda>n. n\<lparr>n_size := sz, n_status := KMALLOC_RES\<rparr>) (split_back sz c s)"

lemma take_node_finish:
  "take_node sz pad a s = (let (c, s1) = split_front pad a s in (c + 16, finish_node sz c s1))"
  by (simp add: take_node_def finish_node_def Let_def)

lemma finish_node_upd: "finish_node sz c s = s\<lparr>nodes := nodes (finish_node sz c s)\<rparr>"
  by (simp add: finish_node_def split_back_def set_node_def Let_def)

lemma take_node_chain:
  assumes chain: "kchain (nodes s) p a ((z, True) # rest) e" and en: "unat (kh_end s) = e"
    and e: "e < 4294967296" and a: "0 < a"
    and pad: "pad = 0 \<or> pad = 16 \<or> 32 \<le> pad" and fit: "sz + pad \<le> z"
    and grain: "z = sz \<or> sz + 16 \<le> z" and lst: "rest = [] \<Longrightarrow> sz < z"
  defines "c \<equiv> (if pad = 0 \<or> pad = 16 then a else a + pad - 16)"
  shows "\<exists>ns'. take_node (of_nat sz) (of_nat pad) (of_nat a) s = (of_nat (c + 16), s\<lparr>nodes := ns'\<rparr>)
     \<and> kchain ns' p a (split_block pad sz z @ rest) e
     \<and> (\<forall>v < 4294967296. v < a \<or> e \<le> v \<longrightarrow> ns' (of_nat v) = nodes s (of_nat v))"
proof -
  have ae: "a + 16 + z \<le> e" using chain kchain_less by (fastforce split: if_splits)
  have c16: "(of_nat c :: u32) + 16 = of_nat (c + 16)" by simp
  let ?nx = "if rest = [] then 0 else a + 16 + z"
  have node: "nodes s (of_nat a) = mk_node z True ?nx p" using chain by simp
  show ?thesis
  proof (cases "pad = 0 \<or> pad = 16")
    case True
    then have front: "split_front (of_nat pad) (of_nat a) s = (of_nat a, s)" and c: "c = a"
      by (auto simp: split_front_def c_def)
    let ?s' = "finish_node (of_nat sz) (of_nat a) s"
    have take: "take_node (of_nat sz) (of_nat pad) (of_nat a) s = (of_nat (c + 16), s\<lparr>nodes := nodes ?s'\<rparr>)"
      using front finish_node_upd [of "of_nat sz" "of_nat a" s] c by (simp add: take_node_finish)
    have "kchain (nodes ?s') p a (split_block pad sz z @ rest) e
        \<and> (\<forall>v < 4294967296. v < a \<or> e \<le> v \<longrightarrow> nodes ?s' (of_nat v) = nodes s (of_nat v))"
    proof (cases "z = sz")
      case z: True
      then have ns': "nodes ?s' = (nodes s)(of_nat a := mk_node sz False ?nx p)"
        using node by (simp add: finish_node_def split_back_def mk_node_def)
      have ne: "(of_nat v :: u32) \<noteq> of_nat a" if "v < 4294967296" "v < a \<or> a + 16 + z \<le> v" for v
        using that ae e by (intro of_nat_u32_neq) auto
      have "kchain (nodes ?s') a (a + 16 + z) rest e" if "rest \<noteq> []"
      proof (rule kchain_frame [of "nodes s"])
        show "kchain (nodes s) a (a + 16 + z) rest e" using chain that by simp
        show "nodes ?s' (of_nat x) = nodes s (of_nat x)" if "a + 16 + z \<le> x" "x < e" for x
          using ne [of x] that e by (simp add: ns')
      qed
      then show ?thesis using z lst True ne ae by (auto simp: split_block_def ns')
    next
      case z: False
      then have y: "sz + 16 \<le> z" using grain by blast
      have w: "(of_nat z :: u32) \<noteq> of_nat sz" using z ae fit e by (intro of_nat_u32_neq) auto
      have rest: "if rest = [] then a + 16 + z = e \<and> unat (kh_end s) = e
          else kchain (nodes s) a (a + 16 + z) rest e"
        using chain en by (auto split: if_splits)
      show ?thesis
        using back_chain [OF _ w y a e ae rest, of 1 p] node True z
        by (auto simp: finish_node_def split_block_def mk_node_def)
    qed
    then show ?thesis using take by blast
  next
    case False
    then have p32: "32 \<le> pad" and c: "c = a + pad - 16" using pad by (auto simp: c_def)
    define y where "y = z - pad + 16"
    define s1 where "s1 = s\<lparr>nodes := (nodes s)(of_nat a := mk_node (pad - 32) True c p,
      of_nat c := \<lparr>n_size = of_nat ?nx - of_nat c - 16, n_status = n_status (nodes s (of_nat c)),
                   n_next = of_nat ?nx, n_prev = of_nat a\<rparr>)\<rparr>"
    let ?s' = "finish_node (of_nat sz) (of_nat c) s1"
    have front: "split_front (of_nat pad) (of_nat a) s = (of_nat c, s1)"
      unfolding s1_def c by (rule split_front_nodes [OF node p32]) (use ae fit e in linarith)
    have take: "take_node (of_nat sz) (of_nat pad) (of_nat a) s = (of_nat (c + 16), s\<lparr>nodes := nodes ?s'\<rparr>)"
      using front finish_node_upd [of "of_nat sz" "of_nat c" s1] by (simp add: take_node_finish s1_def)
    have lt: "a < c" "c + 16 + y = a + 16 + z" "sz + 16 \<le> y" "c < a + 16 + z"
      using p32 fit by (simp_all add: c y_def)
    have ca: "(of_nat c :: u32) \<noteq> of_nat a" using lt ae e by (intro of_nat_u32_neq) auto
    have w: "of_nat ?nx - of_nat c - 16 \<noteq> (of_nat sz :: u32)"
    proof (cases "rest = []")
      case True
      have "(of_nat (c + 16 + sz) :: u32) \<noteq> 0"
        using lt ae e by (intro of_nat_u32_neq_0) auto
      moreover have "(of_nat (c + 16 + sz) :: u32) = 0" if "of_nat ?nx - of_nat c - 16 = (of_nat sz :: u32)"
        unfolding of_nat_add that [symmetric] using True by simp
      ultimately show ?thesis by blast
    next
      case False
      then have "of_nat ?nx - of_nat c - 16 = (of_nat y :: u32)"
        using arg_cong [OF lt(2), of "of_nat :: nat \<Rightarrow> u32"] by (simp add: algebra_simps)
      moreover have "(of_nat y :: u32) \<noteq> of_nat sz" using lt ae e by (intro of_nat_u32_neq) auto
      ultimately show ?thesis by simp
    qed
    have node_c: "nodes s1 (of_nat c) = \<lparr>n_size = of_nat ?nx - of_nat c - 16,
        n_status = n_status (nodes s (of_nat c)),
        n_next = of_nat (if rest = [] then 0 else c + 16 + y), n_prev = of_nat a\<rparr>"
      unfolding lt(2) by (simp add: s1_def)
    have old: "nodes s1 (of_nat v) = nodes s (of_nat v)"
      if "v < 4294967296" "v < a \<or> a + 16 + z \<le> v" for v
    proof -
      have "(of_nat v :: u32) \<noteq> of_nat a" "(of_nat v :: u32) \<noteq> of_nat c"
        using that lt ae e by (intro of_nat_u32_neq; linarith)+
      then show ?thesis by (simp add: s1_def)
    qed
    have rest: "if rest = [] then c + 16 + y = e \<and> unat (kh_end s1) = e
        else kchain (nodes s1) a (c + 16 + y) rest e"
    proof (cases "rest = []")
      case False
      then have "kchain (nodes s) a (a + 16 + z) rest e" using chain by simp
      then have "kchain (nodes s1) a (a + 16 + z) rest e"
        by (rule kchain_frame) (use old e in simp)
      then show ?thesis using False unfolding lt(2) by simp
    qed (use chain en lt(2) in \<open>simp add: s1_def\<close>)
    have ce: "c + 16 + y \<le> e" "0 < c" using lt ae a by simp_all
    note bc = back_chain [OF node_c w lt(3) ce(2) e ce(1) rest, folded finish_node_def]
    have "nodes ?s' (of_nat a) = mk_node (pad - 32) True c p"
      using bc(2) [of a] lt ae e ca by (simp add: s1_def)
    moreover have "a + 16 + (pad - 32) = c" using p32 by (simp add: c)
    ultimately have "kchain (nodes ?s') p a ((pad - 32, True) # (sz, False) # (y - sz - 16, True) # rest) e"
      using bc(1) by (simp only: kchain.simps(2) [of _ _ _ _ _ "(sz, False) # _"] list.distinct if_False simp_thms)
    moreover have "y - sz - 16 = z - pad - sz" using fit by (simp add: y_def)
    ultimately have "kchain (nodes ?s') p a (split_block pad sz z @ rest) e"
      using False p32 by (simp only: split_block_def) simp
    moreover have "nodes ?s' (of_nat v) = nodes s (of_nat v)" if "v < 4294967296" "v < a \<or> e \<le> v" for v
      using bc(2) [of v] old [of v] that lt ae by auto
    ultimately show ?thesis using take by blast
  qed
qed

section \<open>First fit on the list of blocks\<close>

definition pad_of :: "nat \<Rightarrow> nat \<Rightarrow> nat" where
  "pad_of al a = (if (a + 256) mod al \<noteq> 0 then al - a mod al else 0)"

text \<open>The size the last block has after \<open>enlarge_last\<close>.\<close>

definition grown :: "nat \<Rightarrow> nat \<Rightarrow> nat" where
  "grown sz z = (if z < sz + 4096 then z + 4096 * ((sz + 4096 - z + 4095) div 4096) else z)"

text \<open>
  What \<open>do_kmalloc\<close> does to the list of blocks that starts at address \<open>a\<close>: the address of the
  new block's header and the new list, or \<open>None\<close> if the heap would have to grow beyond \<open>limit\<close>.
\<close>

fun alloc_blocks :: "nat \<Rightarrow> nat \<Rightarrow> nat \<Rightarrow> nat \<Rightarrow> kblock list \<Rightarrow> (nat \<times> kblock list) option" where
  "alloc_blocks limit sz al a [] = None"
| "alloc_blocks limit sz al a ((z, fr) # bs) =
     (if bs = [] then
        if z < sz + 4096 \<and> a + 16 + z + (sz + 4096 - z) > limit then None
        else Some (if pad_of al a = 0 \<or> pad_of al a = 16 then a else a + pad_of al a - 16,
                   split_block (pad_of al a) sz (grown sz z))
      else if fr \<and> sz + pad_of al a \<le> z then
        Some (if pad_of al a = 0 \<or> pad_of al a = 16 then a else a + pad_of al a - 16,
              split_block (pad_of al a) sz z @ bs)
      else map_option (\<lambda>(r, bs'). (r, (z, fr) # bs')) (alloc_blocks limit sz al (a + 16 + z) bs))"

lemma unat_mod_u32: "unat ((a :: u32) mod b) = unat a mod unat b"
  by (simp add: unat_mod_distrib)

lemma of_nat_mod_u32:
  assumes "a < 4294967296" "b < 4294967296" "0 < b"
  shows "(of_nat a :: u32) mod of_nat b = of_nat (a mod b)"
proof -
  have "unat ((of_nat a :: u32) mod of_nat b) = a mod b"
    using assms by (simp only: unat_mod_u32 unat_of_nat_u32)
  moreover have "unat (of_nat (a mod b) :: u32) = a mod b"
    using assms mod_less_divisor [of b a] by (intro unat_of_nat_u32) linarith
  ultimately show ?thesis by (simp only: word_unat_eq_iff)
qed

lemma padding_for_nat:
  assumes "a + 256 < 4294967296" "0 < al" "al < 4294967296"
  shows "padding_for (of_nat a) (of_nat al) = of_nat (pad_of al a)"
proof -
  have m1: "(of_nat a + 256 :: u32) mod of_nat al = of_nat ((a + 256) mod al)"
    using of_nat_mod_u32 [of "a + 256" al] assms by simp
  have m2: "(of_nat a :: u32) mod of_nat al = of_nat (a mod al)"
    using of_nat_mod_u32 [of a al] assms by simp
  have "(a + 256) mod al < 4294967296" using assms mod_less_divisor [of al "a + 256"] by linarith
  then have "(of_nat ((a + 256) mod al) :: u32) = 0 \<longleftrightarrow> (a + 256) mod al = 0"
    using of_nat_u32_neq_0 [of "(a + 256) mod al"] by (cases "(a + 256) mod al = 0") simp_all
  moreover have "(of_nat al :: u32) - of_nat (a mod al) = of_nat (al - a mod al)"
    using assms by (simp add: of_nat_diff)
  ultimately show ?thesis by (simp add: padding_for_def pad_of_def m1 m2)
qed

lemma pad_of_cases:
  assumes "al = 16 \<or> al = 4096" "16 dvd a"
  shows "pad_of al a = 0 \<or> pad_of al a = 16 \<or> 32 \<le> pad_of al a" "pad_of al a \<le> 4096" "16 dvd pad_of al a"
proof -
  have "16 dvd a mod al" using assms by (auto simp: dvd_mod_iff)
  then show d: "16 dvd pad_of al a" using assms by (auto simp: pad_of_def dvd_diff_nat)
  show "pad_of al a \<le> 4096" using assms by (auto simp: pad_of_def)
  show "pad_of al a = 0 \<or> pad_of al a = 16 \<or> 32 \<le> pad_of al a" using d by auto
qed

lemma grown_ge: "sz + 4096 \<le> grown sz z" "z \<le> grown sz z"
proof -
  have "n \<le> 4096 * ((n + 4095) div 4096)" for n :: nat
    using div_mult_mod_eq [of "n + 4095" 4096] mod_less_divisor [of 4096 "n + 4095"] by linarith
  from this [of "sz + 4096 - z"] show "sz + 4096 \<le> grown sz z" "z \<le> grown sz z"
    by (auto simp: grown_def)
qed

lemma grown_dvd: "16 dvd z \<Longrightarrow> 16 dvd grown sz z"
  by (simp add: grown_def)

lemma grain16: "16 dvd sz \<Longrightarrow> 16 dvd z \<Longrightarrow> sz \<le> z \<Longrightarrow> z = sz \<or> sz + 16 \<le> (z :: nat)"
  by (auto elim!: dvdE)

lemma split_block_nonempty: "split_block pad sz z \<noteq> []"
  by (simp add: split_block_def)

lemma split_block_last: "sz < z \<Longrightarrow> snd (last (split_block pad sz z))"
  by (simp add: split_block_def)

lemma split_block_dvd:
  "16 dvd pad \<Longrightarrow> 16 dvd sz \<Longrightarrow> 16 dvd z \<Longrightarrow> b \<in> set (split_block pad sz z) \<Longrightarrow> 16 dvd fst b"
  by (auto simp: split_block_def dvd_diff_nat split: if_splits)

lemma not_less_of_nat:
  assumes "sz + p \<le> z" "z < 4294967296"
  shows "\<not> (of_nat z :: u32) < of_nat sz + of_nat p"
proof -
  have "unat (of_nat (sz + p) :: u32) = sz + p" "unat (of_nat z :: u32) = z"
    using assms by (intro unat_of_nat_u32; simp)+
  then show ?thesis using assms by (simp add: word_less_nat_alt)
qed

lemma less_of_nat:
  assumes "z < sz + p" "z < 4294967296" "sz + p < 4294967296"
  shows "(of_nat z :: u32) < of_nat sz + of_nat p"
proof -
  have "unat (of_nat (sz + p) :: u32) = sz + p" "unat (of_nat z :: u32) = z"
    using assms by (intro unat_of_nat_u32; simp)+
  then show ?thesis using assms by (simp add: word_less_nat_alt)
qed

section \<open>Joining nodes\<close>

lemma unify_fwd_upd: "unify_fwd ptr s = s\<lparr>nodes := nodes (unify_fwd ptr s)\<rparr>"
  by (simp add: unify_fwd_def set_node_def Let_def)

lemma unify_fwd_other [simp]:
  "kh_start (unify_fwd p s) = kh_start s" "kh_end (unify_fwd p s) = kh_end s" "cr0_pg (unify_fwd p s) = cr0_pg s"
  by (simp_all add: unify_fwd_def set_node_def Let_def)

lemma unify_fwd_chain:
  assumes chain: "kchain (nodes s) p a ((z1, f1) # (z2, f2) # rest) e" and e: "e < 4294967296" and a: "0 < a"
  shows "kchain (nodes (unify_fwd (of_nat a) s)) p a ((z1 + 16 + z2, f1) # rest) e"
    and "\<And>v. v < 4294967296 \<Longrightarrow> v < a \<or> e \<le> v \<Longrightarrow> nodes (unify_fwd (of_nat a) s) (of_nat v) = nodes s (of_nat v)"
proof -
  define b c where "b = a + 16 + z1" and "c = b + 16 + z2"
  define nn where "nn = (if rest = [] then 0 else c)"
  have na: "nodes s (of_nat a) = mk_node z1 f1 b p" and nb: "nodes s (of_nat b) = mk_node z2 f2 nn a"
    using chain by (simp_all add: b_def c_def nn_def)
  have tail: "if rest = [] then c = e else kchain (nodes s) b c rest e"
    using chain by (auto simp: b_def c_def)
  have lt: "a < b" "b < c" "c \<le> e" using tail kchain_less by (auto simp: b_def c_def split: if_splits) fastforce
  have ce: "c < e" if "rest \<noteq> []" using tail that kchain_less by fastforce
  have ab: "(of_nat b :: u32) \<noteq> of_nat a" by (rule of_nat_u32_neq) (use lt e in linarith)+
  have ac: "(of_nat c :: u32) \<noteq> of_nat a" by (rule of_nat_u32_neq) (use lt e in linarith)+
  have c0: "(of_nat c :: u32) \<noteq> 0" if "rest \<noteq> []" using lt e ce [OF that] by (intro of_nat_u32_neq_0) auto
  define n1 where "n1 = (nodes s)(of_nat a := mk_node (z1 + 16 + z2) f1 nn p)"
  have ns: "nodes (unify_fwd (of_nat a) s)
      = (if rest = [] then n1 else n1(of_nat c := (nodes s (of_nat c))\<lparr>n_prev := of_nat a\<rparr>))"
    using na nb ab ac c0
    by (auto simp: unify_fwd_def Let_def mk_node_def nn_def n1_def add_ac)
  show "nodes (unify_fwd (of_nat a) s) (of_nat v) = nodes s (of_nat v)"
    if "v < 4294967296" "v < a \<or> e \<le> v" for v
  proof -
    have "(of_nat v :: u32) \<noteq> of_nat a" using that lt e by (intro of_nat_u32_neq) auto
    moreover have "(of_nat v :: u32) \<noteq> of_nat c" if "rest \<noteq> []"
      using \<open>v < 4294967296\<close> \<open>v < a \<or> e \<le> v\<close> lt e ce [OF that] by (intro of_nat_u32_neq) auto
    ultimately show ?thesis by (simp add: ns n1_def)
  qed
  have len: "a + 16 + (z1 + 16 + z2) = c" by (simp add: b_def c_def)
  have "kchain (nodes (unify_fwd (of_nat a) s)) a c rest e" if "rest \<noteq> []"
  proof (rule kchain_frame)
    show "kchain ((nodes s)(of_nat c := (nodes s (of_nat c))\<lparr>n_prev := of_nat a\<rparr>)) a c rest e"
      using tail that e by (intro kchain_new_prev [of _ b]) simp_all
  next
    fix v assume "c \<le> v" "v < e"
    then have "(of_nat v :: u32) \<noteq> of_nat a" using lt e by (intro of_nat_u32_neq) auto
    then show "nodes (unify_fwd (of_nat a) s) (of_nat v)
        = ((nodes s)(of_nat c := (nodes s (of_nat c))\<lparr>n_prev := of_nat a\<rparr>)) (of_nat v)"
      using that by (simp add: ns n1_def)
  qed
  moreover have "nodes (unify_fwd (of_nat a) s) (of_nat a) = mk_node (z1 + 16 + z2) f1 nn p"
    using ac by (simp add: ns n1_def)
  ultimately show "kchain (nodes (unify_fwd (of_nat a) s)) p a ((z1 + 16 + z2, f1) # rest) e"
    using tail len by (simp add: nn_def del: add.assoc)
qed

lemma set_status_chain:
  assumes chain: "kchain (nodes s) p a ((z, f) # rest) e" and e: "e < 4294967296"
  defines "s' \<equiv> set_node (of_nat a) (\<lambda>n. n\<lparr>n_status := KMALLOC_FREE\<rparr>) s"
  shows "kchain (nodes s') p a ((z, True) # rest) e"
    and "\<And>v. v < 4294967296 \<Longrightarrow> v \<noteq> a \<Longrightarrow> nodes s' (of_nat v) = nodes s (of_nat v)"
proof -
  have ae: "a + 16 \<le> e" using kchain_less [OF chain] .
  show old: "nodes s' (of_nat v) = nodes s (of_nat v)" if "v < 4294967296" "v \<noteq> a" for v
    using of_nat_u32_neq [of v a] that ae e by (simp add: s'_def)
  have "kchain (nodes s') a (a + 16 + z) rest e" if "rest \<noteq> []"
  proof (rule kchain_frame [of "nodes s"])
    show "kchain (nodes s) a (a + 16 + z) rest e" using chain that by simp
  qed (use old e in auto)
  then show "kchain (nodes s') p a ((z, True) # rest) e"
    using chain by (simp add: s'_def mk_node_def)
qed

text \<open>What freeing a block of size \<open>z\<close> between \<open>us\<close> and \<open>vs\<close> does to the list.\<close>

definition merge_next :: "nat \<Rightarrow> kblock list \<Rightarrow> nat \<times> kblock list" where
  "merge_next z vs = (if vs \<noteq> [] \<and> snd (hd vs) then (z + 16 + fst (hd vs), tl vs) else (z, vs))"

definition merge_prev :: "kblock list \<Rightarrow> nat \<Rightarrow> kblock list \<times> nat" where
  "merge_prev us m = (if us \<noteq> [] \<and> snd (last us) then (butlast us, fst (last us) + 16 + m) else (us, m))"

definition trimmed :: "nat \<Rightarrow> kblock list \<Rightarrow> nat" where
  "trimmed m rest = (if rest = [] \<and> 8192 < m then m mod 4096 else m)"

definition free_blocks :: "kblock list \<Rightarrow> nat \<Rightarrow> kblock list \<Rightarrow> kblock list" where
  "free_blocks us z vs =
     (let (m, rest) = merge_next z vs; (us', m') = merge_prev us m in
      us' @ (trimmed m' rest, True) # rest)"

text \<open>The address of the block behind \<open>us\<close>.\<close>

definition blen :: "kblock list \<Rightarrow> nat" where
  "blen us = (\<Sum>(z, fr) \<leftarrow> us. 16 + z)"

lemma kseg_blen: "kseg ns p a us q b \<Longrightarrow> b = a + blen us"
proof (induction us arbitrary: p a)
  case (Cons u us)
  then have "b = a + 16 + fst u + blen us" by (cases u) auto
  then show ?case by (cases u) (simp add: blen_def)
qed (simp add: blen_def)

lemma kseg_snoc:
  "kseg ns p a (us @ [(z, f)]) q b \<longleftrightarrow>
     (\<exists>q'. kseg ns p a us q' q \<and> ns (of_nat q) = mk_node z f b q' \<and> b = q + 16 + z)"
  by (auto simp: kseg_append)

text \<open>The predecessor of the node at \<open>a\<close>, read through its back pointer.\<close>

lemma prev_node:
  assumes "kseg ns 0 bs us q a" "0 < bs" "a < 4294967296"
  shows "(of_nat q :: u32) \<noteq> 0 \<and> n_status (ns (of_nat q)) = 1 \<longleftrightarrow> us \<noteq> [] \<and> snd (last us)"
proof (cases us rule: rev_cases)
  case Nil
  then show ?thesis using assms by simp
next
  case (snoc us' u)
  obtain z f where u: "u = (z, f)" by force
  obtain q' where q': "kseg ns 0 bs us' q' q" "ns (of_nat q) = mk_node z f a q'" "a = q + 16 + z"
    using assms(1) snoc u kseg_snoc by auto
  have "(of_nat q :: u32) \<noteq> 0"
    using kseg_le [OF q'(1)] assms q'(3) by (intro of_nat_u32_neq_0) auto
  then show ?thesis using q' snoc u by (simp add: mk_node_def)
qed

lemma unify_prev:
  assumes seg: "kseg (nodes s) 0 bs us q a" and chain: "kchain (nodes s) q a ((m, True) # rest) e"
    and e: "e < 4294967296" and bs: "0 < bs" and mp: "merge_prev us m = (us', m')"
  shows "if us \<noteq> [] \<and> snd (last us)
     then \<exists>q'. kseg (nodes (unify_fwd (of_nat q) s)) 0 bs us' q' q
            \<and> kchain (nodes (unify_fwd (of_nat q) s)) q' q ((m', True) # rest) e
     else \<exists>q'. kseg (nodes s) 0 bs us' q' a \<and> kchain (nodes s) q' a ((m', True) # rest) e"
proof (cases "us \<noteq> [] \<and> snd (last us)")
  case True
  then obtain z where us: "us = us' @ [(z, True)]" and m': "m' = z + 16 + m"
    using mp by (cases us rule: rev_cases) (auto simp: merge_prev_def)
  obtain q' where q': "kseg (nodes s) 0 bs us' q' q" "nodes s (of_nat q) = mk_node z True a q'" "a = q + 16 + z"
    using seg us kseg_snoc by auto
  have "kchain (nodes s) q' q ((z, True) # (m, True) # rest) e"
    using q'(2) chain kchain_Cons [of "(m, True) # rest" "nodes s" q' q z True e] unfolding q'(3) by blast
  note uc = unify_fwd_chain [OF this e]
  have q: "0 < q" "q < e" using kseg_le [OF q'(1)] bs kchain_less [OF chain] q'(3) by auto
  have "kseg (nodes (unify_fwd (of_nat q) s)) 0 bs us' q' q"
    by (rule kseg_frame [OF q'(1)]) (use uc(2) q e in auto)
  then show ?thesis using True uc(1) [OF q(1)] m' by auto
qed (use seg chain mp in \<open>auto simp: merge_prev_def\<close>)

section \<open>What the heap needs of sbrk\<close>

definition same_heap :: "'z kmalloc_st_scheme \<Rightarrow> 'z kmalloc_st_scheme \<Rightarrow> bool" where
  "same_heap s s' \<longleftrightarrow> nodes s' = nodes s \<and> kh_start s' = kh_start s \<and> kh_end s' = kh_end s
     \<and> cr0_pg s' = cr0_pg s"

locale sbrk_provider =
  fixes sbrk :: "u32 \<Rightarrow> 'z kmalloc_st_scheme \<Rightarrow> u32 \<times> 'z kmalloc_st_scheme"
    and top :: "'z kmalloc_st_scheme \<Rightarrow> nat"
    and base :: "'z kmalloc_st_scheme \<Rightarrow> nat"
    and ok :: "'z kmalloc_st_scheme \<Rightarrow> bool"
    and limit :: nat
    and kept :: "'z kmalloc_st_scheme \<Rightarrow> 'z kmalloc_st_scheme \<Rightarrow> bool"
  assumes limit: "limit < 1073741824"
    and bounds: "ok s \<Longrightarrow> 0 < base s \<and> base s \<le> top s \<and> top s \<le> limit \<and> 4096 dvd base s"
    and sbrk_0: "ok s \<Longrightarrow> sbrk 0 s = (of_nat (top s), s)"
    and grow: "ok s \<Longrightarrow> 0 < n \<Longrightarrow> top s + n \<le> limit \<Longrightarrow>
      \<exists>s'. sbrk (of_nat n) s = (of_nat (top s), s') \<and> ok s' \<and> base s' = base s
        \<and> top s' = top s + 4096 * ((n + 4095) div 4096) \<and> same_heap s s'"
    and no_room: "ok s \<Longrightarrow> 0 < n \<Longrightarrow> n < 2147483648 \<Longrightarrow> limit < top s + n \<Longrightarrow>
      \<exists>s'. sbrk (of_nat n) s = (- 1, s') \<and> ok s' \<and> base s' = base s \<and> top s' = top s \<and> same_heap s s'"
    and shrink: "ok s \<Longrightarrow> 0 < n \<Longrightarrow> n \<le> top s - base s \<Longrightarrow>
      \<exists>s'. sbrk (- of_nat n) s = (of_nat (top s), s') \<and> ok s' \<and> base s' = base s
        \<and> top s' = top s - 4096 * (n div 4096) \<and> same_heap s s' \<and> kept s s'"
    and kept_refl: "kept s s"
    and kept_upd: "kept s (s'\<lparr>nodes := ns\<rparr>) = kept s s'" "kept s (s'\<lparr>kh_end := u\<rparr>) = kept s s'"
      "kept (s\<lparr>nodes := ns\<rparr>) s' = kept s s'"
    and heap_upd: "ok (s\<lparr>nodes := ns\<rparr>) = ok s" "ok (s\<lparr>kh_start := u\<rparr>) = ok s" "ok (s\<lparr>kh_end := u\<rparr>) = ok s"
      "ok (s\<lparr>kh_size := u\<rparr>) = ok s" "ok (s\<lparr>kerrno := er\<rparr>) = ok s"
    and top_upd: "top (s\<lparr>nodes := ns\<rparr>) = top s" "top (s\<lparr>kh_start := u\<rparr>) = top s" "top (s\<lparr>kh_end := u\<rparr>) = top s"
      "top (s\<lparr>kh_size := u\<rparr>) = top s" "top (s\<lparr>kerrno := er\<rparr>) = top s"
    and base_upd: "base (s\<lparr>nodes := ns\<rparr>) = base s" "base (s\<lparr>kh_start := u\<rparr>) = base s" "base (s\<lparr>kh_end := u\<rparr>) = base s"
      "base (s\<lparr>kh_size := u\<rparr>) = base s" "base (s\<lparr>kerrno := er\<rparr>) = base s"
begin

lemmas upds = heap_upd top_upd base_upd

text \<open>The concrete heap \<open>s\<close> holds the list of blocks \<open>bs\<close>.\<close>

definition heap_is :: "'z kmalloc_st_scheme \<Rightarrow> kblock list \<Rightarrow> bool" where
  "heap_is s bs \<longleftrightarrow> ok s \<and> kh_start s = of_nat (base s) \<and> kh_end s = of_nat (top s)
     \<and> kchain (nodes s) 0 (base s) bs (top s) \<and> snd (last bs) \<and> (\<forall>b \<in> set bs. 16 dvd fst b)"

definition no_heap :: "'z kmalloc_st_scheme \<Rightarrow> bool" where
  "no_heap s \<longleftrightarrow> ok s \<and> kh_start s = 0 \<and> base s = top s"

lemma heap_isI:
  assumes "ok s" "kseg (nodes s) 0 (base s) us q a" "kchain (nodes s) q a bs (top s)"
    and "kh_start s = of_nat (base s)" "kh_end s = of_nat (top s)"
    and "snd (last bs)" "\<forall>b \<in> set us \<union> set bs. 16 dvd fst b"
  shows "heap_is s (us @ bs)"
proof -
  have ne: "bs \<noteq> []" using assms(3) by auto
  then have "kchain (nodes s) 0 (base s) (us @ bs) (top s)" using assms(2,3) kchain_append [OF ne] by blast
  then show ?thesis using assms ne by (auto simp: heap_is_def)
qed

lemma heap_isE:
  assumes "heap_is s (us @ bs)" "bs \<noteq> []"
  obtains q where "kseg (nodes s) 0 (base s) us q (base s + blen us)"
    "kchain (nodes s) q (base s + blen us) bs (top s)"
proof -
  obtain q a where "kseg (nodes s) 0 (base s) us q a" "kchain (nodes s) q a bs (top s)"
    using assms kchain_append [OF assms(2)] unfolding heap_is_def by blast
  then show thesis using that kseg_blen by blast
qed

lemma neg1_top: "ok s \<Longrightarrow> (of_nat (top s) :: u32) \<noteq> - 1"
proof
  assume ok: "ok s" and "(of_nat (top s) :: u32) = - 1"
  then have "unat (of_nat (top s) :: u32) = unat (- 1 :: u32)" by simp
  moreover have "unat (of_nat (top s) :: u32) = top s"
    using bounds [OF ok] limit by (intro unat_of_nat_u32) simp
  moreover have "unat (- 1 :: u32) = 4294967295"
    by (simp add: unsigned_minus_1_eq_mask mask_eq_exp_minus_1)
  ultimately show False using bounds [OF ok] limit by simp
qed

lemma enlarge_last_skip:
  "n_next (nodes s cur) \<noteq> 0 \<Longrightarrow> enlarge_last sbrk sz cur s = (True, s)"
  by (simp add: enlarge_last_def)

lemma enlarge_last_grows:
  assumes ok: "ok s" and node: "nodes s (of_nat a) = mk_node z True 0 p" and e: "a + 16 + z = top s"
    and sz: "sz < 1073741824" and fits: "z < sz + 4096 \<Longrightarrow> top s + (sz + 4096 - z) \<le> limit"
    and en: "kh_end s = of_nat (top s)"
  shows "\<exists>s'. enlarge_last sbrk (of_nat sz) (of_nat a) s = (True, s') \<and> ok s' \<and> base s' = base s
     \<and> kh_start s' = kh_start s \<and> kh_end s' = of_nat (top s') \<and> cr0_pg s' = cr0_pg s
     \<and> top s' = a + 16 + grown sz z
     \<and> nodes s' = (nodes s)(of_nat a := mk_node (grown sz z) True 0 p)"
proof (cases "z < sz + 4096")
  case False
  have "unat (of_nat z :: u32) = z" using bounds [OF ok] limit e by (intro unat_of_nat_u32) simp
  moreover have "unat (of_nat sz + 4096 :: u32) = sz + 4096"
    using unat_of_nat_u32 [of "sz + 4096"] sz by simp
  ultimately have "\<not> (of_nat z :: u32) < of_nat sz + 4096" using False by (simp add: word_less_nat_alt)
  then have "enlarge_last sbrk (of_nat sz) (of_nat a) s = (True, s)"
    using node by (simp add: enlarge_last_def mk_node_def)
  then show ?thesis using False ok node e en by (simp add: grown_def fun_upd_idem)
next
  case True
  let ?n = "sz + 4096 - z"
  have "unat (of_nat z :: u32) = z" using bounds [OF ok] limit e by (intro unat_of_nat_u32) simp
  moreover have "unat (of_nat sz + 4096 :: u32) = sz + 4096"
    using unat_of_nat_u32 [of "sz + 4096"] sz by simp
  ultimately have less: "(of_nat z :: u32) < of_nat sz + 4096" using True by (simp add: word_less_nat_alt)
  have arg: "(of_nat sz :: u32) + 4096 - of_nat z = of_nat ?n" using True by (simp add: of_nat_diff)
  obtain s1 where s1: "sbrk (of_nat ?n) s = (of_nat (top s), s1)" "ok s1" "base s1 = base s"
      "top s1 = top s + 4096 * ((?n + 4095) div 4096)" "same_heap s s1"
    using grow [OF ok, of ?n] True fits by auto
  have diff: "(of_nat (top s1) :: u32) - of_nat (top s) = of_nat (4096 * ((?n + 4095) div 4096))"
    by (simp add: s1(4))
  show ?thesis
    using node less arg s1 neg1_top [OF ok] sbrk_0 [OF s1(2)] True e
    by (simp add: enlarge_last_def mk_node_def Let_def diff set_node_def upds same_heap_def grown_def)
qed

lemma enlarge_last_fails:
  assumes ok: "ok s" and node: "nodes s (of_nat a) = mk_node z True 0 p" and e: "a + 16 + z = top s"
    and sz: "sz < 1073741824" and big: "z < sz + 4096" "limit < top s + (sz + 4096 - z)"
  shows "\<exists>s'. enlarge_last sbrk (of_nat sz) (of_nat a) s = (False, s') \<and> ok s' \<and> base s' = base s
     \<and> top s' = top s \<and> kh_start s' = kh_start s \<and> kh_end s' = of_nat (top s) \<and> cr0_pg s' = cr0_pg s
     \<and> nodes s' = nodes s \<and> kerrno s' = Some ENOMEM"
proof -
  let ?n = "sz + 4096 - z"
  have "unat (of_nat z :: u32) = z" using bounds [OF ok] limit e by (intro unat_of_nat_u32) simp
  moreover have "unat (of_nat sz + 4096 :: u32) = sz + 4096"
    using unat_of_nat_u32 [of "sz + 4096"] sz by simp
  ultimately have less: "(of_nat z :: u32) < of_nat sz + 4096" using big by (simp add: word_less_nat_alt)
  have arg: "(of_nat sz :: u32) + 4096 - of_nat z = of_nat ?n" using big by (simp add: of_nat_diff)
  obtain s1 where s1: "sbrk (of_nat ?n) s = (- 1, s1)" "ok s1" "base s1 = base s" "top s1 = top s" "same_heap s s1"
  proof -
    have "0 < ?n" "?n < 2147483648" using big sz by simp_all
    then show thesis using that no_room [OF ok _ _ big(2)] by blast
  qed
  show ?thesis
    using node less arg s1 sbrk_0 [OF s1(2)]
    by (simp add: enlarge_last_def mk_node_def Let_def upds same_heap_def)
qed

text \<open>The search from the node at \<open>a\<close> on, with the blocks \<open>us\<close> already passed.\<close>

lemma find_node_refines:
  assumes "ok s" "kseg (nodes s) 0 (base s) us q a" "kchain (nodes s) q a bs (top s)"
    and "kh_start s = of_nat (base s)" "kh_end s = of_nat (top s)"
    and "snd (last bs)" "\<forall>b \<in> set us \<union> set bs. 16 dvd fst b"
    and "al = 16 \<or> al = 4096" "sz < 1073741824" "16 dvd sz" "16 dvd a"
  shows "\<exists>s'. find_node sbrk (of_nat sz) (of_nat al) (of_nat a) s
        = Some (case alloc_blocks limit sz al a bs of None \<Rightarrow> 0 | Some (c, _) \<Rightarrow> of_nat (c + 16), s')
     \<and> cr0_pg s' = cr0_pg s \<and> base s' = base s
     \<and> (case alloc_blocks limit sz al a bs of
          None \<Rightarrow> heap_is s' (us @ bs) \<and> kerrno s' = Some ENOMEM
        | Some (_, bs') \<Rightarrow> heap_is s' (us @ bs'))"
  using assms
proof (induction bs arbitrary: us q a)
  case (Cons b bs)
  obtain z fr where b: "b = (z, fr)" by force
  have a_pos: "0 < a" using bounds [OF Cons.prems(1)] kseg_le [OF Cons.prems(2)] by simp
  have a_top: "a + 16 + z \<le> top s"
    using Cons.prems(3) b kchain_less by (fastforce split: if_splits)
  have lim: "top s \<le> limit" using bounds [OF Cons.prems(1)] by simp
  have a_nz: "(of_nat a :: u32) \<noteq> 0" using a_pos a_top lim limit by (intro of_nat_u32_neq_0) auto
  have pad: "padding_for (of_nat a) (of_nat al) = of_nat (pad_of al a)"
    using a_top lim limit Cons.prems(8) by (intro padding_for_nat) auto
  note pads = pad_of_cases [OF Cons.prems(8,11)]
  show ?case
  proof (cases "bs = []")
    case True
    then have fr: "fr = True" using Cons.prems(6) b by simp
    have node: "nodes s (of_nat a) = mk_node z True 0 q" and e: "a + 16 + z = top s"
      using Cons.prems(3) b True fr by simp_all
    show ?thesis
    proof (cases "z < sz + 4096 \<and> limit < top s + (sz + 4096 - z)")
      case full: True
      obtain s' where s': "enlarge_last sbrk (of_nat sz) (of_nat a) s = (False, s')" "ok s'"
          "base s' = base s" "top s' = top s" "kh_start s' = kh_start s" "kh_end s' = of_nat (top s)"
          "cr0_pg s' = cr0_pg s" "nodes s' = nodes s" "kerrno s' = Some ENOMEM"
        using enlarge_last_fails [OF Cons.prems(1) node e Cons.prems(9)] full by blast
      have none: "alloc_blocks limit sz al a (b # bs) = None"
        using full unfolding True b alloc_blocks.simps e by (simp only: simp_thms if_True)
      have "heap_is s' (us @ b # bs)"
        using s' Cons.prems kchain_append [of "b # bs"] unfolding heap_is_def by auto
      then show ?thesis using s' none a_nz by (subst find_node.simps) simp
    next
      case fits: False
      let ?z = "grown sz z" and ?p = "pad_of al a"
      obtain s1 where s1: "enlarge_last sbrk (of_nat sz) (of_nat a) s = (True, s1)" "ok s1" "base s1 = base s"
          "kh_start s1 = kh_start s" "kh_end s1 = of_nat (top s1)" "cr0_pg s1 = cr0_pg s"
          "top s1 = a + 16 + ?z" "nodes s1 = (nodes s)(of_nat a := mk_node ?z True 0 q)"
        using enlarge_last_grows [OF Cons.prems(1) node e Cons.prems(9) _ Cons.prems(5)] fits by auto
      have old: "nodes s1 (of_nat v) = nodes s (of_nat v)" if "v < a" for v
        using that a_top lim limit of_nat_u32_neq [of v a] by (simp add: s1(8))
      have seg: "kseg (nodes s1) 0 (base s1) us q a"
        unfolding s1(3) by (rule kseg_frame [OF Cons.prems(2)]) (use old in blast)
      have chain: "kchain (nodes s1) q a [(?z, True)] (top s1)" by (simp add: s1(7,8))
      have top1: "top s1 < 4294967296" using bounds [OF s1(2)] limit by simp
      have en: "unat (kh_end s1) = top s1" unfolding s1(5) by (rule unat_of_nat_u32 [OF top1])
      have fit: "sz + ?p \<le> ?z" "sz < ?z" using grown_ge(1) [of sz z] pads(2) by linarith+
      obtain ns' where ns': "take_node (of_nat sz) (of_nat ?p) (of_nat a) s1
            = (of_nat ((if ?p = 0 \<or> ?p = 16 then a else a + ?p - 16) + 16), s1\<lparr>nodes := ns'\<rparr>)"
          "kchain ns' q a (split_block ?p sz ?z @ []) (top s1)"
          "\<forall>v < 4294967296. v < a \<or> top s1 \<le> v \<longrightarrow> ns' (of_nat v) = nodes s1 (of_nat v)"
        using take_node_chain [OF chain en top1 a_pos pads(1) fit(1)] fit(2)
          grain16 [of sz ?z] Cons.prems(7,10) grown_dvd [of z sz] b by auto
      have fn: "find_node sbrk (of_nat sz) (of_nat al) (of_nat a) s
          = Some (take_node (of_nat sz) (of_nat ?p) (of_nat a) s1)"
        using s1(1,8) a_nz not_less_of_nat [OF fit(1)] s1(7) top1
        by (subst find_node.simps) (simp add: pad mk_node_def Let_def)
      have ab: "alloc_blocks limit sz al a (b # bs) = Some (if ?p = 0 \<or> ?p = 16 then a else a + ?p - 16,
          split_block ?p sz ?z)"
        using True b fits by (simp add: e)
      have "kseg ns' 0 (base s1) us q a"
        by (rule kseg_frame [OF seg]) (use ns'(3) a_top lim limit in auto)
      then have "heap_is (s1\<lparr>nodes := ns'\<rparr>) (us @ split_block ?p sz ?z)"
        using s1 ns' Cons.prems(4,7,10) pads fit b grown_dvd [of z sz] split_block_dvd [of ?p sz ?z]
        by (auto simp: heap_is_def upds kchain_append split_block_last split_block_nonempty)
      then show ?thesis using s1 ns'(1) by (simp add: fn ab upds)
    qed
  next
    case False
    have node: "nodes s (of_nat a) = mk_node z fr (a + 16 + z) q"
      and chain: "kchain (nodes s) a (a + 16 + z) bs (top s)"
      using Cons.prems(3) b False by simp_all
    have "a + 16 + z + 16 \<le> top s" using kchain_less [OF chain] .
    then have nx: "(of_nat (a + 16 + z) :: u32) \<noteq> 0"
      using lim limit by (intro of_nat_u32_neq_0) auto
    have skip: "enlarge_last sbrk (of_nat sz) (of_nat a) s = (True, s)"
      using nx node by (intro enlarge_last_skip) (simp add: mk_node_def)
    let ?p = "pad_of al a"
    have top1: "top s < 4294967296" using lim limit by simp
    show ?thesis
    proof (cases "fr \<and> sz + ?p \<le> z")
      case fit: True
      have chain': "kchain (nodes s) q a ((z, True) # bs) (top s)" using Cons.prems(3) b fit by simp
      have grain: "z = sz \<or> sz + 16 \<le> z" using fit Cons.prems(7,10) b by (intro grain16) auto
      have en: "unat (kh_end s) = top s" unfolding Cons.prems(5) by (rule unat_of_nat_u32 [OF top1])
      obtain ns' where ns': "take_node (of_nat sz) (of_nat ?p) (of_nat a) s
            = (of_nat ((if ?p = 0 \<or> ?p = 16 then a else a + ?p - 16) + 16), s\<lparr>nodes := ns'\<rparr>)"
          "kchain ns' q a (split_block ?p sz z @ bs) (top s)"
          "\<forall>v < 4294967296. v < a \<or> top s \<le> v \<longrightarrow> ns' (of_nat v) = nodes s (of_nat v)"
        using take_node_chain [OF chain' en top1 a_pos pads(1) _ grain] fit False by blast
      have fn: "find_node sbrk (of_nat sz) (of_nat al) (of_nat a) s
          = Some (take_node (of_nat sz) (of_nat ?p) (of_nat a) s)"
        using skip node a_nz not_less_of_nat [of sz ?p z] fit a_top top1
        by (subst find_node.simps) (simp add: pad mk_node_def Let_def)
      have ab: "alloc_blocks limit sz al a (b # bs) = Some (if ?p = 0 \<or> ?p = 16 then a else a + ?p - 16,
          split_block ?p sz z @ bs)"
        using False b fit by simp
      have "kseg ns' 0 (base s) us q a"
        by (rule kseg_frame [OF Cons.prems(2)]) (use ns'(3) a_top lim limit in auto)
      then have "heap_is (s\<lparr>nodes := ns'\<rparr>) (us @ split_block ?p sz z @ bs)"
        using ns' Cons.prems pads fit b split_block_dvd [of ?p sz z] False
        by (auto simp: heap_is_def upds kchain_append split_block_nonempty)
      then show ?thesis using ns'(1) by (simp add: fn ab upds)
    next
      case nofit: False
      have fn: "find_node sbrk (of_nat sz) (of_nat al) (of_nat a) s
          = find_node sbrk (of_nat sz) (of_nat al) (of_nat (a + 16 + z)) s"
        using skip node a_nz less_of_nat [of z sz ?p] nofit a_top top1 Cons.prems(9) pads(2)
        by (subst find_node.simps) (auto simp: pad mk_node_def Let_def)
      have seg: "kseg (nodes s) 0 (base s) (us @ [(z, fr)]) a (a + 16 + z)"
        using Cons.prems(2) node by (auto simp: kseg_append)
      have ab: "alloc_blocks limit sz al a (b # bs)
          = map_option (\<lambda>(r, bs'). (r, (z, fr) # bs')) (alloc_blocks limit sz al (a + 16 + z) bs)"
        using False nofit unfolding b alloc_blocks.simps by (simp only: if_False)
      have "16 dvd a + 16 + z" using Cons.prems(7,11) b by (auto intro!: dvd_add)
      then show ?thesis
        using Cons.IH [OF Cons.prems(1) seg chain Cons.prems(4,5) _ _ Cons.prems(8,9,10)] Cons.prems(6,7) False b
        unfolding fn ab by (auto split: option.splits)
    qed
  qed
qed simp

lemma round_down_16:
  assumes "n mod 16 \<noteq> 0"
  shows "n + 16 - (n + 16) mod 16 = 16 * ((n + 15 :: nat) div 16)"
proof -
  define q r where "q = n div 16" and "r = n mod 16"
  have n: "n = 16 * q + r" and r: "0 < r" "r < 16" using assms by (simp_all add: q_def r_def)
  have "(16 * q + r + 15) div 16 = q + 1" using r by (intro div_nat_eqI) simp_all
  then show ?thesis using r unfolding n by simp
qed

lemma round_up_16:
  assumes "n < 1073741824"
  shows "round_up (of_nat n) 16 = of_nat (16 * ((n + 15) div 16))"
proof -
  have "(of_nat n :: u32) AND (16 - 1) = of_nat n AND mask 4" by (simp add: mask_eq_exp_minus_1)
  moreover have "unat ((of_nat n :: u32) AND mask 4) = n mod 16"
    using assms unat_of_nat_u32 [of n] by (simp add: unat_and_mask)
  ultimately have zero: "(of_nat n :: u32) AND (16 - 1) = 0 \<longleftrightarrow> n mod 16 = 0"
    by (metis unat_eq_0)
  show ?thesis
  proof (cases "n mod 16 = 0")
    case True
    then have "16 * ((n + 15) div 16) = n" by presburger
    then show ?thesis using True zero by (simp add: round_up_def)
  next
    case False
    have m: "(of_nat n + 16 :: u32) mod 16 = of_nat ((n + 16) mod 16)"
      using of_nat_mod_u32 [of "n + 16" 16] assms by simp
    have "(of_nat n + 16 :: u32) - of_nat ((n + 16) mod 16) = of_nat (n + 16 - (n + 16) mod 16)"
      using of_nat_diff [OF mod_less_eq_dividend [of "n + 16" 16], where ?'a = u32]
      by (simp only: of_nat_add of_nat_numeral)
    moreover have "n + 16 - (n + 16) mod 16 = 16 * ((n + 15) div 16)" by (rule round_down_16 [OF False])
    ultimately have "(of_nat n + 16 :: u32) - (of_nat n + 16) mod 16 = of_nat (16 * ((n + 15) div 16))"
      unfolding m by metis
    then show ?thesis using False zero by (simp add: round_up_def Let_def)
  qed
qed

text \<open>\<open>do_kmalloc\<close> on a heap that exists implements first fit on the list of blocks.\<close>

lemma do_kmalloc_refines:
  assumes heap: "heap_is s bs" and n: "0 < n" "n < 1073741800" and al: "al = 16 \<or> al = 4096"
  defines "sz \<equiv> 16 * ((n + 15) div 16)"
  shows "\<exists>s'. do_kmalloc sbrk (of_nat n) (of_nat al) s
        = Some (case alloc_blocks limit sz al (base s) bs of None \<Rightarrow> 0 | Some (c, _) \<Rightarrow> of_nat (c + 16), s')
     \<and> cr0_pg s' = cr0_pg s \<and> base s' = base s
     \<and> (case alloc_blocks limit sz al (base s) bs of
          None \<Rightarrow> heap_is s' bs \<and> kerrno s' = Some ENOMEM
        | Some (_, bs') \<Rightarrow> heap_is s' bs')"
proof -
  have ok: "ok s" using heap by (simp add: heap_is_def)
  have b: "0 < base s" "base s < 4294967296" "16 dvd base s"
    using bounds [OF ok] limit by (auto intro: dvd_trans [of _ "4096 :: nat"])
  have "kh_start s \<noteq> 0" using heap of_nat_u32_neq_0 [OF b(1,2)] by (simp add: heap_is_def)
  then have init: "init_heap sbrk (of_nat sz) s = (True, s)" by (simp add: init_heap_def)
  have "(of_nat n :: u32) \<noteq> 0" using n by (intro of_nat_u32_neq_0) auto
  moreover have "round_up (of_nat n) 16 = of_nat sz" unfolding sz_def using n by (intro round_up_16) simp
  ultimately have "do_kmalloc sbrk (of_nat n) (of_nat al) s
      = find_node sbrk (of_nat sz) (of_nat al) (of_nat (base s)) s"
    using init heap by (simp add: do_kmalloc_def heap_is_def)
  moreover have "sz < 1073741824" "16 dvd sz" using n by (simp_all add: sz_def)
  moreover have "kseg (nodes s) 0 (base s) [] 0 (base s)" "\<forall>b \<in> set [] \<union> set bs. 16 dvd fst b"
      "kchain (nodes s) 0 (base s) bs (top s)" "kh_start s = of_nat (base s)" "kh_end s = of_nat (top s)"
      "snd (last bs)"
    using heap by (simp_all add: heap_is_def)
  ultimately show ?thesis
    using find_node_refines [OF ok, of "[]" 0 "base s" bs al sz] al b(3)
    unfolding append_Nil by simp
qed

text \<open>The first call builds the heap: one free block, from which it then allocates.\<close>

lemma init_heap_refines:
  assumes no: "no_heap s" and sz: "sz < 1073741824" "top s + sz + 4096 \<le> limit"
  shows "\<exists>s'. init_heap sbrk (of_nat sz) s = (True, s') \<and> cr0_pg s' = cr0_pg s \<and> base s' = base s
     \<and> heap_is s' [(4096 * ((sz + 4096 + 4095) div 4096) - 16, True)]"
proof -
  have ok: "ok s" and start: "kh_start s = 0" and b: "base s = top s" using no by (auto simp: no_heap_def)
  obtain s1 where s1: "sbrk (of_nat (sz + 4096)) s = (of_nat (top s), s1)" "ok s1" "base s1 = base s"
      "top s1 = top s + 4096 * ((sz + 4096 + 4095) div 4096)" "same_heap s s1"
    using grow [OF ok, of "sz + 4096"] sz by auto
  define z where "z = 4096 * ((sz + 4096 + 4095) div 4096) - 16"
  have z16: "4096 * ((sz + 4096 + 4095) div 4096) = z + 16" by (simp add: z_def)
  have arg: "(of_nat sz :: u32) + 4096 = of_nat (sz + 4096)" by simp
  define s2 where "s2 = s1\<lparr>kh_start := of_nat (top s)\<rparr>"
  have s2: "ok s2" "sbrk 0 s2 = (of_nat (top s1), s2)"
    using s1(2) sbrk_0 [of s2] by (simp_all add: s2_def upds)
  have size: "(of_nat (top s1) :: u32) - of_nat (top s) - 16 = of_nat z"
    unfolding s1(4) z16 by (simp add: of_nat_add)
  have top1: "base s + 16 + z = top s1" using s1(4) b z16 by simp
  have "4096 dvd z + 16" by (simp flip: z16)
  then have "16 dvd z + 16" by (rule dvd_trans [rotated]) simp
  then have dvd: "16 dvd z" by simp
  define s' where "s' = set_node (of_nat (top s)) (\<lambda>_. \<lparr>n_size = of_nat z, n_status = 1, n_next = 0, n_prev = 0\<rparr>)
      (s2\<lparr>kh_end := of_nat (top s1), kh_size := of_nat (top s1) - of_nat (top s)\<rparr>)"
  have "init_heap sbrk (of_nat sz) s = (True, s')"
    using start s1(1) s2(2) neg1_top [OF ok] size unfolding init_heap_def arg
    by (simp add: s2_def [symmetric] s'_def)
  moreover have "heap_is s' [(z, True)]"
    using s1 s2 top1 dvd b by (simp add: heap_is_def s'_def set_node_def s2_def upds mk_node_def)
  moreover have "cr0_pg s' = cr0_pg s" "base s' = base s"
    using s1 by (simp_all add: s'_def set_node_def s2_def upds same_heap_def)
  ultimately show ?thesis unfolding z_def by blast
qed

lemma unify_fwd_fields:
  "ok (unify_fwd p s) = ok s" "top (unify_fwd p s) = top s" "base (unify_fwd p s) = base s"
  by (metis unify_fwd_upd upds)+

lemma unify_fwd_kept: "kept (unify_fwd p s) s' = kept s s'"
  by (metis unify_fwd_upd kept_upd(3))

lemma trim_last_refines:
  assumes ok: "ok s" and seg: "kseg (nodes s) 0 (base s) us q a"
    and chain: "kchain (nodes s) q a ((m, True) # rest) (top s)"
    and st: "kh_start s = of_nat (base s)" "kh_end s = of_nat (top s)"
    and lst: "rest \<noteq> [] \<Longrightarrow> snd (last rest)"
    and dvd: "\<forall>b \<in> set us \<union> set rest. 16 dvd fst b" "16 dvd m"
  shows "heap_is (trim_last sbrk (of_nat a) s) (us @ (trimmed m rest, True) # rest)
     \<and> cr0_pg (trim_last sbrk (of_nat a) s) = cr0_pg s \<and> base (trim_last sbrk (of_nat a) s) = base s
     \<and> kept s (trim_last sbrk (of_nat a) s)"
proof -
  have lim: "top s < 1073741824" "a + 16 \<le> top s" "base s \<le> a"
    using bounds [OF ok] limit kchain_less [OF chain] kseg_le [OF seg] by auto
  have am: "a + 16 + m \<le> top s" using chain kchain_less by (fastforce split: if_splits)
  have um: "unat (of_nat m :: u32) = m" using am lim by (intro unat_of_nat_u32) simp
  show ?thesis
  proof (cases "rest = [] \<and> 8192 < m")
    case True
    have node: "nodes s (of_nat a) = mk_node m True 0 q" and e: "a + 16 + m = top s"
      using chain True by simp_all
    obtain s1 where s1: "sbrk (- of_nat m) s = (of_nat (top s), s1)" "ok s1" "base s1 = base s"
        "top s1 = top s - 4096 * (m div 4096)" "same_heap s s1" "kept s s1"
    proof -
      have "0 < m" "m \<le> top s - base s" using True e lim by linarith+
      then show thesis using that shrink [OF ok] by blast
    qed
    have k: "4096 * (m div 4096) \<le> m" by simp
    have top1: "a + 16 + m mod 4096 = top s1"
      using s1(4) e minus_mult_div_eq_mod [of m 4096] k by linarith
    have "(of_nat (top s) :: u32) - of_nat (top s1) = of_nat (4096 * (m div 4096))"
      using s1(4) k e by (simp add: of_nat_diff)
    then have size: "(of_nat m :: u32) - (of_nat (top s) - of_nat (top s1)) = of_nat (m mod 4096)"
      using k by (simp only: of_nat_diff [symmetric] minus_mult_div_eq_mod)
    have guard: "n_next (nodes s (of_nat a)) = 0 \<and> n_size (nodes s (of_nat a)) > 2 * 4096"
      using True node um by (simp add: mk_node_def word_less_nat_alt)
    let ?s' = "s1\<lparr>kh_end := of_nat (top s1), nodes := (nodes s)(of_nat a := mk_node (m mod 4096) True 0 q)\<rparr>"
    have trim: "trim_last sbrk (of_nat a) s = ?s'"
      using guard node s1 sbrk_0 [OF s1(2)] size
      by (simp add: trim_last_def Let_def set_node_def mk_node_def same_heap_def)
    have "kseg (nodes ?s') 0 (base s) us q a"
    proof (rule kseg_frame [OF seg])
      fix v assume "v < a"
      then have "(of_nat v :: u32) \<noteq> of_nat a" using lim by (intro of_nat_u32_neq) auto
      then show "nodes ?s' (of_nat v) = nodes s (of_nat v)" by simp
    qed
    moreover have "16 dvd m mod 4096" using dvd(2) by (simp add: dvd_mod)
    ultimately have "heap_is ?s' (us @ [(m mod 4096, True)])"
      using s1 st dvd top1 by (auto simp: heap_is_def upds kchain_append same_heap_def)
    then show ?thesis using s1 True by (simp add: trim trimmed_def upds same_heap_def kept_upd)
  next
    case False
    have "trim_last sbrk (of_nat a) s = s"
    proof (cases "rest = []")
      case True
      then have "\<not> n_size (nodes s (of_nat a)) > 2 * 4096"
        using False chain um by (simp add: mk_node_def word_less_nat_alt)
      then show ?thesis by (simp add: trim_last_def)
    next
      case nempty: False
      then have "kchain (nodes s) a (a + 16 + m) rest (top s)" using chain by simp
      then have "a + 16 + m + 16 \<le> top s" by (rule kchain_less)
      then have "(of_nat (a + 16 + m) :: u32) \<noteq> 0" using lim by (intro of_nat_u32_neq_0) auto
      then show ?thesis using chain nempty by (simp add: trim_last_def mk_node_def)
    qed
    moreover have "heap_is s (us @ (m, True) # rest)"
      using lst dvd by (intro heap_isI [OF ok seg chain st]) auto
    ultimately show ?thesis using False kept_refl by (auto simp: trimmed_def)
  qed
qed

lemma do_kfree_refines:
  assumes heap: "heap_is s (us @ (z, False) # vs)"
  shows "heap_is (do_kfree sbrk (of_nat (base s + blen us + 16)) s) (free_blocks us z vs)
     \<and> cr0_pg (do_kfree sbrk (of_nat (base s + blen us + 16)) s) = cr0_pg s
     \<and> base (do_kfree sbrk (of_nat (base s + blen us + 16)) s) = base s
     \<and> kept s (do_kfree sbrk (of_nat (base s + blen us + 16)) s)"
proof -
  define a where "a = base s + blen us"
  have ok: "ok s" and st: "kh_start s = of_nat (base s)" "kh_end s = of_nat (top s)"
    and dvd: "\<forall>b \<in> set us \<union> set vs. 16 dvd fst b" "16 dvd z" and vs: "vs \<noteq> []" "snd (last vs)"
    using heap by (auto simp: heap_is_def split: if_splits)
  obtain q where seg: "kseg (nodes s) 0 (base s) us q a" and chain: "kchain (nodes s) q a ((z, False) # vs) (top s)"
    using heap_isE [OF heap] unfolding a_def by blast
  have lim: "top s < 1073741824" "a + 16 \<le> top s" "0 < base s" "base s \<le> a"
    using bounds [OF ok] limit kchain_less [OF chain] kseg_le [OF seg] by auto
  have top4: "top s < 4294967296" using lim by simp
  have ptr: "(of_nat (base s + blen us + 16) :: u32) - 16 = of_nat a" by (simp add: a_def)
  define s0 where "s0 = set_node (of_nat a) (\<lambda>n. n\<lparr>n_status := 1\<rparr>) s"
  note status = set_status_chain [OF chain top4, folded s0_def]
  have seg0: "kseg (nodes s0) 0 (base s) us q a"
    by (rule kseg_frame [OF seg]) (use status(2) lim in auto)
  obtain z2 f2 ws where vs_eq: "vs = (z2, f2) # ws" using vs(1) by (cases vs) auto
  have nx: "n_next (nodes s0 (of_nat a)) = of_nat (a + 16 + z)"
    and nxs: "n_status (nodes s0 (of_nat (a + 16 + z))) = (if f2 then 1 else 0)"
    using status(1) vs_eq by (simp_all add: mk_node_def)
  have nx0: "(of_nat (a + 16 + z) :: u32) \<noteq> 0"
  proof -
    have "kchain (nodes s0) a (a + 16 + z) vs (top s)" using status(1) vs(1) by simp
    then have "a + 16 + z + 16 \<le> top s" by (rule kchain_less)
    then show ?thesis using lim by (intro of_nat_u32_neq_0) auto
  qed
  define s1 where "s1 = (if f2 then unify_fwd (of_nat a) s0 else s0)"
  obtain m rest where mr: "merge_next z vs = (m, rest)" by force
  have chain1: "kchain (nodes s1) q a ((m, True) # rest) (top s)"
    using status(1) mr unify_fwd_chain(1) [of s0 q a z True z2 f2 ws "top s"] top4 lim vs_eq
    by (auto simp: s1_def merge_next_def)
  have old1: "nodes s1 (of_nat v) = nodes s0 (of_nat v)" if "v < a" for v
    using that unify_fwd_chain(2) [of s0 q a z True z2 f2 ws "top s" v] status(1) top4 lim vs_eq
    by (auto simp: s1_def)
  have seg1: "kseg (nodes s1) 0 (base s) us q a" by (rule kseg_frame [OF seg0]) (use old1 in blast)
  have fields1: "ok s1" "base s1 = base s" "top s1 = top s" "kh_start s1 = kh_start s" "kh_end s1 = kh_end s"
      "cr0_pg s1 = cr0_pg s"
    using ok by (simp_all add: s1_def s0_def set_node_def unify_fwd_fields upds)
  have mdvd: "16 dvd m" "\<forall>b \<in> set rest. 16 dvd fst b" "rest \<noteq> [] \<Longrightarrow> snd (last rest)"
    using mr vs_eq dvd vs by (auto simp: merge_next_def split: if_splits)
  have prv: "n_prev (nodes s1 (of_nat a)) = of_nat q" using chain1 by (simp add: mk_node_def)
  define s2 where "s2 = (if us \<noteq> [] \<and> snd (last us) then unify_fwd (of_nat q) s1 else s1)"
  define b where "b = (if us \<noteq> [] \<and> snd (last us) then q else a)"
  have free: "do_kfree sbrk (of_nat (base s + blen us + 16)) s = trim_last sbrk (of_nat b) s2"
  proof -
    have next_branch: "(if n_next (nodes s0 (of_nat a)) \<noteq> 0
          \<and> n_status (nodes s0 (n_next (nodes s0 (of_nat a)))) = 1
        then unify_fwd (of_nat a) s0 else s0) = s1"
      using nx nxs nx0 by (simp add: s1_def)
    have prev_branch: "(if n_prev (nodes s1 (of_nat a)) \<noteq> 0
          \<and> n_status (nodes s1 (n_prev (nodes s1 (of_nat a)))) = 1
        then (n_prev (nodes s1 (of_nat a)), unify_fwd (n_prev (nodes s1 (of_nat a))) s1)
        else (of_nat a, s1)) = (of_nat b, s2)"
      using prev_node [OF seg1 lim(3)] lim prv by (auto simp: s2_def b_def)
    show ?thesis unfolding do_kfree_def Let_def ptr s0_def [symmetric] next_branch prev_branch by simp
  qed
  obtain us' m' where um: "merge_prev us m = (us', m')" by force
  have fields2: "ok s2" "base s2 = base s" "top s2 = top s" "kh_start s2 = of_nat (base s2)"
      "kh_end s2 = of_nat (top s2)" "cr0_pg s2 = cr0_pg s"
    using fields1 st by (simp_all add: s2_def unify_fwd_fields)
  have "\<exists>q'. kseg (nodes s2) 0 (base s) us' q' b \<and> kchain (nodes s2) q' b ((m', True) # rest) (top s)"
    using unify_prev [OF seg1 chain1 top4 lim(3) um] unfolding s2_def b_def
    by (cases "us \<noteq> [] \<and> snd (last us)") (simp_all only: if_True if_False simp_thms)
  then obtain q' where seg2: "kseg (nodes s2) 0 (base s2) us' q' b"
      and chain2: "kchain (nodes s2) q' b ((m', True) # rest) (top s2)"
    unfolding fields2(2,3) by blast
  have "16 dvd m'" "\<forall>x \<in> set us' \<union> set rest. 16 dvd fst x"
    using um mdvd dvd by (auto simp: merge_prev_def dest: in_set_butlastD split: if_splits)
  then have "heap_is (trim_last sbrk (of_nat b) s2) (us' @ (trimmed m' rest, True) # rest)
      \<and> cr0_pg (trim_last sbrk (of_nat b) s2) = cr0_pg s2 \<and> base (trim_last sbrk (of_nat b) s2) = base s2
      \<and> kept s2 (trim_last sbrk (of_nat b) s2)"
    by (intro trim_last_refines [OF fields2(1) seg2 chain2 fields2(4,5)] mdvd)
  moreover have "kept s2 s' = kept s s'" for s'
    unfolding s2_def s1_def s0_def by (simp add: unify_fwd_kept set_node_def kept_upd)
  ultimately show ?thesis unfolding free using fields2 by (simp add: free_blocks_def mr um)
qed

end

section \<open>The kernel's sbrk provides it\<close>

lemma kvm_more_same_heap:
  fixes s s' :: "'z kmalloc_st_scheme"
  assumes "kvm_st.more s' = kvm_st.more s" "cr0_pg s' = cr0_pg s"
  shows "same_heap s s'"
  using assms by (cases s; cases s') (simp add: same_heap_def)

lemma kvm_ok_heap_upd:
  "kvm_ok (s\<lparr>nodes := ns\<rparr>) = kvm_ok s" "kvm_ok (s\<lparr>kh_start := u\<rparr>) = kvm_ok s"
  "kvm_ok (s\<lparr>kh_end := u\<rparr>) = kvm_ok s" "kvm_ok (s\<lparr>kh_size := u\<rparr>) = kvm_ok s"
  "kvm_ok (s\<lparr>kerrno := er\<rparr>) = kvm_ok s"
  by (simp_all add: kvm_ok_def dir_inj_def)

lemma kheap_top_heap_upd:
  "kheap_top (s\<lparr>nodes := ns\<rparr>) = kheap_top s" "kheap_top (s\<lparr>kh_start := u\<rparr>) = kheap_top s"
  "kheap_top (s\<lparr>kh_end := u\<rparr>) = kheap_top s" "kheap_top (s\<lparr>kh_size := u\<rparr>) = kheap_top s"
  "kheap_top (s\<lparr>kerrno := er\<rparr>) = kheap_top s"
  by (simp_all add: kheap_top_def)

lemma sint_word_of_int_u32:
  "- 2147483648 \<le> k \<Longrightarrow> k < 2147483648 \<Longrightarrow> sint (word_of_int k :: u32) = k"
  by (auto simp: sint_sbintrunc' signed_take_bit_int_eq_self)

lemma sint_neg_of_nat_u32: "n \<le> 2147483648 \<Longrightarrow> sint (- of_nat n :: u32) = - int n"
  using sint_word_of_int_u32 [of "- int n"] by simp

text \<open>
  \<open>kernel_only s s'\<close>: no page table but those of kernel memory changed, and no byte of physical memory.
\<close>

definition kernel_only :: "'z paging_st_scheme \<Rightarrow> 'z paging_st_scheme \<Rightarrow> bool" where
  "kernel_only s s' \<longleftrightarrow> cur_page_dir s' = cur_page_dir s \<and> active_dir s' = active_dir s \<and> pmem s' = pmem s
     \<and> (\<forall>d. tables (dirs s' d) = tables (dirs s d))
     \<and> (\<forall>t. t \<notin> tables (dirs s (cur_page_dir s)) ` {..<64} \<longrightarrow> tabs s' t = tabs s t)"

interpretation kheap: sbrk_provider "ksbrk km" "\<lambda>s. unat (kheap_top s)" "\<lambda>s. unat (kheap_start s)"
    kvm_ok "unat KSTACK_BEGIN" kernel_only
proof unfold_locales
  fix s :: "'a kmalloc_st_scheme" and n
  assume ok: "kvm_ok s"
  have top: "unat (kheap_top s) \<le> unat KSTACK_BEGIN" "unat (kheap_start s) \<le> unat (kheap_top s)"
      "unat (kheap_top s) - unat (kheap_start s) = unat (kheap_size s)"
    using ok unat_kheap_top [OF ok] by (auto simp: kvm_ok_def)
  show "0 < unat (kheap_start s) \<and> unat (kheap_start s) \<le> unat (kheap_top s)
      \<and> unat (kheap_top s) \<le> unat KSTACK_BEGIN \<and> 4096 dvd unat (kheap_start s)"
    using ok top by (simp add: kvm_ok_def)
  show "ksbrk km 0 s = (of_nat (unat (kheap_top s)), s)" by (simp add: ksbrk_def kheap_top_def)
  {
    assume n: "0 < n" "unat (kheap_top s) + n \<le> unat KSTACK_BEGIN"
    then have u: "unat (of_nat n :: u32) = n" and si: "sint (of_nat n :: u32) = int n"
      by (auto intro!: unat_of_nat_u32 sint_of_nat_u32)
    obtain s' where s': "ksbrk km (of_nat n) s = (kheap_top s, s')" "kvm_grown (pages_for (int n)) s s'"
      using ksbrk_grow [OF ok, of "of_nat n" km] n u si by auto
    have "pages_for (int n) = (n + 4095) div 4096"
      by (simp add: pages_for_def nat_div_distrib nat_add_distrib)
    then show "\<exists>s'. ksbrk km (of_nat n) s = (of_nat (unat (kheap_top s)), s') \<and> kvm_ok s'
        \<and> unat (kheap_start s') = unat (kheap_start s)
        \<and> unat (kheap_top s') = unat (kheap_top s) + 4096 * ((n + 4095) div 4096) \<and> same_heap s s'"
      using s' kvm_grown_top [OF ok s'(2)] kvm_more_same_heap [of s' s] by (auto simp: kvm_grown_def)
  next
    assume n: "0 < n" "n < 2147483648" "unat KSTACK_BEGIN < unat (kheap_top s) + n"
    then have u: "unat (of_nat n :: u32) = n" and si: "sint (of_nat n :: u32) = int n"
      by (auto intro!: unat_of_nat_u32 sint_of_nat_u32)
    have "ksbrk km (of_nat n) s = (- 1, s\<lparr>kerrno := Some ENOMEM\<rparr>)"
      using n u si by (intro ksbrk_no_room [OF ok]) auto
    then show "\<exists>s'. ksbrk km (of_nat n) s = (- 1, s') \<and> kvm_ok s'
        \<and> unat (kheap_start s') = unat (kheap_start s) \<and> unat (kheap_top s') = unat (kheap_top s)
        \<and> same_heap s s'"
      using ok by (simp add: kvm_ok_heap_upd kheap_top_heap_upd same_heap_def)
  next
    assume n: "0 < n" "n \<le> unat (kheap_top s) - unat (kheap_start s)"
    then have n31: "n \<le> 2147483648" using top by simp
    have si: "sint (- of_nat n :: u32) = - int n" by (rule sint_neg_of_nat_u32 [OF n31])
    have "int n \<le> int (unat (kheap_size s))" using n top by linarith
    then obtain s' where s': "ksbrk km (- of_nat n) s = (kheap_top s, s')" "kvm_shrunk (nat (int n div 4096)) s s'"
      using ksbrk_shrinks [OF ok, of "- of_nat n" km] n si by auto
    have "nat (int n div 4096) = n div 4096" by (simp add: nat_div_distrib)
    then show "\<exists>s'. ksbrk km (- of_nat n) s = (of_nat (unat (kheap_top s)), s') \<and> kvm_ok s'
        \<and> unat (kheap_start s') = unat (kheap_start s)
        \<and> unat (kheap_top s') = unat (kheap_top s) - 4096 * (n div 4096) \<and> same_heap s s' \<and> kernel_only s s'"
      using s' kvm_shrunk_top [OF ok s'(2)] kvm_more_same_heap [of s' s] by (auto simp: kvm_shrunk_def kernel_only_def)
  }
qed (simp_all add: kvm_ok_heap_upd kheap_top_heap_upd kernel_only_def)

section \<open>Blocks in use\<close>

text \<open>Address and size of the blocks in use, in a list of blocks that starts at \<open>a\<close>.\<close>

fun live :: "nat \<Rightarrow> kblock list \<Rightarrow> (nat \<times> nat) set" where
  "live a [] = {}"
| "live a ((z, fr) # bs) = (if fr then {} else {(a + 16, z)}) \<union> live (a + 16 + z) bs"

lemma blen_simps [simp]: "blen [] = 0" "blen ((z, fr) # bs) = 16 + z + blen bs" "blen (us @ vs) = blen us + blen vs"
  by (simp_all add: blen_def)

lemma kchain_blen: "kchain ns p a bs e \<Longrightarrow> a + blen bs = e"
proof (induction bs arbitrary: p a)
  case (Cons b bs)
  obtain z f where "b = (z, f)" by force
  then show ?case using Cons by (cases "bs = []") (auto, metis add.assoc)
qed simp

lemma live_append [simp]: "live a (us @ vs) = live a us \<union> live (a + blen us) vs"
  by (induction us arbitrary: a) (auto simp: add_ac)

lemma live_bounds: "(p, z) \<in> live a bs \<Longrightarrow> a + 16 \<le> p \<and> p + z \<le> a + blen bs"
proof (induction bs arbitrary: a)
  case (Cons b bs)
  obtain y f where b: "b = (y, f)" by force
  show ?case
  proof (cases "(p, z) \<in> live (a + 16 + y) bs")
    case True
    then show ?thesis using Cons.IH [OF True] b by simp
  qed (use Cons.prems b in \<open>auto split: if_splits\<close>)
qed simp

lemma split_block_live:
  assumes "sz + pad \<le> z" "pad = 0 \<or> pad = 16 \<or> 32 \<le> pad" "z = sz \<or> sz + 16 \<le> z"
  shows "live a (split_block pad sz z) = {((if pad = 0 \<or> pad = 16 then a else a + pad - 16) + 16, sz)}"
    "blen (split_block pad sz z) = 16 + z"
  using assms by (auto simp: split_block_def)

lemma alloc_blocks_live:
  assumes "alloc_blocks limit sz al a bs = Some (c, bs')" "snd (last bs)" "\<forall>b \<in> set bs. 16 dvd fst b"
    and "16 dvd a" "16 dvd sz" "al = 16 \<or> al = 4096"
  shows "live a bs' = insert (c + 16, sz) (live a bs) \<and> a \<le> c \<and> 16 dvd c
     \<and> (\<forall>(p, z) \<in> live a bs. p + z \<le> c \<or> c + 16 + sz + 16 \<le> p)"
  using assms
proof (induction bs arbitrary: a bs')
  case (Cons b bs)
  obtain z fr where b: "b = (z, fr)" by force
  note pads = pad_of_cases [OF Cons.prems(6,4)]
  let ?p = "pad_of al a"
  let ?c = "if ?p = 0 \<or> ?p = 16 then a else a + ?p - 16"
  have c16: "16 dvd ?c" "a \<le> ?c" using Cons.prems(4) pads by (auto simp: dvd_diff_nat)
  consider (lst) "bs = []" "c = ?c" "bs' = split_block ?p sz (grown sz z)" "fr"
    | (fit) "bs \<noteq> []" "fr" "sz + ?p \<le> z" "c = ?c" "bs' = split_block ?p sz z @ bs"
    | (rec) cs where "bs \<noteq> []" "alloc_blocks limit sz al (a + 16 + z) bs = Some (c, cs)" "bs' = (z, fr) # cs"
    using Cons.prems(1,2) b by (auto split: if_splits)
  then show ?case
  proof cases
    case lst
    have "sz + ?p \<le> grown sz z" "sz + 16 \<le> grown sz z" using grown_ge(1) [of sz z] pads(2) by linarith+
    then show ?thesis using lst split_block_live(1) [OF _ pads(1), of sz "grown sz z" a] c16 b by simp
  next
    case fit
    have "z = sz \<or> sz + 16 \<le> z" using fit Cons.prems(3,5) b by (intro grain16) auto
    note sb = split_block_live [OF fit(3) pads(1) this]
    have "c + 16 + sz + 16 \<le> q" if "(q, y) \<in> live (a + 16 + z) bs" for q y
      using live_bounds [OF that] fit(3,4) pads(1) by (auto split: if_splits)
    then show ?thesis using fit sb c16 b by (auto simp: add_ac)
  next
    case rec
    have "16 dvd a + 16 + z" using Cons.prems(3,4) b by (auto intro!: dvd_add)
    then have IH: "live (a + 16 + z) cs = insert (c + 16, sz) (live (a + 16 + z) bs) \<and> a + 16 + z \<le> c \<and> 16 dvd c
        \<and> (\<forall>(p, z) \<in> live (a + 16 + z) bs. p + z \<le> c \<or> c + 16 + sz + 16 \<le> p)"
      using Cons.IH [OF rec(2)] Cons.prems rec(1) by auto
    then show ?thesis using rec b by auto
  qed
qed simp

lemma free_blocks_live:
  "live a (free_blocks us z vs) = live a (us @ (z, False) # vs) - {(a + blen us + 16, z)}"
proof -
  obtain m rest where m: "merge_next z vs = (m, rest)" by force
  obtain us' m' where m': "merge_prev us m = (us', m')" by force
  have vs: "live (a + 16 + z) vs = live (a + 16 + m) rest" for a
  proof (cases vs)
    case (Cons v ws)
    then show ?thesis using m by (cases v) (auto simp: merge_next_def add_ac split: if_splits)
  qed (use m in \<open>auto simp: merge_next_def\<close>)
  have us: "live a us = live a us' \<and> a + blen us + 16 + m = a + blen us' + 16 + m'"
  proof (cases us rule: rev_cases)
    case (snoc ws w)
    then show ?thesis using m' by (cases w) (auto simp: merge_prev_def add_ac split: if_splits)
  qed (use m' in \<open>auto simp: merge_prev_def\<close>)
  have "live (a + blen us + 16 + z) vs = live (a + blen us' + 16 + m') rest"
    using us vs [of "a + blen us"] by metis
  then have "live a (free_blocks us z vs) = live a us \<union> live (a + blen us + 16 + z) vs"
    using us by (auto simp: free_blocks_def m m' trimmed_def)
  moreover have "(a + blen us + 16, z) \<notin> live a us" "(a + blen us + 16, z) \<notin> live (a + blen us + 16 + z) vs"
    using live_bounds [of "a + blen us + 16" z a us] live_bounds [of "a + blen us + 16" z "a + blen us + 16 + z" vs]
    by auto
  ultimately show ?thesis by auto
qed

section \<open>Tying the knot\<close>

text \<open>
  \<open>kmalloc_a\<close> calls \<open>ksbrk\<close>, which calls \<open>page_map\<close>, which calls \<open>kmalloc_pa\<close>: the recursion is
  unfolded to the depth \<open>n\<close>. A depth of 0, and a search that does not end, halt the machine
  (\<open>faulted\<close>). In a state with the kernel's tables the nested call never happens, so a depth of
  1 is enough; the theorems are stated for every depth.
\<close>

fun kernel_alloc :: "nat \<Rightarrow> u32 \<Rightarrow> 'z kmalloc_st_scheme \<Rightarrow> u32 \<Rightarrow> u32 \<times> 'z kmalloc_st_scheme" where
  "kernel_alloc 0 al s sz = (0, s\<lparr>faulted := True\<rparr>)"
| "kernel_alloc (Suc n) al s sz =
     (case kmalloc_a (ksbrk (kernel_alloc n PAGE_SIZE)) sz al s of
        None \<Rightarrow> (0, s\<lparr>faulted := True\<rparr>)
      | Some r \<Rightarrow> r)"

declare kernel_alloc.simps [simp del]

definition kernel_free :: "nat \<Rightarrow> 'z kmalloc_st_scheme \<Rightarrow> u32 \<Rightarrow> 'z kmalloc_st_scheme" where
  "kernel_free n s p = kfree (ksbrk (kernel_alloc n PAGE_SIZE)) p s"

text \<open>The kernel heap holds the blocks \<open>bs\<close>, and paging is on.\<close>

definition kheap_is :: "'z kmalloc_st_scheme \<Rightarrow> kblock list \<Rightarrow> bool" where
  "kheap_is s bs \<longleftrightarrow> kvm_ok s \<and> cr0_pg s \<and> kh_start s = kheap_start s \<and> kh_end s = kheap_top s
     \<and> kchain (nodes s) 0 (unat (kheap_start s)) bs (unat (kheap_top s)) \<and> snd (last bs)
     \<and> (\<forall>b \<in> set bs. 16 dvd fst b)"

lemma kheap_is_iff: "kheap_is s bs \<longleftrightarrow> cr0_pg s \<and> kheap.heap_is s bs"
  by (auto simp: kheap_is_def kheap.heap_is_def)

lemma round_up_align: "round_up 16 16 = 16" "round_up 4096 16 = 4096"
  by (simp_all add: round_up_def)

lemma kernel_alloc_refines:
  assumes heap: "kheap_is s bs" and n: "0 < n" "n < 1073741800" and al: "al = 16 \<or> al = 4096"
  defines "sz \<equiv> 16 * ((n + 15) div 16)"
  shows "\<exists>s'. kernel_alloc (Suc d) (of_nat al) s (of_nat n)
        = (case alloc_blocks (unat KSTACK_BEGIN) sz al (unat (kheap_start s)) bs of
             None \<Rightarrow> 0 | Some (c, _) \<Rightarrow> of_nat (c + 16), s')
     \<and> kheap_start s' = kheap_start s
     \<and> (case alloc_blocks (unat KSTACK_BEGIN) sz al (unat (kheap_start s)) bs of
          None \<Rightarrow> kheap_is s' bs \<and> kerrno s' = Some ENOMEM
        | Some (_, bs') \<Rightarrow> kheap_is s' bs')"
proof -
  have cr0: "cr0_pg s" and h: "kheap.heap_is s bs" using heap by (auto simp: kheap_is_iff)
  have "kmalloc_a sb (of_nat n) (of_nat al) s = do_kmalloc sb (of_nat n) (of_nat al) s" for sb
    using al cr0 round_up_align by (auto simp: kmalloc_a_def)
  then show ?thesis
    using kheap.do_kmalloc_refines [OF h n al, of "kernel_alloc d 4096"] cr0
    unfolding sz_def kernel_alloc.simps
    by (auto simp: kheap_is_iff word_unat_eq_iff [symmetric] split: option.splits)
qed

lemma kernel_free_refines:
  assumes heap: "kheap_is s (us @ (z, False) # vs)"
    and p: "unat p = unat (kheap_start s) + blen us + 16"
  shows "kheap_is (kernel_free d s p) (free_blocks us z vs) \<and> kheap_start (kernel_free d s p) = kheap_start s
    \<and> kernel_only s (kernel_free d s p)"
proof -
  have cr0: "cr0_pg s" and h: "kheap.heap_is s (us @ (z, False) # vs)" using heap by (auto simp: kheap_is_iff)
  have "p = of_nat (unat (kheap_start s) + blen us + 16)" using p by (metis word_unat_eq_iff unat_u32_lt unat_of_nat_u32)
  then have "kernel_free d s p = do_kfree (ksbrk (kernel_alloc d 4096)) (of_nat (unat (kheap_start s) + blen us + 16)) s"
    using cr0 by (simp add: kernel_free_def kfree_def)
  then show ?thesis
    using kheap.do_kfree_refines [OF h, of "kernel_alloc d 4096"] cr0
    by (simp only: kheap_is_iff word_unat_eq_iff) 
qed

text \<open>The list of blocks is determined by the headers.\<close>

lemma mk_node_inject:
  "mk_node z f nx p = mk_node z' f' nx' p' \<Longrightarrow> z < 4294967296 \<Longrightarrow> z' < 4294967296 \<Longrightarrow> z = z' \<and> f = f' \<and> (of_nat nx :: u32) = of_nat nx'"
  by (auto simp: mk_node_def of_nat_u32_inject split: if_splits)

lemma kchain_unique:
  "kchain ns p a bs e \<Longrightarrow> kchain ns p a cs e \<Longrightarrow> e < 4294967296 \<Longrightarrow> bs = cs"
proof (induction bs arbitrary: p a cs)
  case (Cons b bs)
  obtain z f where b: "b = (z, f)" by force
  obtain y g ds where cs: "cs = (y, g) # ds" using Cons.prems(2) by (cases cs) auto
  have le: "a + 16 + z \<le> e" "a + 16 + y \<le> e" "bs \<noteq> [] \<Longrightarrow> a + 16 + z + 16 \<le> e"
      "ds \<noteq> [] \<Longrightarrow> a + 16 + y + 16 \<le> e"
    using Cons.prems b cs kchain_less [of ns a "a + 16 + z" bs e] kchain_less [of ns a "a + 16 + y" ds e]
    by (auto split: if_splits)
  have "mk_node z f (if bs = [] then 0 else a + 16 + z) p = mk_node y g (if ds = [] then 0 else a + 16 + y) p"
    using Cons.prems(1,2) b cs by simp
  then have eq: "z = y" "f = g"
      "(of_nat (if bs = [] then 0 else a + 16 + z) :: u32) = of_nat (if ds = [] then 0 else a + 16 + y)"
    using mk_node_inject [of z f _ p y g _ p] le(1,2) Cons.prems(3) by fastforce+
  have nz: "bs \<noteq> [] \<Longrightarrow> (of_nat (a + 16 + z) :: u32) \<noteq> 0" "ds \<noteq> [] \<Longrightarrow> (of_nat (a + 16 + y) :: u32) \<noteq> 0"
    using le Cons.prems(3) by (intro of_nat_u32_neq_0; linarith)+
  have "bs = [] \<longleftrightarrow> ds = []" using eq(3) nz by (auto split: if_splits)
  then have "bs = ds"
    using Cons.IH [of a "a + 16 + z" ds] Cons.prems b cs eq(1) by (cases "bs = []") auto
  then show ?case using b cs eq by simp
qed simp

lemma kheap_is_unique: "kheap_is s bs \<Longrightarrow> kheap_is s cs \<Longrightarrow> bs = cs"
  using kchain_unique unat_u32_lt by (fastforce simp: kheap_is_def)

section \<open>The contract of an allocator\<close>

definition kheap_inv :: "'z kmalloc_st_scheme \<Rightarrow> bool" where
  "kheap_inv s \<longleftrightarrow> (\<exists>bs. kheap_is s bs \<and> (\<forall>(p, z) \<in> live (unat (kheap_start s)) bs. 0 < z))"

definition kheap_used :: "'z kmalloc_st_scheme \<Rightarrow> (nat \<times> nat) set" where
  "kheap_used s = {b. \<exists>bs. kheap_is s bs \<and> b \<in> live (unat (kheap_start s)) bs}"

lemma kheap_used_eq: "kheap_is s bs \<Longrightarrow> kheap_used s = live (unat (kheap_start s)) bs"
  unfolding kheap_used_def using kheap_is_unique by blast

lemma live_split:
  "(p, z) \<in> live a bs \<Longrightarrow> \<exists>us vs. bs = us @ (z, False) # vs \<and> p = a + blen us + 16"
proof (induction bs arbitrary: a)
  case (Cons b bs)
  obtain y f where b: "b = (y, f)" by force
  show ?case
  proof (cases "(p, z) \<in> live (a + 16 + y) bs")
    case True
    then obtain us vs where "bs = us @ (z, False) # vs" "p = a + 16 + y + blen us + 16" using Cons.IH by blast
    then show ?thesis using b by (intro exI [of _ "b # us"] exI [of _ vs]) simp
  next
    case False
    then have "y = z" "\<not> f" "p = a + 16" using Cons.prems b by (auto split: if_splits)
    then show ?thesis using b by (intro exI [of _ "[]"] exI [of _ bs]) simp
  qed
qed simp

lemma kheap_base: "kheap_is s bs \<Longrightarrow> 16 dvd unat (kheap_start s)"
  by (auto simp: kheap_is_def kvm_ok_def intro: dvd_trans [of _ "4096 :: nat"])

lemma kernel_alloc_block:
  assumes heap: "kheap_is s bs" and n: "0 < n" "n < 1073741800" and al: "al = 16 \<or> al = 4096"
    and ka: "kernel_alloc (Suc d) (of_nat al) s (of_nat n) = (p, s')"
  shows "p = 0 \<and> kheap_is s' bs \<and> kheap_start s' = kheap_start s \<and> kerrno s' = Some ENOMEM
     \<or> p \<noteq> 0 \<and> 16 dvd unat p \<and> kheap_start s' = kheap_start s
       \<and> (\<exists>bs' m. n \<le> m \<and> kheap_is s' bs'
            \<and> live (unat (kheap_start s)) bs' = insert (unat p, m) (live (unat (kheap_start s)) bs)
            \<and> (\<forall>(q, k) \<in> live (unat (kheap_start s)) bs. q + k \<le> unat p \<or> unat p + m \<le> q))"
proof -
  let ?a = "unat (kheap_start s)" and ?sz = "16 * ((n + 15) div 16)"
  have ref: "p = (case alloc_blocks (unat KSTACK_BEGIN) ?sz al ?a bs of None \<Rightarrow> 0 | Some (c, _) \<Rightarrow> of_nat (c + 16))"
      "kheap_start s' = kheap_start s"
      "case alloc_blocks (unat KSTACK_BEGIN) ?sz al ?a bs of
          None \<Rightarrow> kheap_is s' bs \<and> kerrno s' = Some ENOMEM | Some (_, bs') \<Rightarrow> kheap_is s' bs'"
    using kernel_alloc_refines [OF heap n al, of d] ka by auto
  show ?thesis
  proof (cases "alloc_blocks (unat KSTACK_BEGIN) ?sz al ?a bs")
    case None
    then show ?thesis using ref by simp
  next
    case (Some r)
    obtain c bs' where r: "r = (c, bs')" by force
    have bsl: "snd (last bs)" "\<forall>b \<in> set bs. 16 dvd fst b" using heap by (auto simp: kheap_is_def)
    have lv: "live ?a bs' = insert (c + 16, ?sz) (live ?a bs)" "16 dvd c"
        "\<forall>(q, z) \<in> live ?a bs. q + z \<le> c \<or> c + 16 + ?sz + 16 \<le> q"
      using alloc_blocks_live [OF _ bsl kheap_base [OF heap] _ al, of "unat KSTACK_BEGIN" ?sz c bs'] Some r
      by auto
    have h': "kheap_is s' bs'" and p: "p = of_nat (c + 16)" using ref Some r by auto
    have "kchain (nodes s') 0 ?a bs' (unat (kheap_top s'))" using h' ref(2) by (simp add: kheap_is_def)
    then have e: "?a + blen bs' = unat (kheap_top s')" by (rule kchain_blen)
    moreover have "(c + 16, ?sz) \<in> live ?a bs'" using lv(1) by simp
    ultimately have "c + 16 + ?sz \<le> unat (kheap_top s')" using live_bounds by metis
    then have up: "unat p = c + 16" "p \<noteq> 0"
      using unat_u32_lt [of "kheap_top s'"] unfolding p
      by (intro unat_of_nat_u32 of_nat_u32_neq_0; linarith)+
    have "n \<le> ?sz" using div_mult_mod_eq [of "n + 15" 16] mod_less_divisor [of 16 "n + 15"] by linarith
    then show ?thesis using h' lv up ref(2) by (intro disjI2) (fastforce intro!: exI [of _ bs'] exI [of _ ?sz])
  qed
qed

lemma kernel_allocator:
  assumes al: "al = 16 \<or> al = 4096"
  shows "allocator (kernel_alloc (Suc d) (of_nat al)) (kernel_free d) kheap_used kheap_inv"
proof
  fix s :: "'a kmalloc_st_scheme" and n :: nat and p :: u32
  assume inv: "kheap_inv s"
  then obtain bs where bs: "kheap_is s bs" "\<forall>(p, z) \<in> live (unat (kheap_start s)) bs. 0 < z"
    by (auto simp: kheap_inv_def)
  {
    assume n: "0 < n" "n < 1073741800"
    obtain q s' where ka: "kernel_alloc (Suc d) (of_nat al) s (of_nat n) = (q, s')" by force
    note blk = kernel_alloc_block [OF bs(1) n al ka]
    show "kheap_inv (snd (kernel_alloc (Suc d) (of_nat al) s (of_nat n)))"
      using blk
    proof (elim disjE conjE exE)
      fix bs' m
      assume "kheap_is s' bs'" "n \<le> m" "kheap_start s' = kheap_start s"
        "live (unat (kheap_start s)) bs' = insert (unat q, m) (live (unat (kheap_start s)) bs)"
      then show ?thesis using bs(2) n by (auto simp: ka kheap_inv_def intro!: exI [of _ bs'])
    qed (use bs in \<open>auto simp: ka kheap_inv_def\<close>)
    show "kheap_used (snd (kernel_alloc (Suc d) (of_nat al) s (of_nat n))) = kheap_used s"
      if "fst (kernel_alloc (Suc d) (of_nat al) s (of_nat n)) = 0"
      using blk that by (auto simp: ka kheap_used_eq [OF bs(1)] kheap_used_eq)
    assume p: "fst (kernel_alloc (Suc d) (of_nat al) s (of_nat n)) = p" "p \<noteq> 0"
    show "16 dvd unat p \<and> (\<exists>m \<ge> n. kheap_used (snd (kernel_alloc (Suc d) (of_nat al) s (of_nat n)))
          = insert (unat p, m) (kheap_used s)
        \<and> (\<forall>(q, k) \<in> kheap_used s. q + k \<le> unat p \<or> unat p + m \<le> q))"
      using blk p by (auto simp: ka kheap_used_eq [OF bs(1)] kheap_used_eq) 
  }
  {
    fix m assume m: "(unat p, m) \<in> kheap_used s"
    obtain us vs where uv: "bs = us @ (m, False) # vs" "unat p = unat (kheap_start s) + blen us + 16"
      using m live_split bs(1) by (fastforce simp: kheap_used_eq)
    have fr: "kheap_is (kernel_free d s p) (free_blocks us m vs)" "kheap_start (kernel_free d s p) = kheap_start s"
      using kernel_free_refines [OF _ uv(2)] bs(1) uv(1) by auto
    have lv: "live (unat (kheap_start s)) (free_blocks us m vs) = live (unat (kheap_start s)) bs - {(unat p, m)}"
      unfolding uv(1) by (subst free_blocks_live) (simp add: uv(2))
    show "kheap_inv (kernel_free d s p)" using fr bs(2) lv by (auto simp: kheap_inv_def)
    show "kheap_used (kernel_free d s p) = kheap_used s - {(unat p, m)}"
      using fr lv by (simp add: kheap_used_eq [OF bs(1)] kheap_used_eq [OF fr(1)])
  }
  show "0 < k" if "(q, k) \<in> kheap_used s" for q k
    using that bs by (auto simp: kheap_used_eq)
qed

lemma kernel_free_kernel_only:
  assumes "kheap_inv s" "(unat p, m) \<in> kheap_used s"
  shows "kernel_only s (kernel_free d s p)"
proof -
  obtain bs where bs: "kheap_is s bs" using assms(1) by (auto simp: kheap_inv_def)
  then obtain us vs where "bs = us @ (m, False) # vs" "unat p = unat (kheap_start s) + blen us + 16"
    using assms(2) live_split by (fastforce simp: kheap_used_eq)
  then show ?thesis using kernel_free_refines [of s us m vs p d] bs by simp
qed

interpretation kalloc: allocator "kernel_alloc (Suc d) 16" "kernel_free d" kheap_used kheap_inv
  using kernel_allocator [of 16 d] by simp

interpretation kalloc_pa: allocator "kernel_alloc (Suc d) 4096" "kernel_free d" kheap_used kheap_inv
  using kernel_allocator [of 4096 d] by simp

section \<open>Properties\<close>

text \<open>A heap of two pages with one block of 0xEF0 bytes in use and the rest free.\<close>

definition sample_heap :: kmalloc_st where
  "sample_heap = kvm_st.extend sample_kvm (kmalloc_st.fields
     ((\<lambda>_. mk_node 0 False 0 0)(0x400000 := mk_node 0xEF0 False 0x400F00 0,
                                0x400F00 := mk_node 0x10F0 True 0 0x400000))
     0x400000 0x402000 0x2000)"

lemma kvm_ok_extend: "kvm_ok (kvm_st.extend s e) = kvm_ok s"
  by (simp add: kvm_ok_def dir_inj_def kvm_st.defs)

lemma kheap_is_sample: "kheap_is sample_heap [(0xEF0, False), (0x10F0, True)]"
proof -
  have "kvm_ok sample_heap" unfolding sample_heap_def kvm_ok_extend by (rule kvm_ok_sample)
  then show ?thesis
    by (simp add: kheap_is_def kheap_top_def) (simp add: sample_heap_def kvm_st.defs kmalloc_st.defs sample_kvm_def)
qed

lemma kheap_start_sample: "kheap_start sample_heap = 0x400000"
  by (simp add: sample_heap_def kvm_st.defs sample_kvm_def)

text \<open>
  C6. \<open>kmalloc\<close> and \<open>kmalloc_pa\<close> implement first fit: on a heap that holds the blocks \<open>bs\<close> the
  call ends, returns the address behind the header that first fit chooses and leaves the heap
  holding the blocks first fit leaves; if the heap would have to grow into the kernel stack it
  returns NULL with \<open>ENOMEM\<close> and the blocks are unchanged.
\<close>

theorem kmalloc_first_fit:
  assumes "kheap_is s bs" "0 < n" "n < 1073741800" "al = 16 \<or> al = 4096"
  shows "\<exists>s'. kernel_alloc (Suc d) (of_nat al) s (of_nat n)
        = (case alloc_blocks (unat KSTACK_BEGIN) (16 * ((n + 15) div 16)) al (unat (kheap_start s)) bs of
             None \<Rightarrow> 0 | Some (c, _) \<Rightarrow> of_nat (c + 16), s')
     \<and> kheap_start s' = kheap_start s
     \<and> (case alloc_blocks (unat KSTACK_BEGIN) (16 * ((n + 15) div 16)) al (unat (kheap_start s)) bs of
          None \<Rightarrow> kheap_is s' bs \<and> kerrno s' = Some ENOMEM
        | Some (_, bs') \<Rightarrow> kheap_is s' bs')"
  by (rule kernel_alloc_refines [OF assms])

theorem kmalloc_first_fit_witness:
  "\<exists>s'. kernel_alloc (Suc 0) (of_nat 16) sample_heap (of_nat 100)
        = (case alloc_blocks (unat KSTACK_BEGIN) (16 * ((100 + 15) div 16)) 16 (unat (kheap_start sample_heap))
                  [(0xEF0, False), (0x10F0, True)] of
             None \<Rightarrow> 0 | Some (c, _) \<Rightarrow> of_nat (c + 16), s')
     \<and> kheap_start s' = kheap_start sample_heap
     \<and> (case alloc_blocks (unat KSTACK_BEGIN) (16 * ((100 + 15) div 16)) 16 (unat (kheap_start sample_heap))
               [(0xEF0, False), (0x10F0, True)] of
          None \<Rightarrow> kheap_is s' [(0xEF0, False), (0x10F0, True)] \<and> kerrno s' = Some ENOMEM
        | Some (_, bs') \<Rightarrow> kheap_is s' bs')"
  by (rule kmalloc_first_fit [OF kheap_is_sample]) simp_all

text \<open>
  C8. A block that \<open>kmalloc\<close> or \<open>kmalloc_pa\<close> returns is at least as large as asked for, 16-byte
  aligned, overlaps no block in use, and is from then on in use together with all the others;
  a NULL result comes with \<open>ENOMEM\<close> and changes no block.
\<close>

theorem kmalloc_returns_fresh_block:
  assumes "kheap_is s bs" "0 < n" "n < 1073741800" "al = 16 \<or> al = 4096"
    and "kernel_alloc (Suc d) (of_nat al) s (of_nat n) = (p, s')"
  shows "p = 0 \<and> kheap_is s' bs \<and> kheap_start s' = kheap_start s \<and> kerrno s' = Some ENOMEM
     \<or> p \<noteq> 0 \<and> 16 dvd unat p \<and> kheap_start s' = kheap_start s
       \<and> (\<exists>bs' m. n \<le> m \<and> kheap_is s' bs'
            \<and> live (unat (kheap_start s)) bs' = insert (unat p, m) (live (unat (kheap_start s)) bs)
            \<and> (\<forall>(q, k) \<in> live (unat (kheap_start s)) bs. q + k \<le> unat p \<or> unat p + m \<le> q))"
  by (rule kernel_alloc_block [OF assms])

theorem kmalloc_returns_fresh_block_witness:
  "let p = fst (kernel_alloc (Suc 0) (of_nat 16) sample_heap (of_nat 100));
       s' = snd (kernel_alloc (Suc 0) (of_nat 16) sample_heap (of_nat 100)) in
   p = 0 \<and> kheap_is s' [(0xEF0, False), (0x10F0, True)] \<and> kheap_start s' = kheap_start sample_heap
     \<and> kerrno s' = Some ENOMEM
   \<or> p \<noteq> 0 \<and> 16 dvd unat p \<and> kheap_start s' = kheap_start sample_heap
     \<and> (\<exists>bs' m. 100 \<le> m \<and> kheap_is s' bs'
          \<and> live (unat (kheap_start sample_heap)) bs'
              = insert (unat p, m) (live (unat (kheap_start sample_heap)) [(0xEF0, False), (0x10F0, True)])
          \<and> (\<forall>(q, k) \<in> live (unat (kheap_start sample_heap)) [(0xEF0, False), (0x10F0, True)].
               q + k \<le> unat p \<or> unat p + m \<le> q))"
  unfolding Let_def
  by (rule kmalloc_returns_fresh_block [OF kheap_is_sample _ _ _ prod.collapse [symmetric]]) simp_all

text \<open>
  C12. \<open>kfree\<close> on a block in use joins it with the free blocks before and behind it and, if the
  result ends the heap and is larger than two pages, gives whole pages back; the other blocks in
  use are not touched.
\<close>

theorem kfree_joins_neighbours:
  assumes "kheap_is s (us @ (z, False) # vs)" "unat p = unat (kheap_start s) + blen us + 16"
  shows "kheap_is (kernel_free d s p) (free_blocks us z vs)
     \<and> kheap_start (kernel_free d s p) = kheap_start s
     \<and> live (unat (kheap_start s)) (free_blocks us z vs)
         = live (unat (kheap_start s)) (us @ (z, False) # vs) - {(unat p, z)}"
  using kernel_free_refines [OF assms] free_blocks_live [of "unat (kheap_start s)" us z vs] assms(2)
  by metis

theorem kfree_joins_neighbours_witness:
  "kheap_is (kernel_free 0 sample_heap 0x400010) (free_blocks [] 0xEF0 [(0x10F0, True)])
     \<and> kheap_start (kernel_free 0 sample_heap 0x400010) = kheap_start sample_heap
     \<and> live (unat (kheap_start sample_heap)) (free_blocks [] 0xEF0 [(0x10F0, True)])
         = live (unat (kheap_start sample_heap)) ([] @ (0xEF0, False) # [(0x10F0, True)]) - {(unat (0x400010 :: u32), 0xEF0)}"
  by (rule kfree_joins_neighbours) (simp_all add: kheap_is_sample kheap_start_sample)

text \<open>
  C19. Freeing a block just allocated leaves exactly the blocks in use that were in use before.
\<close>

theorem kmalloc_kfree_restores:
  assumes "kheap_inv s" "0 < n" "n < 1073741800" "kernel_alloc (Suc d) 16 s (of_nat n) = (p, s')" "p \<noteq> 0"
  shows "kheap_inv (kernel_free d s' p) \<and> kheap_used (kernel_free d s' p) = kheap_used s"
  by (rule kalloc.alloc_free [OF assms])

lemma kheap_inv_sample: "kheap_inv sample_heap"
  using kheap_is_sample by (auto simp: kheap_inv_def)

lemma alloc_sample: "fst (kernel_alloc (Suc 0) 16 sample_heap (of_nat 100)) = 0x400F10"
proof -
  have "alloc_blocks (unat KSTACK_BEGIN) (16 * ((100 + 15) div 16)) 16 (unat (kheap_start sample_heap))
      [(0xEF0, False), (0x10F0, True)] = Some (0x400F00, (0xEF0, False) # split_block 0 112 0x10F0)"
    by (simp add: kheap_start_sample pad_of_def grown_def)
  then show ?thesis using kernel_alloc_refines [OF kheap_is_sample, of 100 16 0] by auto
qed

theorem kmalloc_kfree_restores_witness:
  "kheap_inv (kernel_free 0 (snd (kernel_alloc (Suc 0) 16 sample_heap (of_nat 100))) 0x400F10)
     \<and> kheap_used (kernel_free 0 (snd (kernel_alloc (Suc 0) 16 sample_heap (of_nat 100))) 0x400F10)
         = kheap_used sample_heap"
proof (rule kmalloc_kfree_restores [OF kheap_inv_sample, of 100])
  show "kernel_alloc (Suc 0) 16 sample_heap (of_nat 100)
      = (0x400F10, snd (kernel_alloc (Suc 0) 16 sample_heap (of_nat 100)))"
    using alloc_sample by (metis prod.collapse)
qed simp_all

text \<open>
  C40. \<open>kmalloc_pa\<close> is not always page aligned: the alignment test adds 256 bytes to the node's
  address where 16 are meant, so a free node at offset 0xF00 of a page is used as it is and the
  block starts at offset 0xF10 of the page.
\<close>

theorem kmalloc_pa_misaligned:
  assumes "kheap_is s [(0xEF0, False), (z, True)]" "4112 \<le> z"
  shows "\<exists>s'. kernel_alloc (Suc d) 4096 s 16 = (kheap_start s + 0xF10, s')
     \<and> unat (kheap_start s + 0xF10) mod 4096 = 0xF10"
proof -
  let ?a = "unat (kheap_start s)"
  have "4096 dvd ?a" and lt: "?a < 2147483648" using assms(1) by (auto simp: kheap_is_def kvm_ok_def)
  then obtain k where k: "?a = 4096 * k" by blast
  have pad: "pad_of 4096 (?a + 0xF00) = 0" by (simp add: pad_of_def k)
  have "alloc_blocks (unat KSTACK_BEGIN) (16 * ((16 + 15) div 16)) 4096 ?a [(0xEF0, False), (z, True)]
      = Some (?a + 0xF00, (0xEF0, False) # split_block 0 16 z)"
    using assms(2) pad by (simp add: grown_def add.commute [of 3840])
  moreover have "(of_nat (?a + 0xF00 + 16) :: u32) = kheap_start s + 0xF10" by simp
  moreover have "unat (kheap_start s + 0xF10) = 4096 * k + 0xF10"
    using lt k by (simp add: unat_word_ariths)
  ultimately show ?thesis using kernel_alloc_refines [OF assms(1), of 16 4096 d] by auto
qed

theorem kmalloc_pa_misaligned_witness:
  "\<exists>s'. kernel_alloc (Suc 0) 4096 sample_heap 16 = (kheap_start sample_heap + 0xF10, s')
     \<and> unat (kheap_start sample_heap + 0xF10) mod 4096 = 0xF10"
  by (rule kmalloc_pa_misaligned [OF kheap_is_sample]) simp

end
