(* ===== verification/Fs.thy ===== *)
theory Fs
  imports Vfs Kmalloc
begin

text \<open>
  The file systems over the kernel's own allocator: the contracts of \<open>Blocks\<close>, \<open>Ramfs\<close>, \<open>Pipe\<close>,
  \<open>Fifofs\<close> and \<open>Vfs\<close> are interpreted on \<open>kmalloc\<close> and \<open>kfree\<close> of theory \<open>Kmalloc\<close>, and the
  properties of the file systems are stated for that combination. \<open>sched\<close> and \<open>irq\<close> stay arbitrary.
\<close>

section \<open>The kernel's allocator under the file systems\<close>

definition kernel_env :: "nat \<Rightarrow> ('z kmalloc_st_scheme fs_st \<Rightarrow> 'z kmalloc_st_scheme fs_st)
    \<Rightarrow> ('z kmalloc_st_scheme fs_st \<Rightarrow> 'z kmalloc_st_scheme fs_st) \<Rightarrow> 'z kmalloc_st_scheme env" where
  "kernel_env d sched irq = \<lparr>e_km = kernel_alloc (Suc d) 16, e_kf = kernel_free d, e_sched = sched, e_irq = irq\<rparr>"

interpretation kfs: fs_allocator "kernel_alloc (Suc d) 16" "kernel_free d" kheap_used kheap_inv
  by unfold_locales

interpretation kramfs: ramfs_files "kernel_alloc (Suc d) 16" "kernel_free d" kheap_used kheap_inv
  by unfold_locales

interpretation kpipe: pipe_files "kernel_alloc (Suc d) 16" "kernel_free d" kheap_used kheap_inv
  by unfold_locales

interpretation kfifo: fifo_files "kernel_alloc (Suc d) 16" "kernel_free d" kheap_used kheap_inv
  by unfold_locales

interpretation kvfs: vfs_files "kernel_alloc (Suc d) 16" "kernel_free d" kheap_used kheap_inv "kernel_env d sched irq"
  by unfold_locales (simp_all add: kernel_env_def)

section \<open>Regular files\<close>

text \<open>
  C1. Creating, writing, closing, opening and reading a file. On a kernel heap and a list of files
  that are well formed, \<open>creat_vfs\<close> of a regular file whose
  name no file has either fails with \<open>ENOMEM\<close>, \<open>ENOSPC\<close> or \<open>EMFILE\<close>, or the descriptor it returns can
  be written, with 1 byte to 2 GiB less a byte, closed, and opened again under the name, and a read then returns exactly the bytes
  that the write reported as written; fewer than all of them only if memory ran out. The name has
  1 to 63 bytes, less than 1024 inodes of the RAM file system have been used, and if the name is shorter than 63 bytes,
  the block that the allocator gives for the new node has to hold a NUL at the place behind the
  name, since the copy of the name stores none.
\<close>

theorem file_lifecycle:
  assumes "kheap_inv (hs s)" "vfs_ok kheap_used s ns" "mode AND S_IFREG \<noteq> 0" "mode AND S_IFDIR = 0"
    "ramfs_inodes s < 1024" "name \<noteq> []" "length name \<le> 63" "0 \<notin> set name"
    "length name < 63 \<longrightarrow> v_name (vnodes s (fst (kernel_alloc (Suc d) 16 (hs s) 132))) (length name) = 0"
    "\<forall>m \<in> set ns. \<not> named s name m" "buf \<noteq> []" "length buf < 2147483648"
  shows "\<exists>fd s1. creat_vfs (kernel_env d sched irq) name mode s = Some (fd, s1)
     \<and> (fd = -1 \<and> errno s1 \<in> {Some ENOMEM, Some ENOSPC, Some EMFILE}
        \<or> 3 \<le> fd \<and> (\<exists>k s2 s3 s4.
            write_vfs (kernel_env d sched irq) fd (Some buf) s1 = Some (int k, s2) \<and> 0 < k \<and> k \<le> length buf
          \<and> (k = length buf \<or> errno s2 = Some ENOMEM)
          \<and> close_vfs (kernel_env d sched irq) fd s2 = Some (0, s3)
          \<and> open_vfs (kernel_env d sched irq) (Some name) O_RDONLY 0 s3 = Some (fd, s4)
          \<and> (\<forall>m. \<exists>s5. read_vfs (kernel_env d sched irq) fd True m s4
               = Some (int (min (unat m) k), map Some (take (unat m) (take k buf)), s5))))"
proof -
  obtain fd s1 where c: "creat_vfs (kernel_env d sched irq) name mode s = Some (fd, s1)"
      "fd = -1 \<and> errno s1 \<in> {Some ENOMEM, Some ENOSPC, Some EMFILE} \<or> 3 \<le> fd"
    using kvfs.creat_vfs_regular [OF assms(1-6), of d sched irq] by blast
  show ?thesis
  proof (cases "fd = -1")
    case True
    then show ?thesis using c by auto
  next
    case False
    then have "3 \<le> fd" "0 \<le> fd" using c(2) by auto
    then obtain k s2 s3 s4 where k: "write_vfs (kernel_env d sched irq) fd (Some buf) s1 = Some (int k, s2)"
        "0 < k" "k \<le> length buf" "k < length buf \<longrightarrow> errno s2 = Some ENOMEM"
        "close_vfs (kernel_env d sched irq) fd s2 = Some (0, s3)"
        "open_vfs (kernel_env d sched irq) (Some name) O_RDONLY 0 s3 = Some (fd, s4)"
        "\<forall>m < 4294967296. \<exists>s5. read_vfs (kernel_env d sched irq) fd True (of_nat m) s4
             = Some (int (min m k), map Some (take m (take k buf)), s5)"
      using kvfs.create_write_open_read [OF assms c(1)] by blast
    have "\<exists>s5. read_vfs (kernel_env d sched irq) fd True m s4
             = Some (int (min (unat m) k), map Some (take (unat m) (take k buf)), s5)" for m
      using k(7) [rule_format, OF unat_u32_lt, of m] by simp
    moreover have "k = length buf \<or> errno s2 = Some ENOMEM" using k(3,4) by linarith
    ultimately show ?thesis using c(1) \<open>3 \<le> fd\<close> k(1,2,3,5,6) by blast
  qed
qed

lemma fs_init_ok: "kheap_inv (hs (fs_init sample_heap)) \<and> vfs_ok kheap_used (fs_init sample_heap) []"
  by (simp add: fs_init_def vfs_ok_def kheap_inv_sample)

theorem file_lifecycle_witness:
  "\<exists>fd s1. creat_vfs (kernel_env 0 id id) [97, 98] S_IFREG (fs_init sample_heap) = Some (fd, s1)
     \<and> (fd = -1 \<and> errno s1 \<in> {Some ENOMEM, Some ENOSPC, Some EMFILE}
        \<or> 3 \<le> fd \<and> (\<exists>k s2 s3 s4.
            write_vfs (kernel_env 0 id id) fd (Some [1, 2, 3]) s1 = Some (int k, s2) \<and> 0 < k \<and> k \<le> length [1 :: u8, 2, 3]
          \<and> (k = length [1 :: u8, 2, 3] \<or> errno s2 = Some ENOMEM)
          \<and> close_vfs (kernel_env 0 id id) fd s2 = Some (0, s3)
          \<and> open_vfs (kernel_env 0 id id) (Some [97, 98]) O_RDONLY 0 s3 = Some (fd, s4)
          \<and> (\<forall>m. \<exists>s5. read_vfs (kernel_env 0 id id) fd True m s4
               = Some (int (min (unat m) k), map Some (take (unat m) (take k [1, 2, 3])), s5))))"
  by (rule file_lifecycle [where ns = "[]"]) (simp_all add: fs_init_ok, simp_all add: fs_init_def zero_node_def)

text \<open>
  C20. A write that starts at position \<open>a < 255\<close>, the end of the file, stores as many bytes as it
  reports, keeps those before \<open>a\<close>, and moves the end of the file and the position by that number;
  a read from position \<open>a\<close> returns them.
\<close>

theorem ramfs_write_read_back:
  assumes "kheap_inv (hs s)" "owns kheap_used s (ramfs_nodes s ino)" "ino < 1024" "a < 255"
    "length buf < 2147483648" "vfs_node (files s fd) = node" "at_off (files s fd) = of_nat a" "buf \<noteq> []"
    "st_ino (status (vnodes s node)) = of_nat ino" "st_size (status (vnodes s node)) = of_nat a"
  shows "\<exists>n s'. write_ramfs (kernel_alloc (Suc d) 16) fd buf s = Some (int n, s') \<and> 0 < n \<and> n \<le> length buf
     \<and> (n = length buf \<or> errno s' = Some ENOMEM)
     \<and> st_size (status (vnodes s' node)) = of_nat (a + n) \<and> at_off (files s' fd) = of_nat (a + n)
     \<and> map (blk (blks s' (ramfs_nodes s' ino))) [0..<a] = map (blk (blks s (ramfs_nodes s ino))) [0..<a]
     \<and> (\<forall>m. \<exists>s''. read_ramfs fd m (set_file fd (\<lambda>f. f\<lparr>at_off := of_nat a\<rparr>) s')
          = Some (int (min (unat m) n), take (unat m) (take n buf), s''))"
proof -
  obtain n s' where n: "write_ramfs (kernel_alloc (Suc d) 16) fd buf s = Some (int n, s')" "0 < n" "n \<le> length buf"
      "n < length buf \<longrightarrow> errno s' = Some ENOMEM"
      "st_size (status (vnodes s' node)) = of_nat (a + n)" "at_off (files s' fd) = of_nat (a + n)"
      "\<forall>i<a. blk (blks s' (ramfs_nodes s' ino)) i = blk (blks s (ramfs_nodes s ino)) i"
      "\<forall>m < 4294967296. \<exists>s''. read_ramfs fd (of_nat m) (set_file fd (\<lambda>f. f\<lparr>at_off := of_nat a\<rparr>) s')
         = Some (int (min m n), take m (take n buf), s'')"
    using kramfs.write_ramfs_read_back [OF assms] by blast
  have "\<exists>s''. read_ramfs fd m (set_file fd (\<lambda>f. f\<lparr>at_off := of_nat a\<rparr>) s')
          = Some (int (min (unat m) n), take (unat m) (take n buf), s'')" for m
    using n(8) [rule_format, OF unat_u32_lt, of m] by simp
  then show ?thesis using n by (intro exI [of _ n] exI [of _ s']) auto
qed

text \<open>A heap with two blocks in use, and a file on the first of them.\<close>

definition two_blocks :: kmalloc_st where
  "two_blocks = snd (kernel_alloc (Suc 0) 16 sample_heap (of_nat 100))"

lemma used_sample: "(0x400010, 0xEF0) \<in> kheap_used sample_heap"
  unfolding kheap_used_eq [OF kheap_is_sample] by (simp add: kheap_start_sample)

lemma two_blocks_ok:
  "kheap_inv two_blocks" "(0x400010, 0xEF0) \<in> kheap_used two_blocks" "\<exists>k. (0x400F10, k) \<in> kheap_used two_blocks"
  using kalloc.alloc_inv [OF kheap_inv_sample, of 100 0] kalloc.alloc_keeps [OF kheap_inv_sample _ _ used_sample, of 100 0]
    kalloc.alloc_block [OF kheap_inv_sample _ _ alloc_sample]
  by (auto simp: two_blocks_def)

definition sample_file :: "u32 \<Rightarrow> kmalloc_st fs_st" where
  "sample_file a = (fs_init two_blocks)\<lparr>
     files := (\<lambda>_. \<lparr>vfs_node = 1, at_off = a, oflag = O_RDWR\<rparr>),
     vnodes := (\<lambda>_. add_size a zero_node),
     ramfs_nodes := (\<lambda>_. 0x400010),
     blks := (\<lambda>_. \<lparr>blk = \<lambda>_. 0, d_next = 0\<rparr>)(0x400010 := \<lparr>blk = \<lambda>_. 0, d_next = 0x400F10\<rparr>)\<rparr>"

lemma owns_sample_file: "owns kheap_used (sample_file a) 0x400010" "owns kheap_used (sample_file a) 0x400F10"
  using two_blocks_ok(2,3) by (auto simp: owns_def sample_file_def fs_init_def)

theorem ramfs_write_read_back_witness:
  "\<exists>n s'. write_ramfs (kernel_alloc (Suc 0) 16) 3 [5, 6, 7] (sample_file (of_nat 200)) = Some (int n, s')
     \<and> 0 < n \<and> n \<le> length [5 :: u8, 6, 7] \<and> (n = length [5 :: u8, 6, 7] \<or> errno s' = Some ENOMEM)
     \<and> st_size (status (vnodes s' 1)) = of_nat (200 + n) \<and> at_off (files s' 3) = of_nat (200 + n)
     \<and> map (blk (blks s' (ramfs_nodes s' 0))) [0..<200]
         = map (blk (blks (sample_file (of_nat 200)) (ramfs_nodes (sample_file (of_nat 200)) 0))) [0..<200]
     \<and> (\<forall>m. \<exists>s''. read_ramfs 3 m (set_file 3 (\<lambda>f. f\<lparr>at_off := of_nat 200\<rparr>) s')
          = Some (int (min (unat m) n), take (unat m) (take n [5, 6, 7]), s''))"
  using two_blocks_ok(1) owns_sample_file(1)
  by (intro ramfs_write_read_back) (simp_all add: sample_file_def fs_init_def zero_node_def add_size_def)

text \<open>
  Byte 255 of a file is the last of its first block, but \<open>write_ramfs\<close> at position 255 stores
  it in the second block (\<open>at / 0xFF\<close> is 1, \<open>at % 0x100\<close> is 255) and leaves the first block as it
  is: a read of the file from its start does not see it.
\<close>

theorem write_ramfs_255:
  assumes "kheap_inv (hs s)" "owns kheap_used s (ramfs_nodes s ino)" "ino < 1024"
    "d_next (blks s (ramfs_nodes s ino)) = q" "owns kheap_used s q" "q \<noteq> ramfs_nodes s ino"
    "files s fd = \<lparr>vfs_node = node, at_off = 255, oflag = fl\<rparr>" "st_ino (status (vnodes s node)) = of_nat ino"
  shows "\<exists>s'. write_ramfs (kernel_alloc (Suc d) 16) fd [b] s = Some (1, s') \<and> ramfs_nodes s' = ramfs_nodes s
     \<and> blk (blks s' q) 255 = b \<and> blks s' (ramfs_nodes s ino) = blks s (ramfs_nodes s ino)"
  by (rule kramfs.write_at_255 [OF assms])

theorem write_ramfs_255_witness:
  "\<exists>s'. write_ramfs (kernel_alloc (Suc 0) 16) 3 [77] (sample_file 255) = Some (1, s')
     \<and> ramfs_nodes s' = ramfs_nodes (sample_file 255) \<and> blk (blks s' 0x400F10) 255 = 77
     \<and> blks s' (ramfs_nodes (sample_file 255) 0) = blks (sample_file 255) (ramfs_nodes (sample_file 255) 0)"
  using two_blocks_ok(1) owns_sample_file
  by (intro write_ramfs_255) (simp_all add: sample_file_def fs_init_def zero_node_def add_size_def)

section \<open>Pipes\<close>

text \<open>
  C21. Bytes come out of a pipe in the order they went in: on an empty pipe whose positions are in
  the first 255 bytes of its first block, a write stores as many bytes as it reports and a read
  returns those at the front, without waiting, and leaves the rest.
\<close>

theorem pipe_fifo:
  assumes "kheap_inv (hs s)" "owns kheap_used s p" "buf \<noteq> []" "a < 255" "a + length buf < 2147483648"
    "vfs_node (files s wfd) = node" "vfs_node (files s rfd) = node"
    "st_ino (status (vnodes s node)) = of_nat ino" "ino < 1024" "st_size (status (vnodes s node)) = 0"
    "pipes s ino = hdr" "hdr \<noteq> 0" "p_data (phdrs s hdr) = p" "readers (phdrs s hdr) \<noteq> 0"
    "write_at (phdrs s hdr) = of_nat a" "read_at (phdrs s hdr) = of_nat a"
  shows "\<exists>n s'. write_pipe (kernel_alloc (Suc d) 16) wfd buf s = Some (int n, s') \<and> 0 < n \<and> n \<le> length buf
     \<and> (n = length buf \<or> errno s' = Some ENOMEM)
     \<and> (\<forall>m. \<exists>s''. read_pipe sched (kernel_free d) rfd m s'
              = Some (int (min (unat m) n), take (unat m) (take n buf), s'')
          \<and> st_size (status (vnodes s'' node)) = of_nat (n - min (unat m) n))"
proof -
  obtain n s' where n: "write_pipe (kernel_alloc (Suc d) 16) wfd buf s = Some (int n, s')" "0 < n" "n \<le> length buf"
      "n < length buf \<longrightarrow> errno s' = Some ENOMEM"
      "\<forall>m < 4294967296. \<exists>s''. read_pipe sched (kernel_free d) rfd (of_nat m) s'
            = Some (int (min m n), take m (take n buf), s'')
          \<and> st_size (status (vnodes s'' node)) = of_nat (n - min m n)"
    using kpipe.write_pipe_read_pipe [OF assms] by blast
  have "\<exists>s''. read_pipe sched (kernel_free d) rfd m s' = Some (int (min (unat m) n), take (unat m) (take n buf), s'')
          \<and> st_size (status (vnodes s'' node)) = of_nat (n - min (unat m) n)" for m
    using n(5) [rule_format, OF unat_u32_lt, of m] by simp
  then show ?thesis using n by (intro exI [of _ n] exI [of _ s']) auto
qed

text \<open>An empty pipe on the two blocks in use of the sample heap.\<close>

definition sample_pipe :: "kmalloc_st fs_st" where
  "sample_pipe = (fs_init two_blocks)\<lparr>
     files := (\<lambda>_. \<lparr>vfs_node = 1, at_off = 0, oflag = O_RDWR\<rparr>),
     pipes := (\<lambda>_. 0x400F10),
     phdrs := (\<lambda>_. \<lparr>p_data = 0x400010, write_at = 0, read_at = 0, writers = 2, readers = 2\<rparr>)\<rparr>"

theorem pipe_fifo_witness:
  "\<exists>n s'. write_pipe (kernel_alloc (Suc 0) 16) 4 [1, 2] sample_pipe = Some (int n, s')
     \<and> 0 < n \<and> n \<le> length [1 :: u8, 2] \<and> (n = length [1 :: u8, 2] \<or> errno s' = Some ENOMEM)
     \<and> (\<forall>m. \<exists>s''. read_pipe id (kernel_free 0) 3 m s'
              = Some (int (min (unat m) n), take (unat m) (take n [1, 2]), s'')
          \<and> st_size (status (vnodes s'' 1)) = of_nat (n - min (unat m) n))"
  using two_blocks_ok
  by (intro pipe_fifo [where a = 0 and ino = 0 and hdr = "0x400F10" and p = "0x400010"])
    (auto simp: sample_pipe_def fs_init_def zero_node_def owns_def)

text \<open>
  Reading the last byte of a block frees the block, but the header of the pipe keeps its
  address: after a read of 256 bytes from the start of the first block, \<open>hdr->data\<close> points to
  memory that is no longer in use.
\<close>

theorem read_pipe_frees_head:
  assumes "kheap_inv (hs s)" "(unat p, k) \<in> kheap_used (hs s)" "p \<noteq> 0"
    "vfs_node (files s fd) = node" "st_ino (status (vnodes s node)) = of_nat ino" "ino < 1024"
    "pipes s ino = hdr" "hdr \<noteq> 0" "p_data (phdrs s hdr) = p" "read_at (phdrs s hdr) = 0"
    "st_size (status (vnodes s node)) = of_nat n" "256 \<le> n" "n < 2147483648"
  shows "\<exists>s'. read_pipe sched (kernel_free d) fd 256 s = Some (256, map (blk (blks s p)) [0..<256], s')
     \<and> p_data (phdrs s' hdr) = p \<and> (unat p, k) \<notin> kheap_used (hs s')"
  by (rule kpipe.drained_head_dangles [OF assms])

theorem read_pipe_frees_head_witness:
  "let s = sample_pipe\<lparr>vnodes := \<lambda>_. add_size 256 zero_node\<rparr> in
   \<exists>s'. read_pipe id (kernel_free 0) 3 256 s = Some (256, map (blk (blks s 0x400010)) [0..<256], s')
     \<and> p_data (phdrs s' 0x400F10) = 0x400010 \<and> (unat (0x400010 :: u32), 0xEF0) \<notin> kheap_used (hs s')"
  unfolding Let_def using two_blocks_ok
  by (intro read_pipe_frees_head [where ino = 0 and n = 256 and node = 1])
    (auto simp: sample_pipe_def fs_init_def zero_node_def add_size_def)

section \<open>FIFO files\<close>

text \<open>FIFO files hand their bytes on in order, under the same conditions as pipes.\<close>

theorem fifofs_fifo:
  assumes "kheap_inv (hs s)" "owns kheap_used s p" "buf \<noteq> []" "a < 255" "a + length buf < 2147483648"
    "vfs_node (files s wfd) = node" "vfs_node (files s rfd) = node"
    "st_ino (status (vnodes s node)) = of_nat ino" "ino < 1024" "st_size (status (vnodes s node)) = 0"
    "fifofs_nodes s ino = hdr" "hdr \<noteq> 0" "f_data (fhdrs s hdr) = p" "f_readers (fhdrs s hdr) \<noteq> 0"
    "f_write_at (fhdrs s hdr) = of_nat a" "f_read_at (fhdrs s hdr) = of_nat a"
  shows "\<exists>n s'. write_fifofs (kernel_alloc (Suc d) 16) wfd buf s = Some (int n, s') \<and> 0 < n \<and> n \<le> length buf
     \<and> (n = length buf \<or> errno s' = Some ENOMEM)
     \<and> (\<forall>m. \<exists>s''. read_fifofs sched (kernel_free d) rfd m s'
              = Some (int (min (unat m) n), take (unat m) (take n buf), s'')
          \<and> st_size (status (vnodes s'' node)) = of_nat (n - min (unat m) n))"
proof -
  obtain n s' where n: "write_fifofs (kernel_alloc (Suc d) 16) wfd buf s = Some (int n, s')" "0 < n" "n \<le> length buf"
      "n < length buf \<longrightarrow> errno s' = Some ENOMEM"
      "\<forall>m < 4294967296. \<exists>s''. read_fifofs sched (kernel_free d) rfd (of_nat m) s'
            = Some (int (min m n), take m (take n buf), s'')
          \<and> st_size (status (vnodes s'' node)) = of_nat (n - min m n)"
    using kfifo.write_fifofs_read_fifofs [OF assms] by blast
  have "\<exists>s''. read_fifofs sched (kernel_free d) rfd m s' = Some (int (min (unat m) n), take (unat m) (take n buf), s'')
          \<and> st_size (status (vnodes s'' node)) = of_nat (n - min (unat m) n)" for m
    using n(5) [rule_format, OF unat_u32_lt, of m] by simp
  then show ?thesis using n by (intro exI [of _ n] exI [of _ s']) auto
qed

definition sample_fifo :: "kmalloc_st fs_st" where
  "sample_fifo = (fs_init two_blocks)\<lparr>
     files := (\<lambda>_. \<lparr>vfs_node = 1, at_off = 0, oflag = O_RDWR\<rparr>),
     fifofs_nodes := (\<lambda>_. 0x400F10),
     fhdrs := (\<lambda>_. \<lparr>f_data = 0x400010, f_write_at = 0, f_read_at = 0, f_readers = 1, f_writers = 1\<rparr>)\<rparr>"

theorem fifofs_fifo_witness:
  "\<exists>n s'. write_fifofs (kernel_alloc (Suc 0) 16) 4 [1, 2] sample_fifo = Some (int n, s')
     \<and> 0 < n \<and> n \<le> length [1 :: u8, 2] \<and> (n = length [1 :: u8, 2] \<or> errno s' = Some ENOMEM)
     \<and> (\<forall>m. \<exists>s''. read_fifofs id (kernel_free 0) 3 m s'
              = Some (int (min (unat m) n), take (unat m) (take n [1, 2]), s'')
          \<and> st_size (status (vnodes s'' 1)) = of_nat (n - min (unat m) n))"
  using two_blocks_ok
  by (intro fifofs_fifo [where a = 0 and ino = 0 and hdr = "0x400F10" and p = "0x400010"])
    (auto simp: sample_fifo_def fs_init_def zero_node_def owns_def)

text \<open>
  C36. A blocking open of the read end of a FIFO whose header exists counts itself as a reader and then returns as soon as there is a writer: if there
  is one for the first time after \<open>k\<close> task switches, the open returns then, in the state those switches lead to, with the
  lowest free descriptor from 3 on, or with -1 if the task has no free descriptor from 3 on.
\<close>

theorem open_fifofs_read_returns:
  assumes "st_ino (status (vnodes s node)) = of_nat ino" "ino < 1024" "fifofs_nodes s ino = hdr" "hdr \<noteq> 0"
    "s2 = (sched ^^ k) (set_fhdr hdr (\<lambda>h. h\<lparr>f_readers := i32 (f_readers h + 1)\<rparr>) s)" "1 \<le> f_writers (fhdrs s2 hdr)"
    "\<forall>j < k. f_writers (fhdrs ((sched ^^ j) (set_fhdr hdr (\<lambda>h. h\<lparr>f_readers := i32 (f_readers h + 1)\<rparr>) s)) hdr) < 1"
  shows "\<exists>fd. open_fifofs sched node O_RDONLY s = Some (fd, s2)
     \<and> (3 \<le> fd \<and> fd < 32 \<and> vfs_node (files s2 (nat fd)) = 0 \<and> 0 \<notin> (\<lambda>i. vfs_node (files s2 i)) ` {3..<nat fd}
       \<or> fd = -1 \<and> 0 \<notin> (\<lambda>i. vfs_node (files s2 i)) ` {3..<32})"
proof -
  have u: "unat (st_ino (status (vnodes s node))) = ino" using assms(1,2) by (simp add: unat_of_nat_u32)
  obtain fd where fd: "get_free_fd 3 s2 = Some fd" "fd = -1 \<and> (\<forall>k. 3 \<le> int k \<and> k < 32 \<longrightarrow> vfs_node (files s2 k) \<noteq> 0)
      \<or> 3 \<le> fd \<and> fd < 32 \<and> vfs_node (files s2 (nat fd)) = 0 \<and> (\<forall>k. 3 \<le> int k \<and> int k < fd \<longrightarrow> vfs_node (files s2 k) \<noteq> 0)"
    using get_free_fd_cases [of 3 s2] by auto
  have "fifo_wait_writer sched hdr (set_fhdr hdr (\<lambda>h. h\<lparr>f_readers := i32 (f_readers h + 1)\<rparr>) s) = Some s2"
    unfolding assms(5) using assms(6,7) unfolding assms(5) by (rule fifo_wait_writer_returns)
  then have "open_fifofs sched node O_RDONLY s = Some (fd, s2)" using assms(2-4) u fd(1) by (simp add: open_fifofs_def)
  moreover have "3 \<le> fd \<and> fd < 32 \<and> vfs_node (files s2 (nat fd)) = 0 \<and> 0 \<notin> (\<lambda>i. vfs_node (files s2 i)) ` {3..<nat fd}
       \<or> fd = -1 \<and> 0 \<notin> (\<lambda>i. vfs_node (files s2 i)) ` {3..<32}"
    using fd(2) by (auto simp: nat_less_iff zless_nat_conj)
  ultimately show ?thesis by blast
qed

theorem open_fifofs_read_returns_witness:
  "let sched = (\<lambda>s. set_fhdr 9 (\<lambda>h. h\<lparr>f_writers := f_writers h + 1\<rparr>) s);
       s = (fs_init ())\<lparr>fifofs_nodes := \<lambda>_. 9\<rparr>;
       s2 = (sched ^^ 1) (set_fhdr 9 (\<lambda>h. h\<lparr>f_readers := i32 (f_readers h + 1)\<rparr>) s) in
   \<exists>fd. open_fifofs sched 1 O_RDONLY s = Some (fd, s2)
     \<and> (3 \<le> fd \<and> fd < 32 \<and> vfs_node (files s2 (nat fd)) = 0 \<and> 0 \<notin> (\<lambda>i. vfs_node (files s2 i)) ` {3..<nat fd}
       \<or> fd = -1 \<and> 0 \<notin> (\<lambda>i. vfs_node (files s2 i)) ` {3..<32})"
  unfolding Let_def
  by (rule open_fifofs_read_returns [where ino = 0 and hdr = 9 and k = 1]) (simp_all add: fs_init_def zero_node_def set_fhdr_def)

section \<open>Descriptors\<close>

text \<open>
  Creating a regular file fails with \<open>ENOMEM\<close>, \<open>ENOSPC\<close> or \<open>EMFILE\<close> and no descriptor changes, or
  it returns the lowest free descriptor from 3 on, open for writing at the start of a new, empty
  file at the end of the list of files; all other descriptors stay as they are and every file
  that was there keeps the names it answers to.
\<close>

theorem creat_vfs_regular_file:
  assumes "kheap_inv (hs s)" "vfs_ok kheap_used s ns" "mode AND S_IFREG \<noteq> 0" "mode AND S_IFDIR = 0"
    "ramfs_inodes s < 1024" "name \<noteq> []"
  shows "\<exists>r s'. creat_vfs (kernel_env d sched irq) name mode s = Some (r, s') \<and> kheap_inv (hs s')
     \<and> (r = -1 \<and> errno s' \<in> {Some ENOMEM, Some ENOSPC, Some EMFILE} \<and> files s' = files s
        \<or> (\<exists>n. 3 \<le> r \<and> r < 32 \<and> vfs_node (files s (nat r)) = 0 \<and> 0 \<notin> (\<lambda>k. vfs_node (files s k)) ` {3..<nat r}
             \<and> files s' = (files s)(nat r := \<lparr>vfs_node = n, at_off = 0, oflag = O_WRONLY\<rparr>)
             \<and> n \<notin> set ns \<and> vfs_ok kheap_used s' (ns @ [n]) \<and> is_file kheap_used s' n (unat (ramfs_inodes s))
             \<and> st_size (status (vnodes s' n)) = 0
             \<and> (\<forall>nm. filter (named s' nm) ns = filter (named s nm) ns)))"
proof -
  obtain r s' where c: "creat_vfs (kernel_env d sched irq) name mode s = Some (r, s')" "kheap_inv (hs s')"
      "r = -1 \<and> errno s' \<in> {Some ENOMEM, Some ENOSPC, Some EMFILE} \<and> files s' = files s
        \<or> (\<exists>n. 3 \<le> r \<and> r < 32 \<and> vfs_node (files s (nat r)) = 0
             \<and> (\<forall>k. 3 \<le> k \<and> int k < r \<longrightarrow> vfs_node (files s k) \<noteq> 0)
             \<and> files s' = (files s)(nat r := \<lparr>vfs_node = n, at_off = 0, oflag = O_WRONLY\<rparr>)
             \<and> n \<notin> set ns \<and> vfs_ok kheap_used s' (ns @ [n]) \<and> is_file kheap_used s' n (unat (ramfs_inodes s))
             \<and> st_size (status (vnodes s' n)) = 0 \<and> v_name (vnodes s' n) = put_name_n name (v_name (vnodes s n))
             \<and> (\<forall>m nm. m \<in> set ns \<longrightarrow> named s' nm m = named s nm m))"
    using kvfs.creat_vfs_regular [OF assms, of d sched irq] by blast
  have low: "0 \<notin> (\<lambda>k. vfs_node (files s k)) ` {3..<nat r}"
    if "3 \<le> r" "\<forall>k. 3 \<le> k \<and> int k < r \<longrightarrow> vfs_node (files s k) \<noteq> 0"
    using that by (auto simp: nat_less_iff zless_nat_conj)
  have flt: "filter (named s' nm) ns = filter (named s nm) ns"
    if "\<forall>m nm. m \<in> set ns \<longrightarrow> named s' nm m = named s nm m" for nm
    using that by (intro filter_cong) auto
  show ?thesis using c low flt by (intro exI [of _ r] exI [of _ s']) blast
qed

theorem creat_vfs_regular_file_witness:
  "\<exists>r s'. creat_vfs (kernel_env 0 id id) [97] S_IFREG (fs_init sample_heap) = Some (r, s') \<and> kheap_inv (hs s')
     \<and> (r = -1 \<and> errno s' \<in> {Some ENOMEM, Some ENOSPC, Some EMFILE} \<and> files s' = files (fs_init sample_heap)
        \<or> (\<exists>n. 3 \<le> r \<and> r < 32 \<and> vfs_node (files (fs_init sample_heap) (nat r)) = 0
             \<and> 0 \<notin> (\<lambda>k. vfs_node (files (fs_init sample_heap) k)) ` {3..<nat r}
             \<and> files s' = (files (fs_init sample_heap))(nat r := \<lparr>vfs_node = n, at_off = 0, oflag = O_WRONLY\<rparr>)
             \<and> n \<notin> set [] \<and> vfs_ok kheap_used s' ([] @ [n])
             \<and> is_file kheap_used s' n (unat (ramfs_inodes (fs_init sample_heap)))
             \<and> st_size (status (vnodes s' n)) = 0
             \<and> (\<forall>nm. filter (named s' nm) [] = filter (named (fs_init sample_heap) nm) [])))"
  by (rule creat_vfs_regular_file) (simp_all add: fs_init_ok, simp_all add: fs_init_def)

text \<open>
  C37. \<open>dup2\<close> on two different descriptors of the table, the first one open and the second one
  closed or open on a file without a close function of its own, returns the second one, which
  then is a copy of the first without \<open>FD_CLOEXEC\<close>; no other descriptor changes.
\<close>

theorem dup2_copies:
  assumes "0 \<le> fd" "fd < 32" "0 \<le> fd2" "fd2 < 32" "fd \<noteq> fd2" "vfs_node (files s (nat fd)) \<noteq> 0"
    "vfs_node (files s (nat fd2)) = 0 \<or> v_close (vnodes s (vfs_node (files s (nat fd2)))) = None"
  shows "\<exists>s'. dup2_lib e fd fd2 s = Some (fd2, s')
     \<and> files s' = (files s)(nat fd2 := (files s (nat fd))\<lparr>oflag := oflag (files s (nat fd)) AND NOT FD_CLOEXEC\<rparr>)"
proof -
  obtain r s1 where s1: "close_vfs e fd2 s = Some (r, s1)"
      "files s1 = (files s)(nat fd2 := (files s1 (nat fd2)))" "vfs_node (files s1 (nat fd2)) = 0"
    using assms(3,4,7) by (cases "vfs_node (files s (nat fd2)) = 0")
      (auto simp: close_vfs_def bad_fd_def set_errno_def set_file_def)
  have ne: "nat fd \<noteq> nat fd2" using assms(1,3,5) by simp
  have f1: "files s1 (nat fd) = files s (nat fd)" by (subst s1(2)) (simp add: ne)
  have "sint (word_of_int fd2 :: u32) = fd2"
    using sint_of_nat_u32 [of "nat fd2"] assms(3,4) by simp
  moreover have "get_free_fd fd2 s1 = Some fd2"
    using assms(3,4) s1(3) by (subst get_free_fd_def, subst get_free_fd_loop.simps) auto
  moreover have "\<not> bad_fd fd s1" using assms(1,2,6) by (simp add: bad_fd_def f1)
  ultimately have "dup2_lib e fd fd2 s = Some (fd2, set_file (nat fd2)
      (\<lambda>_. (files s (nat fd))\<lparr>oflag := oflag (files s (nat fd)) AND NOT FD_CLOEXEC\<rparr>) s1)"
    using s1(1) assms(3) by (simp add: dup2_lib_def close_lib_def fcntl_def do_fcntl_def f1 Let_def)
  moreover have "(files s1)(nat fd2 := x) = (files s)(nat fd2 := x)" for x by (subst s1(2)) simp
  ultimately show ?thesis by (simp add: set_file_def)
qed

theorem dup2_copies_witness:
  "let s = (fs_init ())\<lparr>files := (files (fs_init ()))(3 := \<lparr>vfs_node = 1, at_off = 7, oflag = O_RDWR OR FD_CLOEXEC\<rparr>)\<rparr>;
       e = \<lparr>e_km = \<lambda>h n. (0, h), e_kf = \<lambda>h p. h, e_sched = id, e_irq = id\<rparr> in
   \<exists>s'. dup2_lib e 3 9 s = Some (9, s')
     \<and> files s' = (files s)(nat 9 := (files s (nat 3))\<lparr>oflag := oflag (files s (nat 3)) AND NOT FD_CLOEXEC\<rparr>)"
  unfolding Let_def by (rule dup2_copies) (simp_all add: fs_init_def)

text \<open>
  \<open>dup2\<close> of an open descriptor onto itself, which POSIX defines to return it unchanged, closes
  the file and fails with \<open>EBADF\<close>.
\<close>

theorem dup2_onto_itself:
  assumes "0 \<le> fd" "fd < 32" "v_close (vnodes s (vfs_node (files s (nat fd)))) = None"
    "vfs_node (files s (nat fd)) \<noteq> 0"
  shows "\<exists>s'. dup2_lib e fd fd s = Some (-1, s') \<and> errno s' = Some EBADF \<and> vfs_node (files s' (nat fd)) = 0"
  using assms
  by (simp add: dup2_lib_def close_lib_def close_vfs_def fcntl_def do_fcntl_def bad_fd_def set_file_def set_errno_def)

theorem dup2_onto_itself_witness:
  "let s = (fs_init ())\<lparr>files := (files (fs_init ()))(3 := \<lparr>vfs_node = 1, at_off = 7, oflag = O_RDWR\<rparr>)\<rparr>;
       e = \<lparr>e_km = \<lambda>h n. (0, h), e_kf = \<lambda>h p. h, e_sched = id, e_irq = id\<rparr> in
   \<exists>s'. dup2_lib e 3 3 s = Some (-1, s') \<and> errno s' = Some EBADF \<and> vfs_node (files s' (nat 3)) = 0"
  unfolding Let_def by (rule dup2_onto_itself) (simp_all add: fs_init_def zero_node_def)

text \<open>
  \<open>F_DUPFD\<close> with an argument above \<open>OPEN_MAX\<close> is not refused: the search for a free descriptor
  starts behind the table and never meets its end.
\<close>

theorem dupfd_beyond_table:
  assumes "\<not> bad_fd fd s" "32 < sint arg"
  shows "do_fcntl fd F_DUPFD arg s = None"
proof -
  have "get_free_fd_loop (files s) (nat (sint arg)) = None"
    using assms(2) by (subst get_free_fd_loop.simps) auto
  then show ?thesis using assms by (simp add: do_fcntl_def get_free_fd_def)
qed

theorem dupfd_beyond_table_witness:
  "do_fcntl 3 F_DUPFD 33 ((fs_init ())\<lparr>files := \<lambda>_. \<lparr>vfs_node = 1, at_off = 0, oflag = O_RDWR\<rparr>\<rparr>) = None"
  by (rule dupfd_beyond_table) (simp_all add: fs_init_def bad_fd_def)

end
