(* ===== verification/Sort.thy ===== *)
theory Sort
  imports Prelude "HOL-Library.Multiset"
begin

text \<open>
  Sorting and searching of arrays, \<^verbatim>\<open>rlibc/stdlib/qsort.c\<close> and \<^verbatim>\<open>rlibc/stdlib/bsearch.c\<close>, on byte memory: items are runs of
  \<open>sz\<close> bytes, pointers are addresses, and the caller's \<open>compar\<close> is a function \<open>cmp\<close> of the bytes of the two items it
  is pointed at. A loop that does not end (items of size 0) is \<open>None\<close>. The subtractions that can lead below address 0 and the
  products wrap around at 32 bits as in the code; no address above the array is computed but its end.
\<close>

section \<open>Model\<close>

type_synonym compar = "u8 list \<Rightarrow> u8 list \<Rightarrow> int"

fun swap :: "mem \<Rightarrow> nat \<Rightarrow> nat \<Rightarrow> nat \<Rightarrow> mem" where
  "swap m a b 0 = m"
| "swap m a b (Suc s) = (let t = m (a + s); m = m(a + s := m (b + s)); m = m(b + s := t) in swap m a b s)"

partial_function (option) isort_insert :: "compar \<Rightarrow> nat \<Rightarrow> nat \<Rightarrow> nat \<Rightarrow> mem \<Rightarrow> mem option" where
  "isort_insert cmp sz base q m =
     (if q > base \<and> cmp (bytes m (q - sz) sz) (bytes m q sz) > 0
      then isort_insert cmp sz base (q - sz) (swap m (q - sz) q sz) else Some m)"

partial_function (option) isort_loop :: "compar \<Rightarrow> nat \<Rightarrow> nat \<Rightarrow> nat \<Rightarrow> nat \<Rightarrow> mem \<Rightarrow> mem option" where
  "isort_loop cmp sz base hi p m =
     (if p \<le> hi then do { m \<leftarrow> isort_insert cmp sz base p m; isort_loop cmp sz base hi (p + sz) m } else Some m)"

definition isort :: "compar \<Rightarrow> nat \<Rightarrow> nat \<Rightarrow> nat \<Rightarrow> mem \<Rightarrow> mem option" where
  "isort cmp sz base hi m = isort_loop cmp sz base hi base m"

abbreviation (input) CUTOFF :: nat where "CUTOFF \<equiv> 5"

definition ptr_sub :: "nat \<Rightarrow> nat \<Rightarrow> nat" where
  "ptr_sub a b = nat ((int a - int b) mod 2 ^ 32)"

definition AVG :: "nat \<Rightarrow> nat \<Rightarrow> nat \<Rightarrow> nat \<Rightarrow> nat \<Rightarrow> nat" where
  "AVG hi lo num den sz = lo + (num * (hi - lo) mod 2 ^ 32 div (den * sz mod 2 ^ 32)) * sz"

partial_function (option) dsort_part ::
    "compar \<Rightarrow> nat \<Rightarrow> nat \<Rightarrow> nat \<Rightarrow> nat \<Rightarrow> nat \<Rightarrow> nat \<Rightarrow> mem \<Rightarrow> (nat \<times> nat \<times> mem) option" where
  "dsort_part cmp sz lo hi lt gt i m =
     (if i \<le> gt then
        if cmp (bytes m i sz) (bytes m lo sz) < 0 then
          dsort_part cmp sz lo hi (lt + sz) gt (i + sz) (swap m lt i sz)
        else if cmp (bytes m hi sz) (bytes m i sz) < 0 then
          dsort_part cmp sz lo hi lt (gt - sz) i (swap m gt i sz)
        else dsort_part cmp sz lo hi lt gt (i + sz) m
      else Some (lt, gt, m))"

partial_function (option) dsort :: "compar \<Rightarrow> nat \<Rightarrow> nat \<Rightarrow> nat \<Rightarrow> mem \<Rightarrow> mem option" where
  "dsort cmp sz lo hi m =
     (if ptr_sub hi (CUTOFF * sz) < lo then Some m
      else do {
        let m = swap m lo (AVG hi lo 1 3 sz) sz;
        let m = swap m hi (AVG hi lo 2 3 sz) sz;
        let m = (if cmp (bytes m hi sz) (bytes m lo sz) < 0 then swap m lo hi sz else m);
        (lt, gt, m) \<leftarrow> dsort_part cmp sz lo hi (lo + sz) (hi - sz) (lo + sz) m;
        let lt = lt - sz;
        let gt = gt + sz;
        let m = swap m lo lt sz;
        let m = swap m hi gt sz;
        m \<leftarrow> dsort cmp sz lo (ptr_sub lt sz) m;
        m \<leftarrow> (if cmp (bytes m lt sz) (bytes m gt sz) < 0 then dsort cmp sz (lt + sz) (gt - sz) m else Some m);
        dsort cmp sz (gt + sz) hi m
      })"

definition qsort :: "compar \<Rightarrow> nat \<Rightarrow> nat \<Rightarrow> nat \<Rightarrow> mem \<Rightarrow> mem option" where
  "qsort cmp base nitems sz m = do {
     let hi = ptr_sub (base + nitems * sz) sz;
     m \<leftarrow> dsort cmp sz base hi m;
     isort cmp sz base hi m
   }"

function bsearch :: "compar \<Rightarrow> mem \<Rightarrow> u8 list \<Rightarrow> nat \<Rightarrow> nat \<Rightarrow> nat \<Rightarrow> nat" where
  "bsearch cmp m key base nitems sz =
     (if nitems = 0 then 0
      else
        let half = nitems div 2;
            middle = base + half * sz;
            pos = cmp (bytes m middle sz) key in
        if pos > 0 then bsearch cmp m key base half sz
        else if pos < 0 then bsearch cmp m key (middle + sz) half sz
        else middle)"
  by pat_completeness auto
termination by (relation "measure (\<lambda>(cmp, m, key, base, nitems, sz). nitems)") auto

declare bsearch.simps [simp del]

section \<open>Items\<close>

definition items :: "mem \<Rightarrow> nat \<Rightarrow> nat \<Rightarrow> nat \<Rightarrow> u8 list list" where
  "items m base sz n = map (\<lambda>i. bytes m (base + i * sz) sz) [0..<n]"

lemma length_items [simp]: "length (items m base sz n) = n"
  by (simp add: items_def)

lemma nth_items [simp]: "i < n \<Longrightarrow> items m base sz n ! i = bytes m (base + i * sz) sz"
  by (simp add: items_def)

lemma swap_apply:
  assumes "a = b \<or> a + s \<le> b \<or> b + s \<le> a"
  shows "swap m a b s x = (if a \<le> x \<and> x < a + s then m (b + (x - a)) else if b \<le> x \<and> x < b + s then m (a + (x - b)) else m x)"
  using assms
proof (induction s arbitrary: m)
  case (Suc s)
  then have "a = b \<or> a + s \<le> b \<or> b + s \<le> a" by auto
  show ?case unfolding swap.simps Let_def Suc.IH [OF \<open>a = b \<or> a + s \<le> b \<or> b + s \<le> a\<close>]
    using Suc.prems by (auto simp: less_Suc_eq)
qed auto

lemma item_apart:
  fixes i j sz :: nat
  assumes "i \<noteq> j"
  shows "i * sz + sz \<le> j * sz \<or> j * sz + sz \<le> i * sz"
proof -
  have "Suc i \<le> j \<or> Suc j \<le> i" using assms by auto
  then have "Suc i * sz \<le> j * sz \<or> Suc j * sz \<le> i * sz" using mult_le_mono1 by blast
  then show ?thesis by (auto simp: add.commute)
qed

text \<open>Swapping two items of an array swaps two positions of the list and touches nothing else.\<close>

lemma items_swap:
  assumes "i < n" "j < n"
  shows "items (swap m (base + i * sz) (base + j * sz) sz) base sz n
    = (items m base sz n)[i := items m base sz n ! j, j := items m base sz n ! i]"
proof (rule nth_equalityI)
  fix k
  assume k: "k < length (items (swap m (base + i * sz) (base + j * sz) sz) base sz n)"
  have ap: "base + i * sz = base + j * sz \<or> base + i * sz + sz \<le> base + j * sz \<or> base + j * sz + sz \<le> base + i * sz"
    using item_apart [of i j sz] by auto
  have "k = i \<or> k * sz + sz \<le> i * sz \<or> i * sz + sz \<le> k * sz" "k = j \<or> k * sz + sz \<le> j * sz \<or> j * sz + sz \<le> k * sz"
    using item_apart [of k i sz] item_apart [of k j sz] by auto
  then have "bytes (swap m (base + i * sz) (base + j * sz) sz) (base + k * sz) sz
      = bytes m (base + (if k = j then i else if k = i then j else k) * sz) sz"
    by (subst bytes_eq_iff) (auto simp: swap_apply [OF ap])
  then show "items (swap m (base + i * sz) (base + j * sz) sz) base sz n ! k
    = (items m base sz n)[i := items m base sz n ! j, j := items m base sz n ! i] ! k"
    using k assms by (auto simp: nth_list_update)
qed simp

text \<open>Two memories with the same items in some order, and the same bytes outside of the array.\<close>

definition rearranged :: "nat \<Rightarrow> nat \<Rightarrow> nat \<Rightarrow> mem \<Rightarrow> mem \<Rightarrow> bool" where
  "rearranged base sz n m m' \<longleftrightarrow> mset (items m' base sz n) = mset (items m base sz n)
     \<and> (\<forall>a. base \<le> a \<and> a < base + n * sz \<or> m' a = m a)"

lemma rearranged_refl [simp]: "rearranged base sz n m m"
  by (simp add: rearranged_def)

lemma rearranged_trans: "rearranged base sz n m m' \<Longrightarrow> rearranged base sz n m' m'' \<Longrightarrow> rearranged base sz n m m''"
  unfolding rearranged_def by metis

lemma item_inside: "i < n \<Longrightarrow> i * sz + sz \<le> n * (sz :: nat)"
  using mult_le_mono1 [of "Suc i" n sz] by simp

lemma rearranged_swap:
  assumes "i < n" "j < n"
  shows "rearranged base sz n m (swap m (base + i * sz) (base + j * sz) sz)"
proof -
  have "swap m (base + i * sz) (base + j * sz) sz a = m a" if "\<not> (base \<le> a \<and> a < base + n * sz)" for a
  proof -
    have ap: "base + i * sz = base + j * sz \<or> base + i * sz + sz \<le> base + j * sz \<or> base + j * sz + sz \<le> base + i * sz"
      using item_apart [of i j sz] by auto
    show ?thesis using that item_inside [OF assms(1), of sz] item_inside [OF assms(2), of sz]
      by (subst swap_apply [OF ap]) auto
  qed
  moreover have "mset ((items m base sz n)[i := items m base sz n ! j, j := items m base sz n ! i])
      = mset (items m base sz n)"
    by (rule mset_swap) (use assms in simp_all)
  ultimately show ?thesis unfolding rearranged_def items_swap [OF assms] by blast
qed


section \<open>The quick sort only rearranges\<close>

text \<open>Addresses of items are written \<open>base + k * sz\<close>; the loop keeps \<open>lt\<close>, \<open>i\<close> and \<open>gt\<close> on items of the array.\<close>

lemma dsort_part_rearranges:
  assumes "0 < sz" "i0 < l" "l \<le> k" "k \<le> Suc g" "Suc g \<le> j0" "j0 < n"
  shows "\<exists>l' g' m'. dsort_part cmp sz (base + i0 * sz) (base + j0 * sz) (base + l * sz) (base + g * sz) (base + k * sz) m
      = Some (base + l' * sz, base + g' * sz, m')
    \<and> rearranged base sz n m m' \<and> i0 < l' \<and> l' \<le> Suc g' \<and> Suc g' \<le> j0"
  using assms
proof (induction "Suc g - k" arbitrary: l k g m)
  case 0
  then show ?case by (subst dsort_part.simps) (auto simp: mult_le_cancel2 not_le)
next
  case (Suc d)
  have kg: "k \<le> g" using Suc.hyps(2) by arith
  then have le: "base + k * sz \<le> base + g * sz" by simp
  have S: "base + l * sz + sz = base + Suc l * sz" "base + k * sz + sz = base + Suc k * sz" by simp_all
  have G: "base + g * sz - sz = base + (g - 1) * sz" using Suc.prems Suc.hyps(2) by (cases g) auto
  have sw: "rearranged base sz n m (swap m (base + l * sz) (base + k * sz) sz)"
    "rearranged base sz n m (swap m (base + g * sz) (base + k * sz) sz)"
    using Suc.prems Suc.hyps(2) by (auto intro!: rearranged_swap)
  consider (lt) "cmp (bytes m (base + k * sz) sz) (bytes m (base + i0 * sz) sz) < 0"
    | (gt) "\<not> cmp (bytes m (base + k * sz) sz) (bytes m (base + i0 * sz) sz) < 0"
        "cmp (bytes m (base + j0 * sz) sz) (bytes m (base + k * sz) sz) < 0"
    | (eq) "\<not> cmp (bytes m (base + k * sz) sz) (bytes m (base + i0 * sz) sz) < 0"
        "\<not> cmp (bytes m (base + j0 * sz) sz) (bytes m (base + k * sz) sz) < 0" by blast
  then obtain l' g' k' m' where step:
      "dsort_part cmp sz (base + i0 * sz) (base + j0 * sz) (base + l * sz) (base + g * sz) (base + k * sz) m
      = dsort_part cmp sz (base + i0 * sz) (base + j0 * sz) (base + l' * sz) (base + g' * sz) (base + k' * sz) m'"
    and r: "rearranged base sz n m m'" and inv: "d = Suc g' - k'" "i0 < l'" "l' \<le> k'" "k' \<le> Suc g'" "Suc g' \<le> j0"
  proof cases
    case lt
    show ?thesis
      by (rule that [of "Suc l" g "Suc k"]) (use lt le kg S Suc.prems Suc.hyps(2) sw(1) in
        \<open>auto simp: ac_simps dsort_part.simps [of _ _ _ _ _ "base + g * sz" "base + k * sz"]\<close>)
  next
    case gt
    show ?thesis
      by (rule that [of l "g - 1" k]) (use gt le kg G Suc.prems Suc.hyps(2) sw(2) in
        \<open>auto simp: ac_simps dsort_part.simps [of _ _ _ _ _ "base + g * sz" "base + k * sz"]\<close>)
  next
    case eq
    show ?thesis
      by (rule that [of l g "Suc k"]) (use eq le kg S Suc.prems Suc.hyps(2) in
        \<open>auto simp: ac_simps dsort_part.simps [of _ _ _ _ _ "base + g * sz" "base + k * sz"]\<close>)
  qed
  show ?case unfolding step
    using Suc.hyps(1) [OF inv(1) Suc.prems(1) inv(2-5) Suc.prems(6), of m'] rearranged_trans [OF r] by blast
qed

lemma ptr_sub_eq: "b \<le> a \<Longrightarrow> a < 4294967296 \<Longrightarrow> ptr_sub a b = a - b"
  unfolding ptr_sub_def by (simp only: of_nat_diff [symmetric] zmod_int [symmetric]) (simp add: nat_mod_distrib)

lemma AVG_item:
  assumes "0 < sz" "i \<le> j" "num \<le> den" "0 < den" "num * ((j - i) * sz) < 4294967296" "den * sz < 4294967296"
  shows "\<exists>k. AVG (base + j * sz) (base + i * sz) num den sz = base + k * sz \<and> i \<le> k \<and> k \<le> j"
proof -
  have "base + j * sz - (base + i * sz) = (j - i) * sz" by (simp add: diff_mult_distrib)
  then have "num * (base + j * sz - (base + i * sz)) mod 2 ^ 32 div (den * sz mod 2 ^ 32) = num * (j - i) div den"
    using assms(1,5,6) by (simp add: mult.assoc [symmetric])
  moreover have "num * (j - i) div den \<le> j - i"
    using assms div_le_mono [of "num * (j - i)" "den * (j - i)" den] by simp
  ultimately show ?thesis using assms(2)
    by (intro exI [of _ "i + num * (j - i) div den"]) (auto simp: AVG_def add_mult_distrib)
qed

lemma dsort_short: "ptr_sub hi (CUTOFF * sz) < lo \<Longrightarrow> dsort cmp sz lo hi m = Some m"
  by (subst dsort.simps) simp

lemma dsort_below: "0 < sz \<Longrightarrow> 6 * sz \<le> lo \<Longrightarrow> lo < 4294967296 \<Longrightarrow> dsort cmp sz lo (ptr_sub lo sz) m = Some m"
  by (rule dsort_short) (simp add: ptr_sub_eq)

lemma dsort_rearranges:
  assumes "0 < sz" "j0 < n" "6 * sz \<le> base" "base + n * sz < 4294967296" "n * sz \<le> 1073741824"
  shows "\<exists>m'. dsort cmp sz (base + i0 * sz) (base + j0 * sz) m = Some m' \<and> rearranged base sz n m m'"
  using assms(2)
proof (induction "j0 - i0" arbitrary: i0 j0 m rule: less_induct)
  case less
  let ?lo = "base + i0 * sz" and ?hi = "base + j0 * sz"
  have hi: "?hi + sz < 4294967296" using item_inside [OF less.prems, of sz] assms(4) by simp
  have test: "ptr_sub ?hi (CUTOFF * sz) = ?hi - CUTOFF * sz" using assms(3) hi by (intro ptr_sub_eq) simp_all
  show ?case
  proof (cases "ptr_sub ?hi (CUTOFF * sz) < ?lo")
    case True
    then show ?thesis by (auto simp: dsort_short)
  next
    case False
    then have "base + i0 * sz + CUTOFF * sz \<le> base + j0 * sz" using assms(3) unfolding test by linarith
    then have "(i0 + 5) * sz \<le> j0 * sz" by (simp add: add_mult_distrib)
    then have ij: "i0 + 5 \<le> j0" using assms(1) by simp
    have small: "num * ((j0 - i0) * sz) < 4294967296" "3 * sz < 4294967296" if "num \<le> 2" for num
    proof -
      have "(j0 - i0) * sz \<le> n * sz" "3 * sz \<le> n * sz" using less.prems ij by (intro mult_le_mono1; linarith)+
      then show "num * ((j0 - i0) * sz) < 4294967296" "3 * sz < 4294967296"
        using assms(5) mult_le_mono [OF that, of "(j0 - i0) * sz" "1073741824"] by linarith+
    qed
    obtain a where a: "AVG ?hi ?lo 1 3 sz = base + a * sz" "a \<le> j0" using AVG_item [of sz i0 j0 1 3 base] assms(1) ij small [of 1] by auto
    obtain b where b: "AVG ?hi ?lo 2 3 sz = base + b * sz" "b \<le> j0" using AVG_item [of sz i0 j0 2 3 base] assms(1) ij small [of 2] by auto
    define m1 where "m1 = swap m ?lo (AVG ?hi ?lo 1 3 sz) sz"
    define m2 where "m2 = swap m1 ?hi (AVG ?hi ?lo 2 3 sz) sz"
    define m3 where "m3 = (if cmp (bytes m2 ?hi sz) (bytes m2 ?lo sz) < 0 then swap m2 ?lo ?hi sz else m2)"
    have r1: "rearranged base sz n m m1" "rearranged base sz n m1 m2" "rearranged base sz n m2 m3"
      using less.prems ij a b by (auto simp: m1_def m2_def m3_def intro!: rearranged_swap)
    obtain l g m4 where p: "dsort_part cmp sz ?lo ?hi (?lo + sz) (?hi - sz) (?lo + sz) m3 = Some (base + l * sz, base + g * sz, m4)"
      and r2: "rearranged base sz n m3 m4" and lg: "i0 < l" "l \<le> Suc g" "Suc g \<le> j0"
    proof -
      have "?lo + sz = base + Suc i0 * sz" "?hi - sz = base + (j0 - 1) * sz" using ij by (auto simp: diff_mult_distrib)
      then show ?thesis using that dsort_part_rearranges [of sz i0 "Suc i0" "Suc i0" "j0 - 1" j0 n cmp base m3] assms(1) ij less.prems
        by (auto simp: ac_simps)
    qed
    define l' where "l' = l - 1"
    have L: "base + l * sz - sz = base + l' * sz" "base + g * sz + sz = base + Suc g * sz" "l' < Suc g" "i0 \<le> l'"
      using lg by (auto simp: l'_def diff_mult_distrib)
    define m5 where "m5 = swap m4 ?lo (base + l' * sz) sz"
    define m6 where "m6 = swap m5 ?hi (base + Suc g * sz) sz"
    have r3: "rearranged base sz n m4 m5" "rearranged base sz n m5 m6"
      unfolding m5_def m6_def using less.prems ij L lg by (auto intro!: rearranged_swap simp del: mult_Suc)
    obtain m7 where s1: "dsort cmp sz ?lo (ptr_sub (base + l' * sz) sz) m6 = Some m7" "rearranged base sz n m6 m7"
    proof (cases "l' = i0")
      case True
      have "?lo < 4294967296" "6 * sz \<le> ?lo" using mult_le_mono1 [of i0 j0 sz] ij hi assms(3) by linarith+
      then have "dsort cmp sz ?lo (ptr_sub ?lo sz) m6 = Some m6" using assms(1) by (intro dsort_below)
      then show ?thesis using that [of m6] True by simp
    next
      case False
      have "l' * sz \<le> j0 * sz" using L(3) lg by (intro mult_le_mono1) linarith
      then have "ptr_sub (base + l' * sz) sz = base + l' * sz - sz" using hi assms(3) by (intro ptr_sub_eq) linarith+
      then have "ptr_sub (base + l' * sz) sz = base + (l' - 1) * sz" using L False by (auto simp: diff_mult_distrib)
      moreover have "l' - 1 - i0 < j0 - i0" "l' - 1 < n" using L lg less.prems ij by linarith+
      ultimately show ?thesis using that less.hyps [of "l' - 1" i0 m6] by metis
    qed
    obtain m8 where s2: "(if cmp (bytes m7 (base + l' * sz) sz) (bytes m7 (base + Suc g * sz) sz) < 0
        then dsort cmp sz (base + l' * sz + sz) (base + Suc g * sz - sz) m7 else Some m7) = Some m8" "rearranged base sz n m7 m8"
    proof -
      have "base + l' * sz + sz = base + Suc l' * sz" "base + Suc g * sz - sz = base + g * sz" by simp_all
      moreover have "g - Suc l' < j0 - i0" "g < n" using L lg less.prems ij by linarith+
      ultimately obtain m' where "dsort cmp sz (base + l' * sz + sz) (base + Suc g * sz - sz) m7 = Some m'" "rearranged base sz n m7 m'"
        using less.hyps [of g "Suc l'" m7] by metis
      then show ?thesis using that [of m'] that [of m7] rearranged_refl by presburger
    qed
    obtain m9 where s3: "dsort cmp sz (base + Suc g * sz + sz) ?hi m8 = Some m9" "rearranged base sz n m8 m9"
    proof -
      have "base + Suc g * sz + sz = base + Suc (Suc g) * sz" by simp
      moreover have "j0 - Suc (Suc g) < j0 - i0" using L lg less.prems ij by linarith
      ultimately show ?thesis using that less.hyps [of j0 "Suc (Suc g)" m8] less.prems by metis
    qed
    have "dsort cmp sz ?lo ?hi m = Some m9"
      using False p s1(1) s2(1) s3(1)
      by (subst dsort.simps) (simp only: m1_def [symmetric] m2_def [symmetric] m3_def [symmetric] m5_def [symmetric]
        m6_def [symmetric] Let_def if_False L p bind.simps prod.case)
    moreover have "rearranged base sz n m m9" 
      using rearranged_trans [OF rearranged_trans [OF rearranged_trans [OF r1(1,2)] r1(3)]
        rearranged_trans [OF r2 rearranged_trans [OF r3]]]
        rearranged_trans [OF s1(2) rearranged_trans [OF s2(2) s3(2)]] rearranged_trans by metis
    ultimately show ?thesis by blast
  qed
qed


section \<open>The insertion sort sorts\<close>

text \<open>The inner loop on the list of items.\<close>

fun sink :: "compar \<Rightarrow> nat \<Rightarrow> u8 list list \<Rightarrow> u8 list list" where
  "sink cmp 0 xs = xs"
| "sink cmp (Suc j) xs =
     (if cmp (xs ! j) (xs ! Suc j) > 0 then sink cmp j (xs[j := xs ! Suc j, Suc j := xs ! j]) else xs)"

lemma isort_insert_sink:
  assumes "0 < sz" "j < n"
  shows "\<exists>m'. isort_insert cmp sz base (base + j * sz) m = Some m'
    \<and> items m' base sz n = sink cmp j (items m base sz n) \<and> rearranged base sz n m m'"
  using assms(2)
proof (induction j arbitrary: m)
  case 0
  then show ?case by (subst isort_insert.simps) simp
next
  case (Suc j)
  have q: "base + Suc j * sz - sz = base + j * sz" "base + Suc j * sz > base" using assms(1) by simp_all
  show ?case
  proof (cases "cmp (bytes m (base + j * sz) sz) (bytes m (base + Suc j * sz) sz) > 0")
    case True
    define m1 where "m1 = swap m (base + j * sz) (base + Suc j * sz) sz"
    have step: "isort_insert cmp sz base (base + Suc j * sz) m = isort_insert cmp sz base (base + j * sz) m1"
      unfolding m1_def using True q by (subst isort_insert.simps) (simp only: if_True simp_thms)
    have "items m1 base sz n = (items m base sz n)[j := items m base sz n ! Suc j, Suc j := items m base sz n ! j]"
      unfolding m1_def by (rule items_swap) (use Suc.prems in simp_all)
    then have i: "sink cmp (Suc j) (items m base sz n) = sink cmp j (items m1 base sz n)"
      using True Suc.prems by (simp del: mult_Suc)
    have r: "rearranged base sz n m m1" unfolding m1_def by (rule rearranged_swap) (use Suc.prems in simp_all)
    obtain m' where "isort_insert cmp sz base (base + j * sz) m1 = Some m'" "items m' base sz n = sink cmp j (items m1 base sz n)"
        "rearranged base sz n m1 m'"
      using Suc.IH [of m1] Suc.prems by auto
    then show ?thesis using step i rearranged_trans [OF r] by simp
  next
    case False
    then show ?thesis using q Suc.prems by (subst isort_insert.simps) (simp del: mult_Suc)
  qed
qed

text \<open>A comparison that orders: \<open>cmp a b \<le> 0\<close> is transitive and total.\<close>

definition total_preorder :: "compar \<Rightarrow> bool" where
  "total_preorder cmp \<longleftrightarrow> (\<forall>a b c. cmp a b \<le> 0 \<longrightarrow> cmp b c \<le> 0 \<longrightarrow> cmp a c \<le> 0) \<and> (\<forall>a b. cmp a b > 0 \<longrightarrow> cmp b a \<le> 0)"

text \<open>Sinking an element into a sorted prefix.\<close>

lemma sink_sorted:
  assumes cmp: "total_preorder cmp"
  shows "\<exists>us. sink cmp (length ys) (ys @ x # zs) = us @ zs \<and> mset us = mset (x # ys)
    \<and> (sorted_wrt (\<lambda>a b. cmp a b \<le> 0) ys \<longrightarrow> sorted_wrt (\<lambda>a b. cmp a b \<le> 0) us)"
proof (induction ys arbitrary: zs rule: rev_induct)
  case Nil
  show ?case by simp
next
  case (snoc y ys)
  show ?case
  proof (cases "cmp y x > 0")
    case True
    obtain us where us: "sink cmp (length ys) (ys @ x # y # zs) = us @ y # zs" "mset us = mset (x # ys)"
        "sorted_wrt (\<lambda>a b. cmp a b \<le> 0) ys \<longrightarrow> sorted_wrt (\<lambda>a b. cmp a b \<le> 0) us"
      using snoc.IH [of "y # zs"] by blast
    have "set us = insert x (set ys)" using us(2) by (metis list.simps(15) set_mset_mset)
    then have "sorted_wrt (\<lambda>a b. cmp a b \<le> 0) (ys @ [y]) \<longrightarrow> sorted_wrt (\<lambda>a b. cmp a b \<le> 0) (us @ [y])"
      using us(3) True cmp by (auto simp: total_preorder_def sorted_wrt_append)
    moreover have "sink cmp (length (ys @ [y])) ((ys @ [y]) @ x # zs) = (us @ [y]) @ zs"
      using True us(1) by (simp add: nth_append list_update_append)
    ultimately show ?thesis using us(2) by (intro exI [of _ "us @ [y]"]) simp
  next
    case False
    have "sorted_wrt (\<lambda>a b. cmp a b \<le> 0) (ys @ [y]) \<longrightarrow> sorted_wrt (\<lambda>a b. cmp a b \<le> 0) (ys @ [y, x])"
      using False cmp by (auto simp: sorted_wrt_append not_less total_preorder_def)
    then show ?thesis using False by (intro exI [of _ "ys @ [y, x]"]) (simp add: nth_append)
  qed
qed

lemma isort_loop_sorts:
  assumes sz: "0 < sz" and cmp: "total_preorder cmp"
    and k: "k \<le> n" "0 < n" and sorted: "sorted_wrt (\<lambda>a b. cmp a b \<le> 0) (take k (items m base sz n))"
  shows "\<exists>m'. isort_loop cmp sz base (base + n * sz - sz) (base + k * sz) m = Some m'
    \<and> rearranged base sz n m m' \<and> sorted_wrt (\<lambda>a b. cmp a b \<le> 0) (items m' base sz n)"
  using k(1) sorted
proof (induction "n - k" arbitrary: k m)
  case 0
  have "n * sz - sz < n * sz" using sz k(2) by simp
  then have "\<not> base + k * sz \<le> base + n * sz - sz" using 0 k(2) by (cases n) simp_all
  then show ?case using 0 by (subst isort_loop.simps) simp
next
  case (Suc d)
  then have kn: "k < n" by simp
  have hi: "base + k * sz \<le> base + n * sz - sz" using item_inside [OF kn, of sz] by simp
  obtain m1 where m1: "isort_insert cmp sz base (base + k * sz) m = Some m1"
      "items m1 base sz n = sink cmp k (items m base sz n)" "rearranged base sz n m m1"
    using isort_insert_sink [OF sz kn] by blast
  let ?xs = "items m base sz n"
  have xs: "?xs = take k ?xs @ ?xs ! k # drop (Suc k) ?xs" by (rule id_take_nth_drop) (use kn in simp)
  obtain us where us: "sink cmp k ?xs = us @ drop (Suc k) ?xs" "mset us = mset (?xs ! k # take k ?xs)"
      "sorted_wrt (\<lambda>a b. cmp a b \<le> 0) us"
  proof -
    have "length (take k ?xs) = k" using kn by simp
    then show ?thesis using that Suc.prems(2) xs sink_sorted [OF cmp, of "take k ?xs" "?xs ! k" "drop (Suc k) ?xs"] by metis
  qed
  have "length us = Suc k" using us(2) kn by (metis length_Cons length_items length_take min.absorb4 size_mset)
  then have "sorted_wrt (\<lambda>a b. cmp a b \<le> 0) (take (Suc k) (items m1 base sz n))" using us m1(2) by simp
  then obtain m' where "isort_loop cmp sz base (base + n * sz - sz) (base + Suc k * sz) m1 = Some m'"
      "rearranged base sz n m1 m'" "sorted_wrt (\<lambda>a b. cmp a b \<le> 0) (items m' base sz n)"
  proof -
    have "d = n - Suc k" "Suc k \<le> n" using Suc.hyps(2) kn by linarith+
    then show ?thesis using Suc.hyps(1) [of "Suc k" m1] that
      \<open>sorted_wrt (\<lambda>a b. cmp a b \<le> 0) (take (Suc k) (items m1 base sz n))\<close> by blast
  qed
  then show ?case using hi m1 rearranged_trans [OF m1(3)]
    by (subst isort_loop.simps) (auto simp: ac_simps)
qed


section \<open>Theorems\<close>

text \<open>
  C11. \<open>qsort\<close> sorts. For items of at least one byte in an array of at most 1 GiB that starts at address \<open>6 * sz\<close> or above and ends below
  the end of the address space, and a comparison that is a total preorder, \<open>qsort\<close> returns, the items afterwards are those
  from before in ascending order, and no byte outside of the array changes.
\<close>

theorem qsort_sorts:
  assumes "0 < sz" "6 * sz \<le> base" "base + nitems * sz < 4294967296" "nitems * sz \<le> 1073741824" "total_preorder cmp"
  shows "\<exists>m'. qsort cmp base nitems sz m = Some m' \<and> sorted_wrt (\<lambda>a b. cmp a b \<le> 0) (items m' base sz nitems)
    \<and> mset (items m' base sz nitems) = mset (items m base sz nitems)
    \<and> (\<forall>a. base \<le> a \<and> a < base + nitems * sz \<or> m' a = m a)"
proof -
  have hi: "ptr_sub (base + nitems * sz) sz = base + nitems * sz - sz" using assms(2,3) by (intro ptr_sub_eq) simp_all
  show ?thesis
  proof (cases "nitems = 0")
    case True
    have d: "dsort cmp sz base (ptr_sub base sz) m = Some m" using assms(1-3) by (intro dsort_below) simp_all
    have "\<not> base \<le> ptr_sub base sz" using assms(1,2) True hi by simp
    then have "isort_loop cmp sz base (ptr_sub base sz) base m = Some m" by (subst isort_loop.simps) simp
    then show ?thesis using True d by (simp add: qsort_def isort_def items_def)
  next
    case False
    then have e: "base + nitems * sz - sz = base + (nitems - 1) * sz" by (cases nitems) simp_all
    obtain m1 where m1: "dsort cmp sz base (base + nitems * sz - sz) m = Some m1" "rearranged base sz nitems m m1"
      using dsort_rearranges [of sz "nitems - 1" nitems base cmp 0 m] assms(1-4) False e by auto
    obtain m' where "isort_loop cmp sz base (base + nitems * sz - sz) base m1 = Some m'" "rearranged base sz nitems m1 m'"
        "sorted_wrt (\<lambda>a b. cmp a b \<le> 0) (items m' base sz nitems)"
      using isort_loop_sorts [OF assms(1,5), of 0 nitems m1 base] False by auto
    then have "qsort cmp base nitems sz m = Some m'" "rearranged base sz nitems m m'"
        "sorted_wrt (\<lambda>a b. cmp a b \<le> 0) (items m' base sz nitems)"
      using m1 rearranged_trans [OF m1(2)] by (simp_all add: qsort_def isort_def hi)
    then show ?thesis unfolding rearranged_def by blast
  qed
qed

text \<open>The items are in order for the search for \<open>key\<close>: first those below, then those equal, then those above it.\<close>

definition ordered_for :: "compar \<Rightarrow> u8 list \<Rightarrow> u8 list list \<Rightarrow> bool" where
  "ordered_for cmp key xs \<longleftrightarrow>
     sorted_wrt (\<lambda>a b. (cmp b key < 0 \<longrightarrow> cmp a key < 0) \<and> (cmp a key > 0 \<longrightarrow> cmp b key > 0)) xs"

lemma items_split: "items m base sz (a + b) = items m base sz a @ items m (base + a * sz) sz b"
proof (rule nth_equalityI)
  show "items m base sz (a + b) ! i = (items m base sz a @ items m (base + a * sz) sz b) ! i"
    if "i < length (items m base sz (a + b))" for i
  proof (cases "i < a")
    case True
    then show ?thesis using that by (simp add: nth_append)
  next
    case False
    then have "base + i * sz = base + a * sz + (i - a) * sz" by (simp add: diff_mult_distrib)
    moreover have "items m (base + a * sz) sz b ! (i - a) = bytes m (base + a * sz + (i - a) * sz) sz"
      using that False by (intro nth_items) simp
    ultimately show ?thesis using that False by (simp only: nth_append length_items nth_items if_False)
  qed
qed simp

lemma bsearch_window:
  assumes "ordered_for cmp key (items m base sz (2 ^ k - 1))"
  shows "(\<exists>i < 2 ^ k - 1. bsearch cmp m key base (2 ^ k - 1) sz = base + i * sz \<and> cmp (bytes m (base + i * sz) sz) key = 0)
    \<or> bsearch cmp m key base (2 ^ k - 1) sz = 0 \<and> filter (\<lambda>x. cmp x key = 0) (items m base sz (2 ^ k - 1)) = []"
  using assms
proof (induction k arbitrary: base)
  case 0
  then show ?case by (subst bsearch.simps) (simp add: items_def)
next
  case (Suc k)
  define h :: nat where "h = 2 ^ k - 1"
  have n: "2 ^ Suc k - 1 = h + Suc h" "(h + Suc h) div 2 = h" by (simp_all add: h_def)
  let ?mid = "base + h * sz"
  let ?l = "items m base sz h" and ?u = "items m (?mid + sz) sz h"
  have it: "items m base sz (h + Suc h) = ?l @ bytes m ?mid sz # ?u"
    using items_split [of m base sz h "Suc h"] items_split [of m ?mid sz 1 h] by (simp add: items_def)
  have ord: "ordered_for cmp key ?l" "ordered_for cmp key ?u" and
    lo: "cmp (bytes m ?mid sz) key < 0 \<Longrightarrow> filter (\<lambda>x. cmp x key = 0) ?l = []" and
    up: "cmp (bytes m ?mid sz) key > 0 \<Longrightarrow> filter (\<lambda>x. cmp x key = 0) ?u = []"
    using Suc.prems unfolding n it ordered_for_def by (auto simp: sorted_wrt_append filter_empty_conv)
  let ?r = "bsearch cmp m key base (h + Suc h) sz"
  have r: "?r = (if cmp (bytes m ?mid sz) key > 0 then bsearch cmp m key base h sz
      else if cmp (bytes m ?mid sz) key < 0 then bsearch cmp m key (?mid + sz) h sz else ?mid)"
    using n(2) by (subst bsearch.simps) (simp add: Let_def)
  consider (gt) "cmp (bytes m ?mid sz) key > 0" | (lt) "cmp (bytes m ?mid sz) key < 0" | (eq) "cmp (bytes m ?mid sz) key = 0"
    by linarith
  then have "(\<exists>i < h + Suc h. ?r = base + i * sz \<and> cmp (bytes m (base + i * sz) sz) key = 0)
    \<or> ?r = 0 \<and> filter (\<lambda>x. cmp x key = 0) (items m base sz (h + Suc h)) = []"
  proof cases
    case gt
    then have e: "?r = bsearch cmp m key base h sz" using r by simp
    have f: "filter (\<lambda>x. cmp x key = 0) (items m base sz (h + Suc h)) = filter (\<lambda>x. cmp x key = 0) ?l"
      unfolding it using gt up by simp
    have "h < h + Suc h" by simp
    then show ?thesis unfolding e f using Suc.IH [of base, folded h_def, OF ord(1)] by (meson less_trans)
  next
    case lt
    then have e: "?r = bsearch cmp m key (?mid + sz) h sz" using r by simp
    have f: "filter (\<lambda>x. cmp x key = 0) (items m base sz (h + Suc h)) = filter (\<lambda>x. cmp x key = 0) ?u"
      unfolding it using lt lo by simp
    have "?mid + sz + i * sz = base + (Suc h + i) * sz" for i by (simp add: add_mult_distrib)
    moreover have "i < h \<Longrightarrow> Suc h + i < h + Suc h" for i by simp
    ultimately show ?thesis unfolding e f using Suc.IH [of "?mid + sz", folded h_def, OF ord(2)] by metis
  next
    case eq
    then have "?r = base + h * sz" using r by simp
    moreover have "h < h + Suc h" by simp
    ultimately show ?thesis using eq by blast
  qed
  then show ?case unfolding n .
qed

text \<open>
  C34. \<open>bsearch\<close> on an array whose number of items is one less than a power of two (0, 1, 3, 7, 15 and so on), in order, finds an item equal
  to the key when there is one, and returns NULL when there is none.
\<close>

theorem bsearch_finds:
  assumes "ordered_for cmp key (items m base sz (2 ^ k - 1))"
  shows "(\<exists>i. i < 2 ^ k - 1 \<and> bsearch cmp m key base (2 ^ k - 1) sz = base + i * sz \<and> cmp (bytes m (base + i * sz) sz) key = 0)
    \<or> bsearch cmp m key base (2 ^ k - 1) sz = 0 \<and> filter (\<lambda>x. cmp x key = 0) (items m base sz (2 ^ k - 1)) = []"
  using bsearch_window [OF assms] by blast

text \<open>
  For other sizes the search of the upper half takes one item too many: in an array of four the last item is
  looked for behind the array, and when the bytes there compare below the key the item is not found.
\<close>

theorem bsearch_misses_last_of_four:
  assumes "cmp (items m base sz 6 ! 2) key < 0" "cmp (items m base sz 6 ! 3) key = 0"
    "cmp (items m base sz 6 ! 4) key < 0" "cmp (items m base sz 6 ! 5) key < 0"
  shows "bsearch cmp m key base 4 sz = 0"
proof -
  have "bsearch cmp m key (base + 5 * sz) 1 sz = 0" using assms(4) by (simp add: bsearch.simps)
  then have "bsearch cmp m key (base + 2 * sz + sz) 2 sz = 0"
    using assms(3) by (subst bsearch.simps) (simp add: Let_def add.commute)
  then show ?thesis using assms(1) by (subst bsearch.simps) (simp add: Let_def)
qed


definition byte_cmp :: compar where
  "byte_cmp a b = sint (hd a) - sint (hd b)"

theorem qsort_sorts_witness:
  "\<exists>m'. qsort byte_cmp 16 4 1 (\<lambda>a. of_nat (100 - a)) = Some m' \<and> sorted_wrt (\<lambda>a b. byte_cmp a b \<le> 0) (items m' 16 1 4)
    \<and> mset (items m' 16 1 4) = {#[84], [83], [82], [81]#} \<and> (\<forall>a. 16 \<le> a \<and> a < 20 \<or> m' a = of_nat (100 - a))"
proof -
  have "total_preorder byte_cmp" by (auto simp: total_preorder_def byte_cmp_def)
  moreover have "items (\<lambda>a. of_nat (100 - a)) 16 1 4 = [[84], [83], [82], [81]]"
    by (simp add: items_def bytes_def upt_rec)
  ultimately show ?thesis using qsort_sorts [of 1 16 4 byte_cmp "\<lambda>a. of_nat (100 - a)"] by simp
qed

theorem bsearch_finds_witness:
  "(\<exists>i. i < 3 \<and> bsearch byte_cmp (\<lambda>a. of_nat a) [17] 16 3 1 = 16 + i \<and> byte_cmp (bytes (\<lambda>a. of_nat a) (16 + i) 1) [17] = 0)"
proof -
  have i: "items (\<lambda>a. of_nat a) 16 1 3 = [[16], [17], [18]]" by (simp add: items_def bytes_def upt_rec)
  then have "ordered_for byte_cmp [17] (items (\<lambda>a. of_nat a) 16 1 (2 ^ 2 - 1))"
    by (simp add: ordered_for_def byte_cmp_def)
  from bsearch_finds [OF this] i show ?thesis by (simp add: byte_cmp_def)
qed

theorem bsearch_misses_last_of_four_witness:
  "bsearch byte_cmp (\<lambda>a. if a < 20 then of_nat a else 0) [19] 16 4 1 = 0"
  by (rule bsearch_misses_last_of_four) (simp_all add: byte_cmp_def bytes_def)

end
