(* ===== verification/MemFrame.thy ===== *)
theory MemFrame
  imports Kmalloc
begin

text \<open>
  The memory routines of \<^verbatim>\<open>paging.c\<close>, \<^verbatim>\<open>kvm.c\<close> and \<^verbatim>\<open>kmalloc.c\<close> work on their own part of the kernel's
  state: what later components add to the record (the tables of tasks) is the same before and
  after. One lemma per routine, up to the allocator the kernel runs with.
\<close>

abbreviation rest :: "'z kmalloc_st_scheme \<Rightarrow> 'z" where
  "rest \<equiv> kmalloc_st.more"

section \<open>Frames and page tables\<close>

lemma rest_frame_alloc [simp]: "rest (snd (frame_alloc s)) = rest (s :: 'z kmalloc_st_scheme)"
  by (simp add: frame_alloc_def set_frame_def Let_def)

lemma rest_frame_free [simp]: "rest (frame_free a s) = rest (s :: 'z kmalloc_st_scheme)"
  by (simp add: frame_free_def clear_frame_def Let_def)

lemma rest_upds [simp]:
  "rest (set_entry t i f s) = rest (s :: 'z kmalloc_st_scheme)"
  "rest (set_pde pd i g s) = rest s" "rest (set_table pd i t s) = rest s" "rest (set_node p h s) = rest s"
  by (simp_all add: set_entry_def set_pde_def set_table_def set_node_def)

lemma rest_page_map:
  assumes "\<And>s n. rest (snd (km s n)) = rest s"
  shows "rest (snd (page_map km a f fl pd s)) = rest s"
proof -
  have "rest (snd (ensure_table km a' fl pd s)) = rest s" for a'
    by (simp add: ensure_table_def Let_def case_prod_unfold assms)
  then show ?thesis by (simp add: page_map_def Let_def case_prod_unfold)
qed

lemma rest_vmemset [simp]: "rest (vmemset a b n s) = rest (s :: 'z kmalloc_st_scheme)"
  by (induction n arbitrary: a s) (simp_all add: vwrite_def)

lemma rest_vmemcpy [simp]: "rest (vmemcpy a b n s) = rest (s :: 'z kmalloc_st_scheme)"
  by (induction n arbitrary: a b s) (simp_all add: vwrite_def)

section \<open>The kernel heap\<close>

lemma rest_kvm_page_alloc:
  assumes "\<And>s n. rest (snd (km s n)) = rest s"
  shows "rest (snd (kvm_page_alloc_zeroed km s)) = rest s"
proof -
  have "rest (snd (kvm_page_alloc km s)) = rest s"
    by (simp add: kvm_page_alloc_def Let_def case_prod_unfold rest_page_map [OF assms])
  then show ?thesis by (simp add: kvm_page_alloc_zeroed_def Let_def case_prod_unfold)
qed

lemma rest_kvm_page_free:
  assumes "\<And>s n. rest (snd (km s n)) = rest s"
  shows "rest (kvm_page_free km s) = rest s"
  by (simp add: kvm_page_free_def Let_def case_prod_unfold rest_page_map [OF assms])

lemma rest_ksbrk:
  assumes "\<And>s n. rest (snd (km s n)) = rest s"
  shows "rest (snd (ksbrk km incr s)) = rest s"
proof -
  have "rest (snd (ksbrk_enlarge km i s)) = rest s" for i s
    using assms
  proof (induction km i s rule: ksbrk_enlarge.induct)
    case (1 km i s)
    obtain r s1 where r: "kvm_page_alloc_zeroed km s = (r, s1)" by force
    have "rest s1 = rest s" using rest_kvm_page_alloc [of km s] 1(2) by (simp add: r)
    then show ?case using 1(1) [OF _ r [symmetric] refl] 1(2) r by (subst ksbrk_enlarge.simps) auto
  qed
  moreover have "rest (ksbrk_shrink km i s) = rest s" for i s
    using assms
    by (induction km i s rule: ksbrk_shrink.induct)
      (subst ksbrk_shrink.simps, auto simp: rest_kvm_page_free)
  ultimately show ?thesis
    by (simp add: ksbrk_def Let_def case_prod_unfold)
qed

lemma rest_enlarge_last:
  assumes "\<And>n s. rest (snd (sbrk n s)) = rest s"
  shows "rest (snd (enlarge_last sbrk sz p s)) = rest s"
  by (simp add: enlarge_last_def Let_def case_prod_unfold assms)

lemma rest_take_node: "rest (snd (take_node sz pad p s)) = rest s"
  by (auto simp: take_node_def split_front_def split_back_def Let_def)

lemma rest_find_node:
  assumes "find_node sbrk sz al p s = Some r"
  shows "(\<forall>n s. rest (snd (sbrk n s)) = rest s) \<longrightarrow> rest (snd r) = rest s"
proof (rule find_node.raw_induct [OF _ assms], goal_cases)
  case (1 f sbrk sz al p s r)
  show ?case
  proof
    assume sb: "\<forall>n s. rest (snd (sbrk n s)) = rest s"
    obtain g s1 where g: "enlarge_last sbrk sz p s = (g, s1)" by force
    have "rest s1 = rest s" using rest_enlarge_last [of sbrk sz p s] sb by (simp add: g)
    then show "rest (snd r) = rest s"
      using 1(2) 1(1) sb rest_take_node [of sz "padding_for p al" p s1] g
      by (auto simp: Let_def split: if_splits)
  qed
qed

lemma rest_kmalloc_a:
  assumes "\<And>n s. rest (snd (sbrk n s)) = rest s" "kmalloc_a sbrk sz al s = Some r"
  shows "rest (snd r) = rest s"
proof -
  have init: "rest (snd (init_heap sbrk n s)) = rest s" for n s
    by (simp add: init_heap_def Let_def case_prod_unfold assms(1))
  have "rest (snd r) = rest s" if "do_kmalloc sbrk n a s = Some r" for n a
  proof -
    obtain h s1 where h: "init_heap sbrk (round_up n NODE_T_SIZE) s = (h, s1)" by force
    have "rest s1 = rest s" using init [of "round_up n NODE_T_SIZE" s] by (simp add: h)
    then show ?thesis
      using that h rest_find_node [of sbrk "round_up n NODE_T_SIZE" a "kh_start s1" s1 r] assms(1)
      by (auto simp: do_kmalloc_def split: if_splits)
  qed
  then show ?thesis
    using assms(2) by (auto simp: kmalloc_a_def Let_def pre_paging_kmalloc_def set_alloc_start_def split: if_splits)
qed

text \<open>The kernel's \<open>kmalloc\<close>, \<open>kmalloc_pa\<close> and \<open>kfree\<close>.\<close>

lemma rest_kernel_alloc [simp]: "rest (snd (kernel_alloc n al s sz)) = rest s"
proof (induction n arbitrary: al s sz)
  case (Suc n)
  have "rest (snd (ksbrk (kernel_alloc n PAGE_SIZE) k s)) = rest s" for k and s :: "'a kmalloc_st_scheme"
    using Suc.IH by (intro rest_ksbrk) simp
  then show ?case
    using rest_kmalloc_a [of "ksbrk (kernel_alloc n PAGE_SIZE)" sz al s]
    by (auto simp: kernel_alloc.simps split: option.splits)
qed (simp add: kernel_alloc.simps)

lemma rest_kernel_free [simp]: "rest (kernel_free n s p) = rest s"
proof -
  have sb: "rest (snd (ksbrk (kernel_alloc n PAGE_SIZE) k s)) = rest s" for k and s :: "'a kmalloc_st_scheme"
    by (rule rest_ksbrk) simp
  have trim: "rest (trim_last (ksbrk (kernel_alloc n PAGE_SIZE)) q s) = rest s" for q and s :: "'a kmalloc_st_scheme"
    by (simp add: trim_last_def Let_def case_prod_unfold sb)
  have "rest (unify_fwd q s) = rest s" for q and s :: "'a kmalloc_st_scheme"
    by (simp add: unify_fwd_def Let_def)
  then show ?thesis by (simp add: kernel_free_def kfree_def do_kfree_def Let_def trim)
qed

end
