(* ===== verification/Task.thy ===== *)
theory Task
  imports MemFrame VfsBase
begin

text \<open>
  Tasks, \<^verbatim>\<open>kernel/src/mm/task.c\<close>: the table of 256 tasks, creation, fork, death and destruction, the
  choice of the next task, and \<open>sys_wait\<close> and \<open>sys_exit\<close> of \<^verbatim>\<open>kernel/src/syscall/sys_tasking.c\<close>. Task
  structures live in the typed heap \<open>theap\<close>, keyed by their address. \<open>km\<close>, \<open>km_pa\<close> and \<open>kf\<close> are
  \<open>kmalloc\<close>, \<open>kmalloc_pa\<close> and \<open>kfree\<close>. A panic, a shutdown and an access through NULL are \<open>None\<close>.
\<close>

section \<open>State\<close>

record task_t =
  fpu_state :: "nat \<Rightarrow> u8"
  t_esp :: u32
  t_eip :: u32
  t_page_dir :: u32
  syscall_regs :: u32
  t_pid :: u32
  t_ppid :: u32
  t_state :: u32
  exit_status :: u32
  children :: u32
  wait_queue :: u32
  uheap_begin :: u32
  uheap_end :: u32
  t_files :: "nat \<Rightarrow> fildes_t"
  errno_loc :: u32

record task_st = kmalloc_st +
  tasks :: "nat \<Rightarrow> u32"
  theap :: "u32 \<Rightarrow> task_t"
  cur_task :: u32
  sched_halted :: bool

abbreviation (input) TASK_STATE_READY :: u32 where "TASK_STATE_READY \<equiv> 1"
abbreviation (input) TASK_STATE_BLOCK_WAIT :: u32 where "TASK_STATE_BLOCK_WAIT \<equiv> 2"
abbreviation (input) TASK_STATE_EXITING :: u32 where "TASK_STATE_EXITING \<equiv> 3"

definition zero_task :: task_t where
  "zero_task = \<lparr>fpu_state = \<lambda>_. 0, t_esp = 0, t_eip = 0, t_page_dir = 0, syscall_regs = 0, t_pid = 0, t_ppid = 0,
     t_state = 0, exit_status = 0, children = 0, wait_queue = 0, uheap_begin = 0, uheap_end = 0,
     t_files = \<lambda>_. \<lparr>vfs_node = 0, at_off = 0, oflag = 0\<rparr>, errno_loc = 0\<rparr>"

definition set_task :: "u32 \<Rightarrow> (task_t \<Rightarrow> task_t) \<Rightarrow> 'z task_st_scheme \<Rightarrow> 'z task_st_scheme" where
  "set_task t f s = s\<lparr>theap := (theap s)(t := f (theap s t))\<rparr>"

section \<open>Operations\<close>

text \<open>The test is \<open>pid > countof(tasks)\<close>, so 256 reads behind the table.\<close>

definition get_task :: "u32 \<Rightarrow> 'z task_st_scheme \<Rightarrow> u32 option" where
  "get_task pid s = (if pid > 256 then Some 0 else if pid = 256 then None else Some (tasks s (unat pid)))"

text \<open>\<open>sizeof (struct task_t)\<close> is 948.\<close>

function alloc_empty_task_from ::
    "('z task_st_scheme \<Rightarrow> u32 \<Rightarrow> u32 \<times> 'z task_st_scheme)
     \<Rightarrow> nat \<Rightarrow> 'z task_st_scheme \<Rightarrow> (u32 \<times> 'z task_st_scheme) option" where
  "alloc_empty_task_from km pid s =
     (if pid < 256 then
        if tasks s pid \<noteq> 0 then alloc_empty_task_from km (pid + 1) s
        else
          let (t, s) = km s 948;
              s = s\<lparr>tasks := (tasks s)(pid := t)\<rparr> in
          if t = 0 then None
          else Some (t, set_task t (\<lambda>_. zero_task\<lparr>t_state := TASK_STATE_READY, t_pid := of_nat pid\<rparr>) s)
      else Some (0, s))"
  by pat_completeness auto
termination by (relation "measure (\<lambda>(km, pid, s). 256 - pid)") auto

declare alloc_empty_task_from.simps [simp del]

definition alloc_empty_task ::
    "('z task_st_scheme \<Rightarrow> u32 \<Rightarrow> u32 \<times> 'z task_st_scheme)
     \<Rightarrow> 'z task_st_scheme \<Rightarrow> (u32 \<times> 'z task_st_scheme) option" where
  "alloc_empty_task km s = alloc_empty_task_from km 1 s"

text \<open>\<open>task_init\<close>, but for the task state segment.\<close>

definition task_init ::
    "('z task_st_scheme \<Rightarrow> u32 \<Rightarrow> u32 \<times> 'z task_st_scheme)
     \<Rightarrow> 'z task_st_scheme \<Rightarrow> 'z task_st_scheme option" where
  "task_init km s = do {
     (t, s) \<leftarrow> alloc_empty_task km (s\<lparr>tasks := \<lambda>_. 0\<rparr>);
     if t = 0 then None
     else Some (set_task t (\<lambda>k. k\<lparr>t_page_dir := cur_page_dir s, t_ppid := 0\<rparr>) (s\<lparr>cur_task := t\<rparr>))
   }"

definition task_fork_inner ::
    "('z task_st_scheme \<Rightarrow> u32 \<Rightarrow> u32 \<times> 'z task_st_scheme)
     \<Rightarrow> ('z task_st_scheme \<Rightarrow> u32 \<Rightarrow> u32 \<times> 'z task_st_scheme)
     \<Rightarrow> 'z task_st_scheme \<Rightarrow> (u32 \<times> 'z task_st_scheme) option" where
  "task_fork_inner km km_pa s = do {
     (new, s) \<leftarrow> alloc_empty_task km s;
     if new = 0 then None
     else
       let (pd, s) = create_page_dir km_pa s;
           s = set_task new (\<lambda>t. t\<lparr>t_page_dir := pd\<rparr>) s in
       if pd = 0 then None
       else
         let cur = cur_task s;
             s = clone_page_dir km_pa pd (t_page_dir (theap s cur)) s;
             s = set_task new (\<lambda>t. t\<lparr>fpu_state := fpu_state (theap s cur), t_files := t_files (theap s cur),
                   t_ppid := t_pid (theap s cur), syscall_regs := syscall_regs (theap s cur),
                   errno_loc := errno_loc (theap s cur)\<rparr>) s;
             s = set_task cur (\<lambda>t. t\<lparr>children := children t + 1\<rparr>) s in
         Some (new, s)
   }"

text \<open>The loop of \<open>task_destroy\<close> over the user part of the address space.\<close>

function destroy_user ::
    "('z task_st_scheme \<Rightarrow> u32 \<Rightarrow> u32 \<times> 'z task_st_scheme)
     \<Rightarrow> u32 \<Rightarrow> u32 \<Rightarrow> 'z task_st_scheme \<Rightarrow> 'z task_st_scheme" where
  "destroy_user km_pa pd i s =
     (if i < USTACK_END \<and> \<not> i < KSTACK_BEGIN then
        destroy_user km_pa pd (i + PAGE_SIZE)
          (if page_flags i pd s AND PF_PRES = 0 then s
           else snd (page_map km_pa i 0 0 pd (frame_free (get_phys i pd s) s)))
      else s)"
  by pat_completeness auto
termination
proof (relation "measure (\<lambda>(km, pd, i, s). if i < KSTACK_BEGIN then 0 else 2 ^ 32 - unat i)", simp)
  fix i :: u32
  assume i: "i < USTACK_END \<and> \<not> i < KSTACK_BEGIN"
  show "((km, pd, i + PAGE_SIZE, s'), km, pd, i, s)
      \<in> measure (\<lambda>(km, pd, i, s). if i < KSTACK_BEGIN then 0 else 2 ^ 32 - unat i)" for km pd s' s
  proof (cases "unat i + 4096 < 2 ^ 32")
    case True
    then have "unat (i + PAGE_SIZE) = unat i + 4096" by (simp add: unat_word_ariths)
    then show ?thesis using i unat_u32_less [of i] True by auto
  next
    case False
    then have "unat (i + PAGE_SIZE) = unat i + 4096 - 2 ^ 32"
      using unat_u32_less [of i] by (simp add: unat_word_ariths mod_nat_eqI)
    then have "i + PAGE_SIZE < KSTACK_BEGIN" using unat_u32_less [of i] by (simp add: word_less_nat_alt)
    then show ?thesis using i unat_u32_less [of i] by auto
  qed
qed

declare destroy_user.simps [simp del]

definition task_destroy ::
    "('z task_st_scheme \<Rightarrow> u32 \<Rightarrow> u32 \<times> 'z task_st_scheme)
     \<Rightarrow> ('z task_st_scheme \<Rightarrow> u32 \<Rightarrow> 'z task_st_scheme)
     \<Rightarrow> u32 \<Rightarrow> 'z task_st_scheme \<Rightarrow> 'z task_st_scheme option" where
  "task_destroy km_pa kf t s =
     (let pd = t_page_dir (theap s t);
          s = destroy_user km_pa pd KSTACK_BEGIN s;
          s = clear_page_dir kf pd s;
          s = kf s pd;
          parent = tasks s (unat (t_ppid (theap s t))) in
      if t_ppid (theap s t) \<ge> 256 \<or> t_pid (theap s t) \<ge> 256 \<or> parent = 0 then None
      else
        let s = set_task parent (\<lambda>p. p\<lparr>children := children p - 1\<rparr>) s;
            s = s\<lparr>tasks := (tasks s)(unat (t_pid (theap s t)) := 0)\<rparr> in
        Some (kf s t))"

text \<open>The loops of \<open>task_kill\<close>.\<close>

partial_function (option) destroy_queue ::
    "('z task_st_scheme \<Rightarrow> u32 \<Rightarrow> u32 \<times> 'z task_st_scheme)
     \<Rightarrow> ('z task_st_scheme \<Rightarrow> u32 \<Rightarrow> 'z task_st_scheme)
     \<Rightarrow> u32 \<Rightarrow> 'z task_st_scheme \<Rightarrow> 'z task_st_scheme option" where
  "destroy_queue km_pa kf child s =
     (if child = 0 then Some s
      else
        let next_child = wait_queue (theap s child) in
        do { s \<leftarrow> task_destroy km_pa kf child s; destroy_queue km_pa kf next_child s })"

fun reparent :: "u32 \<Rightarrow> nat list \<Rightarrow> 'z task_st_scheme \<Rightarrow> 'z task_st_scheme" where
  "reparent pid [] s = s"
| "reparent pid (i # is) s =
     reparent pid is
       (if tasks s i \<noteq> 0 \<and> t_ppid (theap s (tasks s i)) = pid
        then set_task (tasks s i) (\<lambda>t. t\<lparr>t_ppid := 1\<rparr>) s else s)"

partial_function (option) queue_end :: "(u32 \<Rightarrow> task_t) \<Rightarrow> u32 \<Rightarrow> u32 option" where
  "queue_end th q = (if wait_queue (th q) \<noteq> 0 then queue_end th (wait_queue (th q)) else Some q)"

definition task_kill ::
    "('z task_st_scheme \<Rightarrow> u32 \<Rightarrow> u32 \<times> 'z task_st_scheme)
     \<Rightarrow> ('z task_st_scheme \<Rightarrow> u32 \<Rightarrow> 'z task_st_scheme)
     \<Rightarrow> u32 \<Rightarrow> u32 \<Rightarrow> 'z task_st_scheme \<Rightarrow> 'z task_st_scheme option" where
  "task_kill km_pa kf t st s =
     (if t = 0 then Some s
      else do {
        let s = set_task t (\<lambda>k. k\<lparr>exit_status := st\<rparr>) s;
        s \<leftarrow> destroy_queue km_pa kf (wait_queue (theap s t)) s;
        let s = reparent (t_pid (theap s t)) [2..<256] s;
        parent \<leftarrow> get_task (t_ppid (theap s t)) s;
        if parent = 0 then None
        else do {
          queue \<leftarrow> queue_end (theap s) parent;
          let s = set_task queue (\<lambda>k. k\<lparr>wait_queue := t\<rparr>) s;
          let s = set_task t (\<lambda>k. k\<lparr>wait_queue := 0\<rparr>) s;
          let s = (if t_state (theap s parent) = TASK_STATE_BLOCK_WAIT
                   then set_task parent (\<lambda>k. k\<lparr>t_state := TASK_STATE_READY\<rparr>) s else s);
          Some (set_task t (\<lambda>k. k\<lparr>t_state := TASK_STATE_EXITING\<rparr>) s)
        }
      })"

text \<open>\<open>sched_next\<close>: the first ready task behind the current one, else from the start up to it.\<close>

fun first_ready :: "nat list \<Rightarrow> 'z task_st_scheme \<Rightarrow> u32 option" where
  "first_ready [] s = None"
| "first_ready (i # is) s =
     (if tasks s i \<noteq> 0 \<and> t_state (theap s (tasks s i)) = TASK_STATE_READY then Some (tasks s i)
      else first_ready is s)"

definition sched_next :: "'z task_st_scheme \<Rightarrow> u32 option" where
  "sched_next s =
     (let cur_pid = unat (t_pid (theap s (cur_task s))) in
      case first_ready [cur_pid + 1..<256] s of
        Some t \<Rightarrow> Some t
      | None \<Rightarrow> first_ready [1..<cur_pid + 1] s)"

definition sched_halt :: "'z task_st_scheme \<Rightarrow> 'z task_st_scheme" where
  "sched_halt s = s\<lparr>sched_halted := True\<rparr>"

definition sched_cont :: "'z task_st_scheme \<Rightarrow> 'z task_st_scheme" where
  "sched_cont s = s\<lparr>sched_halted := False\<rparr>"

section \<open>System calls on tasks\<close>

text \<open>
  \<open>sys_exit\<close> up to its call of \<open>sched_switch\<close>, from which the task does not come back; the first
  task shuts the machine down instead.
\<close>

definition sys_exit ::
    "('z task_st_scheme \<Rightarrow> u32 \<Rightarrow> u32 \<times> 'z task_st_scheme)
     \<Rightarrow> ('z task_st_scheme \<Rightarrow> u32 \<Rightarrow> 'z task_st_scheme)
     \<Rightarrow> u32 \<Rightarrow> 'z task_st_scheme \<Rightarrow> 'z task_st_scheme option" where
  "sys_exit km_pa kf st s =
     (if t_pid (theap s (cur_task s)) = 1 then None else task_kill km_pa kf (cur_task s) st s)"

text \<open>\<open>sys_wait\<close>; the result is the value returned and what is stored through \<open>stat_loc\<close>.\<close>

partial_function (option) wait_loop ::
    "('z task_st_scheme \<Rightarrow> 'z task_st_scheme)
     \<Rightarrow> ('z task_st_scheme \<Rightarrow> u32 \<Rightarrow> u32 \<times> 'z task_st_scheme)
     \<Rightarrow> ('z task_st_scheme \<Rightarrow> u32 \<Rightarrow> 'z task_st_scheme)
     \<Rightarrow> 'z task_st_scheme \<Rightarrow> (u32 \<times> u32 \<times> 'z task_st_scheme) option" where
  "wait_loop sched km_pa kf s =
     (let child = wait_queue (theap s (cur_task s)) in
      if child \<noteq> 0 then
        let s = set_task (cur_task s) (\<lambda>t. t\<lparr>wait_queue := wait_queue (theap s child)\<rparr>) s;
            child_pid = t_pid (theap s child);
            child_status = exit_status (theap s child) in
        do { s \<leftarrow> task_destroy km_pa kf child s; Some (child_pid, child_status, s) }
      else
        wait_loop sched km_pa kf
          (sched (set_task (cur_task s) (\<lambda>t. t\<lparr>t_state := TASK_STATE_BLOCK_WAIT\<rparr>) s)))"

definition sys_wait ::
    "('z task_st_scheme \<Rightarrow> 'z task_st_scheme)
     \<Rightarrow> ('z task_st_scheme \<Rightarrow> u32 \<Rightarrow> u32 \<times> 'z task_st_scheme)
     \<Rightarrow> ('z task_st_scheme \<Rightarrow> u32 \<Rightarrow> 'z task_st_scheme)
     \<Rightarrow> u32 \<Rightarrow> 'z task_st_scheme \<Rightarrow> (u32 \<times> u32 option \<times> 'z task_st_scheme) option" where
  "sys_wait sched km_pa kf stat_loc s =
     (if children (theap s (cur_task s)) = 0 then Some (- 1, None, s\<lparr>kerrno := Some ECHILD\<rparr>)
      else do {
        (pid, st, s) \<leftarrow> wait_loop sched km_pa kf s;
        Some (pid, if stat_loc \<noteq> 0 then Some st else None, s)
      })"

declare upt_rec_numeral [simp del]

section \<open>The scheduler\<close>

definition ready :: "'z task_st_scheme \<Rightarrow> nat \<Rightarrow> bool" where
  "ready s i \<longleftrightarrow> tasks s i \<noteq> 0 \<and> t_state (theap s (tasks s i)) = TASK_STATE_READY"

text \<open>The process numbers in the order \<open>sched_next\<close> looks at them.\<close>

definition round :: "nat \<Rightarrow> nat list" where
  "round c = [c + 1..<256] @ [1..<c + 1]"

definition cur_pid :: "'z task_st_scheme \<Rightarrow> nat" where
  "cur_pid s = unat (t_pid (theap s (cur_task s)))"

lemma first_ready_find: "first_ready is s = map_option (tasks s) (List.find (ready s) is)"
  by (induction "is") (auto simp: ready_def)

lemma find_append: "List.find P (xs @ ys) = (case List.find P xs of None \<Rightarrow> List.find P ys | Some x \<Rightarrow> Some x)"
  by (induction xs) auto

lemma sched_next_find: "sched_next s = map_option (tasks s) (List.find (ready s) (round (cur_pid s)))"
  unfolding sched_next_def Let_def first_ready_find round_def cur_pid_def find_append
  by (simp split: option.splits)

lemma nth_round: "c < 256 \<Longrightarrow> k < 255 \<Longrightarrow> round c ! k = (if k < 255 - c then c + 1 + k else k + c - 254)"
  by (auto simp: round_def nth_append)

lemma length_round: "c < 256 \<Longrightarrow> length (round c) = 255"
  by (auto simp: round_def)

text \<open>How far behind \<open>c\<close> the number \<open>p\<close> comes in the round.\<close>

definition dist :: "nat \<Rightarrow> nat \<Rightarrow> nat" where
  "dist c p = (if c < p then p - c else p + 255 - c)"

lemma nth_round_dist:
  assumes "1 \<le> c" "c < 256" "1 \<le> p" "p < 256"
  shows "dist c p - 1 < 255" "round c ! (dist c p - 1) = p"
  using assms by (auto simp: dist_def nth_round)

lemma dist_nth_round: "1 \<le> c \<Longrightarrow> c < 256 \<Longrightarrow> k < 255 \<Longrightarrow> dist c (round c ! k) = k + 1"
  by (auto simp: nth_round dist_def)

lemma dist_step:
  assumes "1 \<le> c" "c < 256" "1 \<le> p" "p < 256" "1 \<le> d" "d < 256" "d \<noteq> p" "dist c d \<le> dist c p"
  shows "dist d p < dist c p"
  using assms by (auto simp: dist_def split: if_splits)

text \<open>Every task of the table carries its own number, and the current one is in the table.\<close>

definition tasks_ok :: "'z task_st_scheme \<Rightarrow> bool" where
  "tasks_ok s \<longleftrightarrow> (\<forall>i \<in> {1..<256}. tasks s i \<noteq> 0 \<longrightarrow> t_pid (theap s (tasks s i)) = of_nat i)
     \<and> cur_pid s \<in> {1..<256} \<and> cur_task s = tasks s (cur_pid s)"

text \<open>What \<open>sched_switch\<close> does to the choice of the current task.\<close>

definition switch :: "'z task_st_scheme \<Rightarrow> 'z task_st_scheme" where
  "switch s = (case sched_next s of Some t \<Rightarrow> s\<lparr>cur_task := t\<rparr> | None \<Rightarrow> s)"

lemma switch_step:
  assumes ok: "tasks_ok s" and p: "p \<in> {1..<256}" "ready s p"
  shows "tasks_ok (switch s) \<and> tasks (switch s) = tasks s \<and> theap (switch s) = theap s
     \<and> (cur_pid (switch s) = p \<or> dist (cur_pid (switch s)) p < dist (cur_pid s) p)"
proof -
  define c where "c = cur_pid s"
  have c: "1 \<le> c" "c < 256" using ok by (auto simp: tasks_ok_def c_def)
  have pin: "dist c p - 1 < 255" "round c ! (dist c p - 1) = p" using nth_round_dist c p(1) by auto
  then have "p \<in> set (round c)" using length_round [OF c(2)] by (metis nth_mem)
  then obtain d where d: "List.find (ready s) (round c) = Some d"
    using p(2) by (cases "List.find (ready s) (round c)") (auto simp: find_None_iff)
  then obtain k where k: "k < 255" "ready s d" "d = round c ! k" "\<forall>j<k. \<not> ready s (round c ! j)"
    using length_round [OF c(2)] by (auto simp: find_Some_iff)
  have dr: "d \<in> {1..<256}" using k(1,3) c by (auto simp: nth_round)
  have "k \<le> dist c p - 1" using k(4) pin p(2) by (metis not_le)
  then have le: "dist c d \<le> dist c p"
    using dist_nth_round [OF c k(1)] k(3) p(1) c by (auto simp: dist_def split: if_splits)
  have sw: "switch s = s\<lparr>cur_task := tasks s d\<rparr>"
    using d by (simp add: switch_def sched_next_find c_def)
  have "t_pid (theap s (tasks s d)) = of_nat d" using ok dr k(2) by (auto simp: tasks_ok_def ready_def)
  then have cd: "cur_pid (switch s) = d" using dr by (simp add: sw cur_pid_def unat_of_nat_u32)
  then show ?thesis
    using ok dr dist_step [of c p d] c p(1) le sw by (auto simp: tasks_ok_def c_def)
qed

lemma switch_reaches:
  "tasks_ok s \<Longrightarrow> p \<in> {1..<256} \<Longrightarrow> ready s p \<Longrightarrow> dist (cur_pid s) p \<le> m \<Longrightarrow>
   \<exists>n. n \<le> m \<and> cur_pid ((switch ^^ n) s) = p"
proof (induction m arbitrary: s)
  case 0
  then have "dist (cur_pid s) p \<ge> 1" by (auto simp: tasks_ok_def dist_def split: if_splits)
  then show ?case using 0 by simp
next
  case (Suc m)
  note st = switch_step [OF Suc.prems(1-3)]
  show ?case
  proof (cases "cur_pid (switch s) = p")
    case True
    then show ?thesis by (intro exI [of _ 1]) simp
  next
    case False
    then have "dist (cur_pid (switch s)) p \<le> m" "ready (switch s) p" using st Suc.prems(3,4) by (auto simp: ready_def)
    then obtain n where "n \<le> m" "cur_pid ((switch ^^ n) (switch s)) = p"
      using Suc.IH [of "switch s"] st Suc.prems(2) by blast
    then show ?thesis by (intro exI [of _ "Suc n"]) (simp add: funpow_swap1)
  qed
qed

section \<open>What the memory routines leave alone\<close>

lemma rest_eqD:
  fixes s s' :: "'z task_st_scheme"
  assumes "rest s' = rest s"
  shows "tasks s' = tasks s" "theap s' = theap s" "cur_task s' = cur_task s" "sched_halted s' = sched_halted s"
  using assms by (cases s; cases s'; simp)+

lemma rest_destroy_user:
  assumes "\<And>s n. rest (snd (km s n)) = rest s"
  shows "rest (destroy_user km pd i s) = rest s"
  using assms
proof (induction km pd i s rule: destroy_user.induct)
  case (1 km pd i s)
  then show ?case by (subst destroy_user.simps) (simp add: rest_page_map)
qed

lemma rest_clone_user:
  assumes "\<And>s n. rest (snd (km s n)) = rest s"
  shows "rest (clone_user km new old i s) = rest s"
  using assms
proof (induction km new old i s rule: clone_user.induct)
  case (1 km new old i s)
  have "rest (clone_page km new old i s) = rest s"
  proof -
    let ?fl = "PF_PRES OR PF_RW :: u32"
    obtain fr s1 where s1: "frame_alloc s = (fr, s1)" by force
    obtain r2 s2 where s2: "page_map km 0 fr ?fl (cur_page_dir s1) s1 = (r2, s2)" by force
    define s3 where "s3 = vmemcpy 0 i 4096 s2"
    obtain r4 s4 where s4: "page_map km 0 0 0 (cur_page_dir s3) s3 = (r4, s4)" by force
    obtain r5 s5 where s5: "page_map km i fr (page_flags i old s) new s4 = (r5, s5)" by force
    have "rest s1 = rest s" using rest_frame_alloc [of s] by (simp add: s1)
    moreover have "rest s2 = rest s1" using rest_page_map [of km 0 fr ?fl "cur_page_dir s1" s1] 1(2) unfolding s2 by simp
    moreover have "rest s3 = rest s2" unfolding s3_def by (rule rest_vmemcpy)
    moreover have "rest s4 = rest s3" using rest_page_map [of km 0 0 0 "cur_page_dir s3" s3] 1(2) by (simp add: s4)
    moreover have "rest s5 = rest s4" using rest_page_map [of km i fr "page_flags i old s" new s4] 1(2) by (simp add: s5)
    moreover have "clone_page km new old i s = (if page_flags i old s AND PF_PRES = 0 then s else s5)"
      unfolding clone_page_def Let_def s1 prod.case s2 s3_def [symmetric] s4 s5 by (rule refl)
    ultimately show ?thesis by simp
  qed
  then show ?case using 1 by (subst clone_user.simps) simp
qed

locale task_memory =
  fixes km km_pa :: "'z task_st_scheme \<Rightarrow> u32 \<Rightarrow> u32 \<times> 'z task_st_scheme"
    and kf :: "'z task_st_scheme \<Rightarrow> u32 \<Rightarrow> 'z task_st_scheme"
  assumes km_rest: "rest (snd (km s n)) = rest s" and km_pa_rest: "rest (snd (km_pa s n)) = rest s"
    and kf_rest: "rest (kf s p) = rest s"
begin

lemma page_map_rest: "rest (snd (page_map km_pa a f fl pd s)) = rest s"
  using km_pa_rest by (intro rest_page_map) simp

lemma destroy_user_rest: "rest (destroy_user km_pa pd i s) = rest s"
  using km_pa_rest by (intro rest_destroy_user) simp

lemma clear_page_dir_rest: "rest (clear_page_dir kf pd s) = rest s"
proof -
  have "rest (clear_tables kf pd is s) = rest s" for "is"
    by (induction "is" arbitrary: s) (simp_all add: kf_rest)
  then show ?thesis unfolding clear_page_dir_def .
qed

lemma create_page_dir_rest: "rest (snd (create_page_dir km_pa s)) = rest s"
  by (simp add: create_page_dir_def Let_def case_prod_unfold km_pa_rest)

lemma clone_page_dir_rest: "rest (clone_page_dir km_pa new old s) = rest s"
proof -
  have "rest (link_kernel_tables new old n s) = rest s" for n
    by (induction n) (simp_all add: Let_def)
  moreover have "rest (clone_user km_pa new old i s) = rest s" for i s
    using km_pa_rest by (intro rest_clone_user) simp
  ultimately show ?thesis unfolding clone_page_dir_def by metis
qed

lemma task_destroy_eq:
  assumes "t_ppid (theap s t) = of_nat pp" "pp < 256" "tasks s pp = parent" "parent \<noteq> 0"
    "t_pid (theap s t) = of_nat p" "p < 256"
  shows "\<exists>s'. task_destroy km_pa kf t s = Some s' \<and> tasks s' = (tasks s)(p := 0) \<and> cur_task s' = cur_task s
     \<and> theap s' = (theap s)(parent := (theap s parent)\<lparr>children := children (theap s parent) - 1\<rparr>)"
proof -
  let ?pd = "t_page_dir (theap s t)"
  define s1 where "s1 = kf (clear_page_dir kf ?pd (destroy_user km_pa ?pd KSTACK_BEGIN s)) ?pd"
  have "rest s1 = rest s" unfolding s1_def by (simp only: kf_rest clear_page_dir_rest destroy_user_rest)
  note s1 = rest_eqD [OF this]
  have u: "unat (of_nat pp :: u32) = pp" "unat (of_nat p :: u32) = p" using assms(2,6) by (simp_all add: unat_of_nat_u32)
  then have lt: "\<not> (of_nat pp :: u32) \<ge> 256" "\<not> (of_nat p :: u32) \<ge> 256"
    using assms(2,6) by (simp_all add: word_le_nat_alt)
  define s2 where "s2 = set_task parent (\<lambda>p. p\<lparr>children := children p - 1\<rparr>) s1"
  have pid2: "t_pid (theap s2 t) = of_nat p" using assms(5) by (auto simp: s2_def set_task_def s1)
  define s3 where "s3 = s2\<lparr>tasks := (tasks s2)(p := 0)\<rparr>"
  have "task_destroy km_pa kf t s = Some (kf s3 t)"
    using assms(1,3,4,5) lt u pid2 unfolding task_destroy_def Let_def s1_def [symmetric]
    by (simp add: s1 s2_def [symmetric] s3_def)
  moreover have "tasks (kf s3 t) = tasks s3" "theap (kf s3 t) = theap s3" "cur_task (kf s3 t) = cur_task s3"
    using rest_eqD [OF kf_rest [of s3 t]] by simp_all
  ultimately show ?thesis by (simp add: s3_def s2_def set_task_def s1)
qed

end

section \<open>Death and waiting\<close>

lemma reparent_other: "tasks (reparent pid is s) = tasks s" "cur_task (reparent pid is s) = cur_task s"
  by (induction "is" arbitrary: s) (simp_all add: set_task_def)

lemma theap_reparent:
  "theap (reparent pid is s) x = (if x \<noteq> 0 \<and> x \<in> tasks s ` set is \<and> t_ppid (theap s x) = pid
     then (theap s x)\<lparr>t_ppid := 1\<rparr> else theap s x)"
proof (induction "is" arbitrary: s)
  case (Cons i "is")
  define s1 where "s1 = (if tasks s i \<noteq> 0 \<and> t_ppid (theap s (tasks s i)) = pid
      then set_task (tasks s i) (\<lambda>t. t\<lparr>t_ppid := 1\<rparr>) s else s)"
  have "tasks s1 = tasks s" by (simp add: s1_def set_task_def)
  moreover have "theap s1 x = (if x \<noteq> 0 \<and> x = tasks s i \<and> t_ppid (theap s x) = pid
      then (theap s x)\<lparr>t_ppid := 1\<rparr> else theap s x)"
    by (auto simp: s1_def set_task_def)
  ultimately show ?case using Cons.IH [of s1] by (auto simp: s1_def [symmetric])
qed simp

text \<open>The dead children that wait in the queue of a task.\<close>

fun wchain :: "(u32 \<Rightarrow> task_t) \<Rightarrow> u32 \<Rightarrow> u32 list \<Rightarrow> bool" where
  "wchain th p [] \<longleftrightarrow> wait_queue (th p) = 0"
| "wchain th p (q # qs) \<longleftrightarrow> wait_queue (th p) = q \<and> q \<noteq> 0 \<and> wchain th q qs"

lemma queue_end_wchain: "wchain th p qs \<Longrightarrow> queue_end th p = Some (last (p # qs))"
proof (induction qs arbitrary: p)
  case Nil
  then show ?case by (subst queue_end.simps) simp
next
  case (Cons q qs)
  then show ?case by (subst queue_end.simps) auto
qed

lemma wchain_cong:
  "wchain th p qs \<Longrightarrow> \<forall>x \<in> set (p # qs). wait_queue (th' x) = wait_queue (th x) \<Longrightarrow> wchain th' p qs"
  by (induction qs arbitrary: p) auto

lemma wchain_snoc:
  assumes "wchain th p qs" "distinct (p # qs)" "t \<noteq> 0" "wait_queue (th' t) = 0"
    "\<forall>x \<in> set (p # qs). wait_queue (th' x) = (if x = last (p # qs) then t else wait_queue (th x))"
  shows "wchain th' p (qs @ [t])"
  using assms
proof (induction qs arbitrary: p)
  case (Cons q qs)
  have "p \<noteq> last (q # qs)" using Cons.prems(2) last_in_set [of "q # qs"] by auto
  then show ?case using Cons by auto
qed simp

text \<open>A task that dies without dead children of its own.\<close>

lemma task_kill_eq:
  assumes t: "t \<noteq> 0" "wait_queue (theap s t) = 0" "t_ppid (theap s t) \<noteq> t_pid (theap s t)"
    and p: "t_ppid (theap s t) = of_nat pp" "pp < 256" "tasks s pp = parent" "parent \<noteq> 0" "parent \<noteq> t"
    and q: "wchain (theap s) parent qs" "distinct (parent # qs)" "t \<notin> set qs"
  shows "\<exists>s'. task_kill km_pa kf t st s = Some s' \<and> tasks s' = tasks s \<and> cur_task s' = cur_task s
     \<and> wchain (theap s') parent (qs @ [t]) \<and> exit_status (theap s' t) = st \<and> t_state (theap s' t) = TASK_STATE_EXITING
     \<and> t_state (theap s' parent)
         = (if t_state (theap s parent) = TASK_STATE_BLOCK_WAIT then TASK_STATE_READY else t_state (theap s parent))
     \<and> (\<forall>x. t_pid (theap s' x) = t_pid (theap s x) \<and> children (theap s' x) = children (theap s x)
          \<and> t_ppid (theap s' x) = (if x \<noteq> 0 \<and> x \<in> tasks s ` {2..<256} \<and> t_ppid (theap s x) = t_pid (theap s t)
              then 1 else t_ppid (theap s x)) \<and> (x \<noteq> t \<longrightarrow> exit_status (theap s' x) = exit_status (theap s x)))"
proof -
  define s1 where "s1 = set_task t (\<lambda>k. k\<lparr>exit_status := st\<rparr>) s"
  have dq: "destroy_queue km_pa kf (wait_queue (theap s1 t)) s1 = Some s1"
    using t(2) by (subst destroy_queue.simps) (simp add: s1_def set_task_def)
  define s2 where "s2 = reparent (t_pid (theap s1 t)) [2..<256] s1"
  have tk: "tasks s2 = tasks s" "cur_task s2 = cur_task s" by (simp_all add: s2_def reparent_other s1_def set_task_def)
  have th: "theap s2 x = (let y = theap s1 x in
      if x \<noteq> 0 \<and> x \<in> tasks s ` {2..<256} \<and> t_ppid (theap s x) = t_pid (theap s t) then y\<lparr>t_ppid := 1\<rparr> else y)" for x
    unfolding s2_def theap_reparent set_upt by (auto simp: s1_def set_task_def Let_def)
  have th1: "theap s1 x = (if x = t then (theap s t)\<lparr>exit_status := st\<rparr> else theap s x)" for x
    by (simp add: s1_def set_task_def)
  have gt: "get_task (t_ppid (theap s2 t)) s2 = Some parent"
    using t(3) p of_nat_u32_neq [of pp 256]
    by (simp add: th th1 get_task_def tk unat_of_nat_u32 word_less_nat_alt word_le_nat_alt)
  have wq: "wait_queue (theap s2 x) = wait_queue (theap s x)" for x by (simp add: th th1 Let_def)
  define l where "l = last (parent # qs)"
  have ql: "queue_end (theap s2) parent = Some l"
    unfolding l_def using q(1) wq by (intro queue_end_wchain wchain_cong [OF q(1)]) simp
  have lt: "l \<noteq> t" using q(3) p(5) last_in_set [of "parent # qs"] by (auto simp: l_def split: if_splits)
  define s3 where "s3 = set_task t (\<lambda>k. k\<lparr>wait_queue := 0\<rparr>) (set_task l (\<lambda>k. k\<lparr>wait_queue := t\<rparr>) s2)"
  define s4 where "s4 = (if t_state (theap s3 parent) = TASK_STATE_BLOCK_WAIT
      then set_task parent (\<lambda>k. k\<lparr>t_state := TASK_STATE_READY\<rparr>) s3 else s3)"
  define s5 where "s5 = set_task t (\<lambda>k. k\<lparr>t_state := TASK_STATE_EXITING\<rparr>) s4"
  have run: "task_kill km_pa kf t st s = Some s5"
    using t(1) dq gt p(4) ql unfolding task_kill_def
    by (simp add: s1_def [symmetric] s2_def [symmetric] s3_def [symmetric] s4_def s5_def Let_def)
  have tk5: "tasks s5 = tasks s" "cur_task s5 = cur_task s"
    by (simp_all add: s5_def s4_def s3_def set_task_def tk)
  have th3: "theap s3 x = (if x = t then (theap s2 t)\<lparr>wait_queue := 0\<rparr>
      else if x = l then (theap s2 l)\<lparr>wait_queue := t\<rparr> else theap s2 x)" for x
    using lt by (simp add: s3_def set_task_def)
  have st3: "t_state (theap s3 parent) = t_state (theap s parent)"
    using p(5) by (simp add: th3 th th1 Let_def)
  have th4: "theap s4 x = (if x = parent \<and> t_state (theap s parent) = TASK_STATE_BLOCK_WAIT
      then (theap s3 parent)\<lparr>t_state := TASK_STATE_READY\<rparr> else theap s3 x)" for x
    unfolding s4_def st3 by (simp add: set_task_def)
  have th5: "theap s5 x = (if x = t then (theap s4 t)\<lparr>t_state := TASK_STATE_EXITING\<rparr> else theap s4 x)" for x
    by (simp add: s5_def set_task_def)
  have wq5: "wait_queue (theap s5 x) = (if x = t then 0 else if x = l then t else wait_queue (theap s x))" for x
    by (simp add: th5 th4 th3 wq)
  have "wchain (theap s5) parent (qs @ [t])"
    using p(5) q(3) by (intro wchain_snoc [OF q(1,2) t(1)]) (auto simp: wq5 l_def)
  moreover have "t_pid (theap s5 x) = t_pid (theap s x)" "children (theap s5 x) = children (theap s x)" for x
    by (simp_all add: th5 th4 th3 th th1 Let_def)
  moreover have "t_ppid (theap s5 x) = (if x \<noteq> 0 \<and> x \<in> tasks s ` {2..<256} \<and> t_ppid (theap s x) = t_pid (theap s t)
          then 1 else t_ppid (theap s x))" for x
  proof -
    have "t_ppid (theap s5 x) = t_ppid (theap s2 x)" by (simp add: th5 th4 th3)
    then show ?thesis by (simp add: th th1 Let_def)
  qed
  moreover have "x \<noteq> t \<longrightarrow> exit_status (theap s5 x) = exit_status (theap s x)" for x
    by (simp add: th5 th4 th3 th th1 Let_def)
  moreover have "exit_status (theap s5 t) = st" "t_state (theap s5 t) = TASK_STATE_EXITING"
    using p(5) by (simp_all add: th5 th4 th3 th th1 Let_def)
  moreover have "t_state (theap s5 parent)
         = (if t_state (theap s parent) = TASK_STATE_BLOCK_WAIT then TASK_STATE_READY else t_state (theap s parent))"
    using p(5) st3 by (simp add: th5 th4)
  ultimately show ?thesis using run tk5 by blast
qed

text \<open>A dead child of the task in slot \<open>pp\<close>, in a slot of its own; and \<open>n\<close> calls of \<open>sys_wait\<close> in turn.\<close>

definition dead_child :: "'z task_st_scheme \<Rightarrow> nat \<Rightarrow> u32 \<Rightarrow> bool" where
  "dead_child s pp c \<longleftrightarrow> t_ppid (theap s c) = of_nat pp \<and> unat (t_pid (theap s c)) < 256 \<and> unat (t_pid (theap s c)) \<noteq> pp"

fun waits ::
    "('z task_st_scheme \<Rightarrow> 'z task_st_scheme)
     \<Rightarrow> ('z task_st_scheme \<Rightarrow> u32 \<Rightarrow> u32 \<times> 'z task_st_scheme)
     \<Rightarrow> ('z task_st_scheme \<Rightarrow> u32 \<Rightarrow> 'z task_st_scheme)
     \<Rightarrow> u32 \<Rightarrow> nat \<Rightarrow> 'z task_st_scheme \<Rightarrow> ((u32 \<times> u32 option) list \<times> 'z task_st_scheme) option" where
  "waits sched km_pa kf loc 0 s = Some ([], s)"
| "waits sched km_pa kf loc (Suc n) s = do {
     (pid, st, s) \<leftarrow> sys_wait sched km_pa kf loc s;
     (rs, s) \<leftarrow> waits sched km_pa kf loc n s;
     Some ((pid, st) # rs, s)
   }"

context task_memory
begin

text \<open>A task that waits and has a dead child gets it at once.\<close>

lemma sys_wait_reaps:
  assumes "cur_task s = p" "children (theap s p) \<noteq> 0" "wchain (theap s) p (c # qs)" "c \<noteq> p"
    "t_ppid (theap s c) = of_nat pp" "pp < 256" "tasks s pp = p" "p \<noteq> 0" "t_pid (theap s c) = of_nat cp" "cp < 256"
  shows "\<exists>s'. sys_wait sched km_pa kf loc s
       = Some (of_nat cp, if loc \<noteq> 0 then Some (exit_status (theap s c)) else None, s')
     \<and> tasks s' = (tasks s)(cp := 0) \<and> cur_task s' = p
     \<and> theap s' = (theap s)(p := (theap s p)\<lparr>wait_queue := wait_queue (theap s c), children := children (theap s p) - 1\<rparr>)"
proof -
  define s1 where "s1 = set_task p (\<lambda>t. t\<lparr>wait_queue := wait_queue (theap s c)\<rparr>) s"
  have s1: "theap s1 c = theap s c" "tasks s1 = tasks s" using assms(4) by (simp_all add: s1_def set_task_def)
  obtain s2 where s2: "task_destroy km_pa kf c s1 = Some s2" "tasks s2 = (tasks s1)(cp := 0)"
      "theap s2 = (theap s1)(p := (theap s1 p)\<lparr>children := children (theap s1 p) - 1\<rparr>)" "cur_task s2 = cur_task s1"
    using task_destroy_eq [of s1 c pp p cp] assms(5-10) s1 by auto
  have "wait_loop sched km_pa kf s = Some (of_nat cp, exit_status (theap s c), s2)"
    using assms(1,3,9) s2(1) s1 by (subst wait_loop.simps) (simp add: s1_def [symmetric] Let_def)
  then show ?thesis
    using assms(1,2) s2(2-4) by (simp add: sys_wait_def s1_def set_task_def)
qed

text \<open>As many waits as there are dead children give all of them, in the order of the queue.\<close>

lemma waits_reap:
  assumes "cur_task s = p" "p \<noteq> 0" "tasks s pp = p" "pp < 256" "wchain (theap s) p cs" "p \<notin> set cs"
    "length cs \<le> unat (children (theap s p))" "\<forall>c \<in> set cs. dead_child s pp c"
  shows "\<exists>s'. waits sched km_pa kf loc (length cs) s
       = Some (map (\<lambda>c. (t_pid (theap s c), if loc \<noteq> 0 then Some (exit_status (theap s c)) else None)) cs, s')
     \<and> wait_queue (theap s' p) = 0 \<and> tasks s' = (\<lambda>i. if i \<in> (\<lambda>c. unat (t_pid (theap s c))) ` set cs then 0 else tasks s i)
     \<and> children (theap s' p) = children (theap s p) - of_nat (length cs)"
  using assms
proof (induction cs arbitrary: s)
  case (Cons c cs)
  define cp where "cp = unat (t_pid (theap s c))"
  have c: "t_pid (theap s c) = of_nat cp" "cp < 256" "cp \<noteq> pp" "t_ppid (theap s c) = of_nat pp" "c \<noteq> p"
    using Cons.prems(6,8) by (auto simp: cp_def dead_child_def)
  have ch: "children (theap s p) \<noteq> 0" using Cons.prems(7) by auto
  obtain s1 where s1: "sys_wait sched km_pa kf loc s
      = Some (of_nat cp, if loc \<noteq> 0 then Some (exit_status (theap s c)) else None, s1)"
      "tasks s1 = (tasks s)(cp := 0)" "cur_task s1 = p"
      "theap s1 = (theap s)(p := (theap s p)\<lparr>wait_queue := wait_queue (theap s c), children := children (theap s p) - 1\<rparr>)"
    using sys_wait_reaps [OF Cons.prems(1) ch Cons.prems(5) c(5,4) Cons.prems(4,3,2) c(1,2)] by blast
  have other: "theap s1 x = theap s x" if "x \<in> set cs" for x using that Cons.prems(6) s1(4) by auto
  have "wchain (theap s1) p cs"
  proof (cases cs)
    case (Cons q qs)
    then have "wchain (theap s) q qs" "wait_queue (theap s c) = q" "q \<noteq> 0" using Cons.prems(5) by auto
    moreover from this(1) have "wchain (theap s1) q qs" by (rule wchain_cong) (use other Cons in simp)
    ultimately show ?thesis using Cons s1(4) by simp
  qed (use Cons.prems(5) s1(4) in simp)
  moreover have "length cs \<le> unat (children (theap s1 p))"
    using Cons.prems(7) ch s1(4) unat_minus_one [OF ch] by simp
  moreover have "\<forall>c \<in> set cs. dead_child s1 pp c" using Cons.prems(8) other by (simp add: dead_child_def)
  ultimately obtain s' where s': "waits sched km_pa kf loc (length cs) s1
       = Some (map (\<lambda>c. (t_pid (theap s1 c), if loc \<noteq> 0 then Some (exit_status (theap s1 c)) else None)) cs, s')"
     "wait_queue (theap s' p) = 0" "tasks s' = (\<lambda>i. if i \<in> (\<lambda>c. unat (t_pid (theap s1 c))) ` set cs then 0 else tasks s1 i)"
     "children (theap s' p) = children (theap s1 p) - of_nat (length cs)"
    using Cons.IH [of s1] s1(2,3) Cons.prems(2-4,6) c(3) by auto
  have img: "(\<lambda>c. unat (t_pid (theap s1 c))) ` set cs = (\<lambda>c. unat (t_pid (theap s c))) ` set cs" using other by simp
  have out: "map (\<lambda>c. (t_pid (theap s1 c), if loc \<noteq> 0 then Some (exit_status (theap s1 c)) else None)) cs
      = map (\<lambda>c. (t_pid (theap s c), if loc \<noteq> 0 then Some (exit_status (theap s c)) else None)) cs" using other by simp
  have "tasks s' = (\<lambda>i. if i \<in> (\<lambda>c. unat (t_pid (theap s c))) ` set (c # cs) then 0 else tasks s i)"
    unfolding s'(3) img s1(2) by (auto simp: cp_def)
  moreover have "children (theap s' p) = children (theap s p) - of_nat (length (c # cs))" using s'(4) s1(4) by simp
  moreover have "waits sched km_pa kf loc (length (c # cs)) s
      = Some (map (\<lambda>c. (t_pid (theap s c), if loc \<noteq> 0 then Some (exit_status (theap s c)) else None)) (c # cs), s')"
    using s1(1) s'(1) c(1) unfolding out by simp
  ultimately show ?case using s'(2) by blast
qed simp

end

interpretation kernel_mem: task_memory "kernel_alloc (Suc d) 16" "kernel_alloc (Suc d) 4096" "kernel_free d"
  by unfold_locales simp_all

section \<open>Properties\<close>

text \<open>
  C16. The scheduler is fair: as long as the table and the states of the tasks do not change, a
  task that is ready becomes the current one after at most 255 switches, whichever task runs now.
\<close>

theorem sched_next_fair:
  assumes "tasks_ok s" "p \<in> {1..<256}" "ready s p"
  shows "\<exists>n \<le> 255. cur_pid ((switch ^^ n) s) = p"
proof -
  have "dist (cur_pid s) p \<le> 255" using assms(1,2) by (auto simp: tasks_ok_def dist_def)
  then show ?thesis using switch_reaches [OF assms] by blast
qed

definition sample_tasks :: task_st where
  "sample_tasks = kmalloc_st.extend sample_heap (task_st.fields
     ((\<lambda>_. 0)(1 := 0x100, 2 := 0x200, 3 := 0x300))
     (\<lambda>t. zero_task\<lparr>t_pid := t div 0x100, t_ppid := (if t = 0x100 then 0 else 1), t_state := TASK_STATE_READY,
        children := (if t = 0x100 then 2 else 0)\<rparr>)
     0x200 False)"

lemma tasks_ok_sample: "tasks_ok sample_tasks"
  by (simp add: tasks_ok_def cur_pid_def sample_tasks_def kmalloc_st.defs task_st.defs)

theorem sched_next_fair_witness:
  "\<exists>n \<le> 255. cur_pid ((switch ^^ n) sample_tasks) = 1"
  by (rule sched_next_fair [OF tasks_ok_sample])
    (simp_all add: ready_def sample_tasks_def kmalloc_st.defs task_st.defs zero_task_def)

text \<open>
  C17. A dying task hands its status to its parent, a task in the table that counts it and all tasks of its queue of dead children
  \<open>qs\<close>, which name it as parent, as children: with no dead children of its own, the dying task is marked as exiting, recorded at the end of
  its parent's queue, behind all that are there, the parent is woken if it waits, and every task that has
  it as parent gets task 1 as parent; no count of children changes. When the parent then waits once for each dead child, it
  gets the numbers and the statuses of those in the queue in their order and of this child at last, without waiting; their
  slots in the table are free, the queue is empty and as many children fewer are counted.
\<close>

theorem exit_then_wait:
  assumes "t \<noteq> 0" "wait_queue (theap s t) = 0" "t_pid (theap s t) = of_nat cp" "cp < 256" "cp \<noteq> pp"
    "t_ppid (theap s t) = of_nat pp" "pp < 256" "tasks s pp = p" "p \<noteq> 0" "p \<noteq> t"
    "wchain (theap s) p qs" "distinct (p # qs)" "t \<notin> set qs" "\<forall>c \<in> set qs. dead_child s pp c"
    "length qs < unat (children (theap s p))"
  shows "\<exists>s1 s2. task_kill (kernel_alloc (Suc d) 4096) (kernel_free d) t st s = Some s1
     \<and> tasks s1 = tasks s \<and> t_state (theap s1 t) = TASK_STATE_EXITING \<and> wchain (theap s1) p (qs @ [t])
     \<and> t_state (theap s1 p)
         = (if t_state (theap s p) = TASK_STATE_BLOCK_WAIT then TASK_STATE_READY else t_state (theap s p))
     \<and> (\<forall>x. children (theap s1 x) = children (theap s x)
          \<and> t_ppid (theap s1 x) = (if x \<noteq> 0 \<and> x \<in> tasks s ` {2..<256} \<and> t_ppid (theap s x) = of_nat cp
              then 1 else t_ppid (theap s x)))
     \<and> waits sched (kernel_alloc (Suc d) 4096) (kernel_free d) loc (length qs + 1) (s1\<lparr>cur_task := p\<rparr>)
         = Some (map (\<lambda>c. (t_pid (theap s c), if loc \<noteq> 0 then Some (exit_status (theap s c)) else None)) qs
             @ [(of_nat cp, if loc \<noteq> 0 then Some st else None)], s2)
     \<and> tasks s2 = (\<lambda>i. if i = cp \<or> i \<in> (\<lambda>c. unat (t_pid (theap s c))) ` set qs then 0 else tasks s i)
     \<and> children (theap s2 p) = children (theap s p) - of_nat (length qs + 1) \<and> wait_queue (theap s2 p) = 0"
proof -
  have ne: "t_ppid (theap s t) \<noteq> t_pid (theap s t)" "unat (of_nat cp :: u32) = cp" "(of_nat pp :: u32) \<noteq> of_nat cp"
    using assms(3-7) of_nat_u32_neq [of pp cp] by (simp_all add: unat_of_nat_u32)
  obtain s1 where k: "task_kill (kernel_alloc (Suc d) 4096) (kernel_free d) t st s = Some s1" "tasks s1 = tasks s"
      "wchain (theap s1) p (qs @ [t])" "exit_status (theap s1 t) = st" "t_state (theap s1 t) = TASK_STATE_EXITING"
      "t_state (theap s1 p)
         = (if t_state (theap s p) = TASK_STATE_BLOCK_WAIT then TASK_STATE_READY else t_state (theap s p))"
      "\<forall>x. t_pid (theap s1 x) = t_pid (theap s x) \<and> children (theap s1 x) = children (theap s x)
          \<and> t_ppid (theap s1 x) = (if x \<noteq> 0 \<and> x \<in> tasks s ` {2..<256} \<and> t_ppid (theap s x) = t_pid (theap s t)
              then 1 else t_ppid (theap s x)) \<and> (x \<noteq> t \<longrightarrow> exit_status (theap s1 x) = exit_status (theap s x))"
    using task_kill_eq [OF assms(1,2) ne(1) assms(6-13), of "kernel_alloc (Suc d) 4096" "kernel_free d" st] by auto
  let ?s = "s1\<lparr>cur_task := p\<rparr>"
  have "dead_child ?s pp c" if "c \<in> set (qs @ [t])" for c
    using that assms(3-7,14) k(7) ne by (auto simp: dead_child_def)
  then have dead: "\<forall>c \<in> set (qs @ [t]). dead_child ?s pp c" by blast
  have hd: "cur_task ?s = p" "tasks ?s pp = p" "wchain (theap ?s) p (qs @ [t])" "p \<notin> set (qs @ [t])"
      "length (qs @ [t]) \<le> unat (children (theap ?s p))"
    using assms(8,10,12,15) k(2,3,7) by auto
  obtain s2 where w: "waits sched (kernel_alloc (Suc d) 4096) (kernel_free d) loc (length (qs @ [t])) ?s
       = Some (map (\<lambda>c. (t_pid (theap ?s c), if loc \<noteq> 0 then Some (exit_status (theap ?s c)) else None)) (qs @ [t]), s2)"
     "wait_queue (theap s2 p) = 0" "tasks s2 = (\<lambda>i. if i \<in> (\<lambda>c. unat (t_pid (theap ?s c))) ` set (qs @ [t]) then 0 else tasks ?s i)"
     "children (theap s2 p) = children (theap ?s p) - of_nat (length (qs @ [t]))"
    using kernel_mem.waits_reap [OF hd(1) assms(9) hd(2) assms(7) hd(3-5) dead] by blast
  have out: "map (\<lambda>c. (t_pid (theap ?s c), if loc \<noteq> 0 then Some (exit_status (theap ?s c)) else None)) (qs @ [t])
      = map (\<lambda>c. (t_pid (theap s c), if loc \<noteq> 0 then Some (exit_status (theap s c)) else None)) qs
        @ [(of_nat cp, if loc \<noteq> 0 then Some st else None)]"
    using k(4,7) assms(3,13) by auto
  have len: "length (qs @ [t]) = length qs + 1" by simp
  have img: "(\<lambda>c. unat (t_pid (theap ?s c))) ` set (qs @ [t]) = insert cp ((\<lambda>c. unat (t_pid (theap s c))) ` set qs)"
    using k(7) assms(3) ne(2) by auto
  have "tasks s2 = (\<lambda>i. if i = cp \<or> i \<in> (\<lambda>c. unat (t_pid (theap s c))) ` set qs then 0 else tasks s i)"
    unfolding w(3) img using k(2) by (auto simp: fun_eq_iff)
  moreover have "children (theap s2 p) = children (theap s p) - of_nat (length qs + 1)" using w(4) k(7) by simp
  ultimately show ?thesis using k(1-3,5-7) w(1,2) unfolding out len assms(3) by blast
qed

text \<open>The sample tasks with a third task that is dead already, in the queue of the first.\<close>

definition sample_queue :: task_st where
  "sample_queue = sample_tasks\<lparr>tasks := (tasks sample_tasks)(3 := 0x300),
     theap := (theap sample_tasks)(0x100 := (theap sample_tasks 0x100)\<lparr>wait_queue := 0x300, children := 2\<rparr>,
       0x300 := zero_task\<lparr>t_pid := 3, t_ppid := 1, exit_status := 5\<rparr>)\<rparr>"

theorem exit_then_wait_witness:
  "\<exists>s1 s2. task_kill (kernel_alloc (Suc 0) 4096) (kernel_free 0) 0x200 7 sample_queue = Some s1
     \<and> tasks s1 = tasks sample_queue \<and> t_state (theap s1 0x200) = TASK_STATE_EXITING \<and> wchain (theap s1) 0x100 ([0x300] @ [0x200])
     \<and> t_state (theap s1 0x100)
         = (if t_state (theap sample_queue 0x100) = TASK_STATE_BLOCK_WAIT then TASK_STATE_READY
            else t_state (theap sample_queue 0x100))
     \<and> (\<forall>x. children (theap s1 x) = children (theap sample_queue x)
          \<and> t_ppid (theap s1 x) = (if x \<noteq> 0 \<and> x \<in> tasks sample_queue ` {2..<256}
              \<and> t_ppid (theap sample_queue x) = of_nat 2 then 1 else t_ppid (theap sample_queue x)))
     \<and> waits id (kernel_alloc (Suc 0) 4096) (kernel_free 0) 0x9000 (length [0x300 :: u32] + 1) (s1\<lparr>cur_task := 0x100\<rparr>)
         = Some (map (\<lambda>c. (t_pid (theap sample_queue c),
               if (0x9000 :: u32) \<noteq> 0 then Some (exit_status (theap sample_queue c)) else None)) [0x300]
             @ [(of_nat 2, if (0x9000 :: u32) \<noteq> 0 then Some 7 else None)], s2)
     \<and> tasks s2 = (\<lambda>i. if i = 2 \<or> i \<in> (\<lambda>c. unat (t_pid (theap sample_queue c))) ` set [0x300] then 0 else tasks sample_queue i)
     \<and> children (theap s2 0x100) = children (theap sample_queue 0x100) - of_nat (length [0x300 :: u32] + 1)
     \<and> wait_queue (theap s2 0x100) = 0"
  by (rule exit_then_wait [where pp = 1])
    (simp_all add: sample_queue_def sample_tasks_def kmalloc_st.defs task_st.defs zero_task_def dead_child_def)

text \<open>
  Orphans break the count of children: \<open>task_kill\<close> makes task 1 the parent of the children of
  the dying task without counting them, and \<open>task_destroy\<close> of such a child takes one off the count
  of task 1. From 0 the count wraps around, and from then on \<open>sys_wait\<close> of task 1 no longer
  fails with \<open>ECHILD\<close> but goes to wait.
\<close>

theorem orphan_count_wraps:
  assumes "t_ppid (theap s c) = 1" "tasks s 1 = init" "init \<noteq> 0" "t_pid (theap s c) = of_nat cp" "cp < 256"
    "children (theap s init) = 0"
  shows "\<exists>s'. task_destroy (kernel_alloc (Suc d) 4096) (kernel_free d) c s = Some s'
     \<and> children (theap s' init) = 0xFFFFFFFF"
  using kernel_mem.task_destroy_eq [of s c 1 init cp d] assms by auto

theorem orphan_count_wraps_witness:
  "\<exists>s'. task_destroy (kernel_alloc (Suc 0) 4096) (kernel_free 0) 0x200
         (set_task 0x100 (\<lambda>t. t\<lparr>children := 0\<rparr>) sample_tasks) = Some s'
     \<and> children (theap s' 0x100) = 0xFFFFFFFF"
  by (rule orphan_count_wraps [where cp = 2])
    (simp_all add: sample_tasks_def kmalloc_st.defs task_st.defs zero_task_def set_task_def)

end
