(* ===== verification/Uvm.thy ===== *)
theory Uvm
  imports Task
begin

text \<open>
  The heap of a user task, \<^verbatim>\<open>kernel/src/mm/uvm.c\<close>: pages added and taken at \<open>uheap_end\<close> of the current task, \<open>brk\<close>
  and \<open>sbrk\<close>. \<open>km\<close> is the allocator \<open>kmalloc_pa\<close> that \<open>page_map\<close> takes new page tables from; the theorems are about ranges
  whose page tables exist, so they hold for every \<open>km\<close>.
\<close>

section \<open>Model\<close>

definition round_up_to :: "u32 \<Rightarrow> u32 \<Rightarrow> u32" where
  "round_up_to val divisor = (if val mod divisor \<noteq> 0 then val + divisor - val mod divisor else val)"

definition uvm_page_alloc ::
    "('z task_st_scheme \<Rightarrow> u32 \<Rightarrow> u32 \<times> 'z task_st_scheme) \<Rightarrow> 'z task_st_scheme \<Rightarrow> u32 \<times> 'z task_st_scheme" where
  "uvm_page_alloc km s =
     (if uheap_end (theap s (cur_task s)) < USTACK_BEGIN then
        let (frame, s) = frame_alloc s;
            (ret, s) = page_map km (uheap_end (theap s (cur_task s))) frame (PF_PRES OR PF_RW OR PF_USER)
                         (t_page_dir (theap s (cur_task s))) s in
        if ret = 0 then (0, s)
        else
          let s = set_task (cur_task s) (\<lambda>t. t\<lparr>uheap_end := uheap_end t + PAGE_SIZE\<rparr>) s in
          (ret, vmemset ret 0 4096 s)
      else (0, s\<lparr>kerrno := Some ENOMEM\<rparr>))"

definition uvm_page_free ::
    "('z task_st_scheme \<Rightarrow> u32 \<Rightarrow> u32 \<times> 'z task_st_scheme) \<Rightarrow> 'z task_st_scheme \<Rightarrow> 'z task_st_scheme" where
  "uvm_page_free km s =
     (let addr = uheap_end (theap s (cur_task s)) - PAGE_SIZE;
          s = frame_free (get_phys addr (t_page_dir (theap s (cur_task s))) s) s;
          (_, s) = page_map km addr 0 0 (t_page_dir (theap s (cur_task s))) s in
      set_task (cur_task s) (\<lambda>t. t\<lparr>uheap_end := uheap_end t - PAGE_SIZE\<rparr>) s)"

text \<open>The loops of \<open>uvm_brk\<close>; \<open>False\<close> is \<open>goto bad\<close>.\<close>

partial_function (option) uvm_brk_enlarge ::
    "('z task_st_scheme \<Rightarrow> u32 \<Rightarrow> u32 \<times> 'z task_st_scheme)
     \<Rightarrow> u32 \<Rightarrow> 'z task_st_scheme \<Rightarrow> (bool \<times> 'z task_st_scheme) option" where
  "uvm_brk_enlarge km addr s =
     (if addr > uheap_end (theap s (cur_task s)) then
        let (ret, s) = uvm_page_alloc km s in
        if ret = 0 then Some (False, s) else uvm_brk_enlarge km addr s
      else Some (True, s))"

partial_function (option) uvm_brk_shrink ::
    "('z task_st_scheme \<Rightarrow> u32 \<Rightarrow> u32 \<times> 'z task_st_scheme)
     \<Rightarrow> u32 \<Rightarrow> 'z task_st_scheme \<Rightarrow> 'z task_st_scheme option" where
  "uvm_brk_shrink km addr s =
     (if addr < uheap_end (theap s (cur_task s)) then uvm_brk_shrink km addr (uvm_page_free km s) else Some s)"

definition uvm_brk ::
    "('z task_st_scheme \<Rightarrow> u32 \<Rightarrow> u32 \<times> 'z task_st_scheme)
     \<Rightarrow> u32 \<Rightarrow> 'z task_st_scheme \<Rightarrow> (int \<times> 'z task_st_scheme) option" where
  "uvm_brk km addr s =
     (let addr = round_up_to addr PAGE_SIZE in
      if addr < UMEM_BEGIN \<or> addr \<ge> USTACK_BEGIN then Some (- 1, s\<lparr>kerrno := Some ENOMEM\<rparr>)
      else if addr = uheap_end (theap s (cur_task s)) then Some (0, s)
      else if addr > uheap_end (theap s (cur_task s)) then
        map_option (\<lambda>(ok, s). if ok then (0, s) else (- 1, s\<lparr>kerrno := Some ENOMEM\<rparr>)) (uvm_brk_enlarge km addr s)
      else map_option (\<lambda>s. (0, s)) (uvm_brk_shrink km addr s))"

function uvm_sbrk_enlarge ::
    "('z task_st_scheme \<Rightarrow> u32 \<Rightarrow> u32 \<times> 'z task_st_scheme)
     \<Rightarrow> int \<Rightarrow> 'z task_st_scheme \<Rightarrow> bool \<times> 'z task_st_scheme" where
  "uvm_sbrk_enlarge km incr s =
     (if incr > 0 then
        let (ret, s) = uvm_page_alloc km s in
        if ret = 0 then (False, s) else uvm_sbrk_enlarge km (incr - 4096) s
      else (True, s))"
  by pat_completeness auto
termination by (relation "measure (\<lambda>(km, incr, s). nat incr)") auto

function uvm_sbrk_shrink ::
    "('z task_st_scheme \<Rightarrow> u32 \<Rightarrow> u32 \<times> 'z task_st_scheme) \<Rightarrow> int \<Rightarrow> 'z task_st_scheme \<Rightarrow> 'z task_st_scheme" where
  "uvm_sbrk_shrink km incr s =
     (if incr < 0 then uvm_sbrk_shrink km (incr + 4096) (uvm_page_free km s) else s)"
  by pat_completeness auto
termination by (relation "measure (\<lambda>(km, incr, s). nat (- incr))") auto

declare uvm_sbrk_enlarge.simps [simp del] uvm_sbrk_shrink.simps [simp del]

definition uvm_sbrk ::
    "('z task_st_scheme \<Rightarrow> u32 \<Rightarrow> u32 \<times> 'z task_st_scheme)
     \<Rightarrow> u32 \<Rightarrow> 'z task_st_scheme \<Rightarrow> u32 \<times> 'z task_st_scheme" where
  "uvm_sbrk km incr s =
     (let ret = uheap_end (theap s (cur_task s)) in
      if sint incr > 0 then
        if ret + incr > USTACK_BEGIN then (- 1, s\<lparr>kerrno := Some ENOMEM\<rparr>)
        else
          let (ok, s) = uvm_sbrk_enlarge km (sint incr) s in
          if ok then (ret, s) else (- 1, s\<lparr>kerrno := Some ENOMEM\<rparr>)
      else if sint incr < 0 then
        if ret + incr < uheap_begin (theap s (cur_task s)) then (- 1, s\<lparr>kerrno := Some ENOMEM\<rparr>)
        else (ret, uvm_sbrk_shrink km (sint incr + 4095) s)
      else (ret, s))"

section \<open>Moving the end of the heap\<close>

abbreviation udir :: "'z task_st_scheme \<Rightarrow> u32" where
  "udir s \<equiv> t_page_dir (theap s (cur_task s))"

definition upage :: "'z task_st_scheme \<Rightarrow> nat" where
  "upage s = frame_no (uheap_end (theap s (cur_task s)))"

text \<open>
  The heap ends on a page boundary of user memory below the stack, the task's directory is the active one, and the
  page tables exist for the pages from \<open>lo\<close> up to \<open>hi\<close>.
\<close>

definition uvm_ok :: "nat \<Rightarrow> nat \<Rightarrow> 'z task_st_scheme \<Rightarrow> bool" where
  "uvm_ok lo hi s \<longleftrightarrow> uheap_end (theap s (cur_task s)) = frame_addr (upage s) \<and> upage s < 2 ^ 20
     \<and> active_dir s = udir s \<and> dir_inj (udir s) s \<and> 0 < lo \<and> hi \<le> frame_no USTACK_BEGIN
     \<and> (\<forall>a. lo \<le> frame_no a \<and> frame_no a < hi \<longrightarrow> tables (dirs s (udir s)) (dir_i a) \<noteq> 0)"

text \<open>
  The end of the heap moved to page \<open>n\<close>: the pages between the old and the new end are mapped exactly below the new
  end, all other pages are as before, and nothing else of the tasks changed.
\<close>

definition uvm_moved :: "nat \<Rightarrow> 'z task_st_scheme \<Rightarrow> 'z task_st_scheme \<Rightarrow> bool" where
  "uvm_moved n s s' \<longleftrightarrow> tasks s' = tasks s \<and> cur_task s' = cur_task s
     \<and> theap s' = (theap s)(cur_task s := (theap s (cur_task s))\<lparr>uheap_end := frame_addr n\<rparr>)
     \<and> active_dir s' = active_dir s \<and> faulted s' = faulted s
     \<and> tables (dirs s' (udir s)) = tables (dirs s (udir s))
     \<and> (\<forall>a. mapped a (udir s) s' = (if min (upage s) n \<le> frame_no a \<and> frame_no a < max (upage s) n
          then frame_no a < n else mapped a (udir s) s))
     \<and> (\<forall>a. min (upage s) n \<le> frame_no a \<and> frame_no a < max (upage s) n
          \<or> get_phys a (udir s) s' = get_phys a (udir s) s)"


lemma frame_no_USTACK [simp]: "frame_no USTACK_BEGIN = 1047552"
  by (simp add: frame_no_def)

lemma frame_addr_less: "n < 2 ^ 20 \<Longrightarrow> m < 2 ^ 20 \<Longrightarrow> frame_addr n < frame_addr m \<longleftrightarrow> n < m"
  by (simp add: word_less_nat_alt frame_addr_aligned)

lemma frame_addr_add: "frame_addr n + 4096 = frame_addr (Suc n)"
  by (simp add: frame_addr_def push_bit_eq_mult algebra_simps)

lemma frame_addr_nonzero: "0 < n \<Longrightarrow> n < 2 ^ 20 \<Longrightarrow> frame_addr n \<noteq> 0"
  by (metis frame_addr_aligned mult_eq_0_iff neq0_conv unat_0 zero_neq_numeral)

lemma task_frame_alloc [simp]:
  fixes s :: "'z task_st_scheme"
  shows "theap (snd (frame_alloc s)) = theap s" "tasks (snd (frame_alloc s)) = tasks s" "cur_task (snd (frame_alloc s)) = cur_task s"
  by (rule rest_eqD [OF rest_frame_alloc])+

lemma paging_set_task [simp]:
  "mapped a d (set_task t f s) = mapped a d s" "get_phys a d (set_task t f s) = get_phys a d s"
  "dirs (set_task t f s) = dirs s" "active_dir (set_task t f s) = active_dir s" "faulted (set_task t f s) = faulted s"
  "tasks (set_task t f s) = tasks s" "cur_task (set_task t f s) = cur_task s"
  by (simp_all add: set_task_def mapped_def get_phys_def Let_def)

lemma paging_pmem [simp]:
  "mapped a d (s\<lparr>pmem := q\<rparr>) = mapped a d s" "get_phys a d (s\<lparr>pmem := q\<rparr>) = get_phys a d s"
  by (simp_all add: mapped_def get_phys_def Let_def)

lemma theap_set_task: "theap (set_task t f s) = (theap s)(t := f (theap s t))"
  by (simp add: set_task_def)

lemma task_page_map:
  fixes s :: "'z task_st_scheme"
  assumes "tables (dirs s pd) (dir_i a) \<noteq> 0"
  shows "theap (snd (page_map km a f fl pd s)) = theap s" "tasks (snd (page_map km a f fl pd s)) = tasks s"
    "cur_task (snd (page_map km a f fl pd s)) = cur_task s"
  by (simp_all add: page_map_eq [OF assms] set_pde_def set_entry_def)

lemma uvm_page_alloc_moves:
  fixes s :: "'z task_st_scheme"
  assumes ok: "uvm_ok lo hi s" and P: "lo \<le> upage s" "upage s < hi"
  shows "\<exists>s'. uvm_page_alloc km s = (frame_addr (upage s), s') \<and> uvm_moved (Suc (upage s)) s s'"
proof -
  define p where "p = upage s"
  let ?c = "cur_task s" and ?d = "udir s" and ?a = "frame_addr p"
  have e: "uheap_end (theap s ?c) = ?a" and p: "p < 2 ^ 20" "0 < p" "p < 1047552" and act: "active_dir s = ?d" and inj: "dir_inj ?d s"
    using ok P by (auto simp: uvm_ok_def p_def)
  have fa: "frame_no ?a = p" "unat ?a = 4096 * p" using p by (simp_all add: frame_no_addr frame_addr_aligned)
  have lt: "?a < USTACK_BEGIN" using p fa(2) by (simp add: word_less_nat_alt)
  obtain f s1 where f: "frame_alloc s = (f, s1)" by fastforce
  then have s1: "s1 = snd (frame_alloc s)" by simp
  have tab: "tables (dirs s1 ?d) (dir_i ?a) \<noteq> 0" using ok P fa by (simp add: s1 uvm_ok_def p_def)
  have inj1: "dir_inj ?d s1" using inj by (simp add: s1)
  define s2 where "s2 = snd (page_map km ?a f 7 ?d s1)"
  have al: "?a AND NOT 4095 = ?a" using fa(2) by (intro word_aligned_and) simp
  have pm: "page_map km ?a f 7 ?d s1 = (?a, s2)" unfolding s2_def page_map_eq [OF tab] al by simp
  define s3 where "s3 = set_task ?c (\<lambda>t. t\<lparr>uheap_end := uheap_end t + 4096\<rparr>) s2"
  have "?a \<noteq> 0" using frame_addr_nonzero p by simp
  then have pa: "uvm_page_alloc km s = (?a, vmemset ?a 0 4096 s3)"
  proof -
    have "cur_task s1 = ?c" "theap s1 = theap s" by (simp_all add: s1)
    moreover have "cur_task s2 = cur_task s1" unfolding s2_def by (rule task_page_map [OF tab])
    ultimately show ?thesis using lt pm \<open>?a \<noteq> 0\<close> by (simp add: uvm_page_alloc_def e f s3_def)
  qed
  note other = page_map_other [OF tab, of km f 7] task_page_map [OF tab, of km f 7]
  have m: "mapped x ?d s3 \<longleftrightarrow> frame_no x = p \<or> mapped x ?d s" for x
    using mapped_page_map [OF tab inj1, of x km f 7] fa by (auto simp: s3_def s2_def s1)
  have g: "frame_no x = p \<or> get_phys x ?d s3 = get_phys x ?d s" for x
    using get_phys_page_map [OF tab inj1, of x km f 7] fa by (auto simp: s3_def s2_def s1)
  have act3: "active_dir s3 = ?d" using other act by (simp add: s3_def s2_def s1)
  have one: "min p (Suc p) = p" "max p (Suc p) = Suc p" "p \<le> n \<and> n < Suc p \<longleftrightarrow> n = p" for n by auto
  have "mapped (?a + of_nat i) (active_dir s3) s3" if "i < 4096" for i
    using page_offset [OF fa(2) that] m act3 by simp
  then obtain q where v: "vmemset ?a 0 4096 s3 = s3\<lparr>pmem := q\<rparr>" using vmemset_eq [of 4096 ?a s3 0] by blast
  have th: "theap s3 = (theap s)(?c := (theap s ?c)\<lparr>uheap_end := frame_addr (Suc p)\<rparr>)"
    using other e by (simp add: s3_def s2_def s1 theap_set_task frame_addr_add)
  have fr: "tasks s3 = tasks s" "cur_task s3 = ?c" "faulted s3 = faulted s" "tables (dirs s3 ?d) = tables (dirs s ?d)"
    using other by (simp_all add: s3_def s2_def s1)
  have "uvm_moved (Suc p) s (s3\<lparr>pmem := q\<rparr>)"
    unfolding uvm_moved_def p_def [symmetric] one
  proof (intro conjI allI)
    show "mapped x ?d (s3\<lparr>pmem := q\<rparr>) = (if frame_no x = p then frame_no x < Suc p else mapped x ?d s)" for x
      using m [of x] by simp
    show "frame_no x = p \<or> get_phys x ?d (s3\<lparr>pmem := q\<rparr>) = get_phys x ?d s" for x using g [of x] by simp
  qed (simp_all add: fr th act3 act)
  then show ?thesis using pa v by (simp add: p_def)
qed


lemma task_frame_free [simp]:
  fixes s :: "'z task_st_scheme"
  shows "theap (frame_free a s) = theap s" "tasks (frame_free a s) = tasks s" "cur_task (frame_free a s) = cur_task s"
  by (rule rest_eqD [OF rest_frame_free])+

lemma uvm_page_free_moves:
  fixes s :: "'z task_st_scheme"
  assumes ok: "uvm_ok lo hi s" and P: "lo < upage s" "upage s \<le> hi"
  shows "uvm_moved (upage s - 1) s (uvm_page_free km s)"
proof -
  define p where "p = upage s - 1"
  let ?c = "cur_task s" and ?d = "udir s" and ?a = "frame_addr p"
  have Sp: "upage s = Suc p" using P by (simp add: p_def)
  have e: "uheap_end (theap s ?c) = frame_addr (Suc p)" and p: "Suc p < 2 ^ 20" and act: "active_dir s = ?d" and inj: "dir_inj ?d s"
    using ok by (auto simp: uvm_ok_def Sp)
  have fa: "frame_no ?a = p" using p by (simp add: frame_no_addr)
  have e': "uheap_end (theap s ?c) - 4096 = ?a" unfolding e by (simp flip: frame_addr_add)
  define s1 where "s1 = frame_free (get_phys ?a ?d s) s"
  have c1: "cur_task s1 = ?c" "theap s1 = theap s" "tasks s1 = tasks s" by (simp_all add: s1_def)
  have tab: "tables (dirs s1 ?d) (dir_i ?a) \<noteq> 0"
    using ok P fa Sp by (auto simp: s1_def uvm_ok_def)
  have inj1: "dir_inj ?d s1" using inj by (simp add: s1_def)
  define s2 where "s2 = snd (page_map km ?a 0 0 ?d s1)"
  note other = page_map_other [OF tab, of km 0 0] task_page_map [OF tab, of km 0 0]
  have c2: "cur_task s2 = ?c" "theap s2 = theap s" "tasks s2 = tasks s" unfolding s2_def using other c1 by simp_all
  have pf: "uvm_page_free km s = set_task ?c (\<lambda>t. t\<lparr>uheap_end := uheap_end t - 4096\<rparr>) s2"
    by (simp add: uvm_page_free_def Let_def case_prod_unfold e' c1 c2 flip: s1_def s2_def)
  have one: "min (Suc p) p = p" "max (Suc p) p = Suc p" "p \<le> n \<and> n < Suc p \<longleftrightarrow> n = p" for n by auto
  have "uvm_moved p s (uvm_page_free km s)" unfolding uvm_moved_def Sp one pf
  proof (intro conjI allI)
    let ?s = "set_task ?c (\<lambda>t. t\<lparr>uheap_end := uheap_end t - 4096\<rparr>) s2"
    show "mapped x ?d ?s = (if frame_no x = p then frame_no x < p else mapped x ?d s)" for x
      using mapped_page_map [OF tab inj1, of x km 0 0] fa by (simp add: s2_def s1_def)
    show "frame_no x = p \<or> get_phys x ?d ?s = get_phys x ?d s" for x
      using get_phys_page_map [OF tab inj1, of x km 0 0] fa by (simp add: s2_def s1_def)
    show "theap ?s = (theap s)(?c := (theap s ?c)\<lparr>uheap_end := frame_addr p\<rparr>)"
      using e' by (simp add: theap_set_task c2)
  qed (use other c2 in \<open>simp_all add: s2_def s1_def\<close>)
  then show ?thesis by (simp add: p_def)
qed

lemma uvm_moved_upage: "uvm_moved n s s' \<Longrightarrow> n < 2 ^ 20 \<Longrightarrow> upage s' = n"
  by (simp add: uvm_moved_def upage_def frame_no_addr)

lemma uvm_moved_end: "uvm_moved n s s' \<Longrightarrow> uheap_end (theap s' (cur_task s')) = frame_addr n"
  by (simp add: uvm_moved_def)

lemma uvm_moved_udir: "uvm_moved n s s' \<Longrightarrow> udir s' = udir s"
  by (simp add: uvm_moved_def)

lemma uvm_moved_ok: "uvm_moved n s s' \<Longrightarrow> n < 2 ^ 20 \<Longrightarrow> uvm_ok lo hi s \<Longrightarrow> uvm_ok lo hi s'"
  using dir_inj_tables_cong [of s' "udir s" s]
  by (simp add: uvm_ok_def uvm_moved_upage uvm_moved_end uvm_moved_udir) (simp add: uvm_moved_def)

lemma uvm_moved_refl: "uvm_ok lo hi s \<Longrightarrow> uvm_moved (upage s) s s"
  by (auto simp: uvm_moved_def uvm_ok_def)

lemma uvm_moved_trans:
  assumes m: "uvm_moved n s s1" "uvm_moved k s1 s2" "n < 2 ^ 20" and le: "upage s \<le> n \<and> n \<le> k \<or> k \<le> n \<and> n \<le> upage s"
  shows "uvm_moved k s s2"
proof -
  note u = uvm_moved_upage [OF m(1,3)] uvm_moved_udir [OF m(1)]
  have c: "cur_task s1 = cur_task s" "theap s1 (cur_task s) = (theap s (cur_task s))\<lparr>uheap_end := frame_addr n\<rparr>"
    using m(1) by (simp_all add: uvm_moved_def)
  show ?thesis unfolding uvm_moved_def
  proof (intro conjI allI)
    show "mapped a (udir s) s2 = (if min (upage s) k \<le> frame_no a \<and> frame_no a < max (upage s) k
        then frame_no a < k else mapped a (udir s) s)" for a
    proof -
      have "mapped a (udir s) s1 = (if min (upage s) n \<le> frame_no a \<and> frame_no a < max (upage s) n
          then frame_no a < n else mapped a (udir s) s)"
        "mapped a (udir s) s2 = (if min n k \<le> frame_no a \<and> frame_no a < max n k then frame_no a < k else mapped a (udir s) s1)"
        using m(1,2) u by (simp_all add: uvm_moved_def)
      then show ?thesis using le by (auto simp: min_def max_def split: if_splits)
    qed
    show "min (upage s) k \<le> frame_no a \<and> frame_no a < max (upage s) k \<or> get_phys a (udir s) s2 = get_phys a (udir s) s" for a
    proof -
      have "min (upage s) n \<le> frame_no a \<and> frame_no a < max (upage s) n \<or> get_phys a (udir s) s1 = get_phys a (udir s) s"
        "min n k \<le> frame_no a \<and> frame_no a < max n k \<or> get_phys a (udir s) s2 = get_phys a (udir s) s1"
        using m(1,2) u by (auto simp: uvm_moved_def)
      then show ?thesis using le by (auto simp: min_def max_def split: if_splits)
    qed
    show "theap s2 = (theap s)(cur_task s := (theap s (cur_task s))\<lparr>uheap_end := frame_addr k\<rparr>)"
      using m(1,2) c by (auto simp: uvm_moved_def)
  qed (use m(1,2) u in \<open>simp_all add: uvm_moved_def\<close>)
qed


section \<open>brk and sbrk\<close>

lemma uvm_brk_enlarge_moves:
  assumes "uvm_ok lo hi s" "lo \<le> upage s" "upage s \<le> n" "n \<le> hi"
  shows "\<exists>s'. uvm_brk_enlarge km (frame_addr n) s = Some (True, s') \<and> uvm_moved n s s'"
  using assms
proof (induction "n - upage s" arbitrary: s)
  case 0
  then have "upage s = n" by simp
  then show ?case using 0 uvm_moved_refl [OF 0(2)]
    by (subst uvm_brk_enlarge.simps) (auto simp: uvm_ok_def)
next
  case (Suc k)
  then have lt: "upage s < n" by simp
  have hi: "n < 2 ^ 20" "upage s < 2 ^ 20" "Suc (upage s) < 2 ^ 20" using Suc.prems lt by (auto simp: uvm_ok_def)
  obtain s1 where s1: "uvm_page_alloc km s = (frame_addr (upage s), s1)" "uvm_moved (Suc (upage s)) s s1"
    using uvm_page_alloc_moves [OF Suc.prems(1,2)] lt Suc.prems(4) by (meson less_le_trans)
  note u = uvm_moved_upage [OF s1(2) hi(3)]
  obtain s' where s': "uvm_brk_enlarge km (frame_addr n) s1 = Some (True, s')" "uvm_moved n s1 s'"
  proof -
    have "k = n - Suc (upage s)" using Suc.hyps(2) by linarith
    then show ?thesis using that Suc.hyps(1) [of s1] Suc.prems uvm_moved_ok [OF s1(2) hi(3) Suc.prems(1)] u lt by auto
  qed
  have "frame_addr (upage s) \<noteq> 0" "uheap_end (theap s (cur_task s)) < frame_addr n"
    using Suc.prems hi lt by (auto simp: uvm_ok_def frame_addr_nonzero frame_addr_less)
  then have "uvm_brk_enlarge km (frame_addr n) s = Some (True, s')"
    using s1(1) s'(1) by (subst uvm_brk_enlarge.simps) simp
  moreover have "uvm_moved n s s'" using uvm_moved_trans [OF s1(2) s'(2) hi(3)] lt by simp
  ultimately show ?case by blast
qed

lemma uvm_brk_shrink_moves:
  assumes "uvm_ok lo hi s" "lo \<le> n" "n \<le> upage s" "upage s \<le> hi"
  shows "\<exists>s'. uvm_brk_shrink km (frame_addr n) s = Some s' \<and> uvm_moved n s s'"
  using assms
proof (induction "upage s - n" arbitrary: s)
  case 0
  then have "upage s = n" by simp
  then show ?case using 0 uvm_moved_refl [OF 0(2)]
    by (subst uvm_brk_shrink.simps) (auto simp: uvm_ok_def)
next
  case (Suc k)
  then have lt: "n < upage s" by simp
  have hi: "n < 2 ^ 20" "upage s < 2 ^ 20" "upage s - 1 < 2 ^ 20" using Suc.prems lt by (auto simp: uvm_ok_def)
  have s1: "uvm_moved (upage s - 1) s (uvm_page_free km s)"
    using uvm_page_free_moves [OF Suc.prems(1)] lt Suc.prems by simp
  note u = uvm_moved_upage [OF s1 hi(3)]
  obtain s' where s': "uvm_brk_shrink km (frame_addr n) (uvm_page_free km s) = Some s'" "uvm_moved n (uvm_page_free km s) s'"
  proof -
    have "k = upage s - 1 - n" "n \<le> upage s - 1" "upage s - 1 \<le> hi" using Suc.hyps(2) Suc.prems(4) lt by linarith+
    then show ?thesis
      using that Suc.hyps(1) [of "uvm_page_free km s"] Suc.prems uvm_moved_ok [OF s1 hi(3) Suc.prems(1)] u by auto
  qed
  have "frame_addr n < uheap_end (theap s (cur_task s))"
    using Suc.prems hi lt by (auto simp: uvm_ok_def frame_addr_less)
  then have "uvm_brk_shrink km (frame_addr n) s = Some s'"
    using s'(1) by (subst uvm_brk_shrink.simps) simp
  moreover have "uvm_moved n s s'" 
  proof (rule uvm_moved_trans [OF s1 s'(2) hi(3)])
    show "upage s \<le> upage s - 1 \<and> upage s - 1 \<le> n \<or> n \<le> upage s - 1 \<and> upage s - 1 \<le> upage s" using lt by linarith
  qed
  ultimately show ?case by blast
qed

lemma uvm_sbrk_enlarge_moves:
  assumes "uvm_ok lo hi s" "lo \<le> upage s" "upage s + pages_for n \<le> hi"
  shows "\<exists>s'. uvm_sbrk_enlarge km n s = (True, s') \<and> uvm_moved (upage s + pages_for n) s s'"
  using assms
proof (induction "pages_for n" arbitrary: n s)
  case 0
  have "\<not> 0 < n" using 0(1) pages_for_step [of n] by auto
  then show ?case using 0 uvm_moved_refl [OF 0(2)] by (subst uvm_sbrk_enlarge.simps) simp
next
  case (Suc k)
  have n: "0 < n" using Suc.hyps(2) by (rule_tac ccontr) (simp add: pages_for_def)
  note pf = pages_for_step [OF n]
  have lt: "upage s < hi" using Suc.prems(3) pf by simp
  have hi: "upage s < 2 ^ 20" "Suc (upage s) < 2 ^ 20" using Suc.prems lt by (auto simp: uvm_ok_def)
  obtain s1 where s1: "uvm_page_alloc km s = (frame_addr (upage s), s1)" "uvm_moved (Suc (upage s)) s s1"
    using uvm_page_alloc_moves [OF Suc.prems(1,2) lt] by blast
  note u = uvm_moved_upage [OF s1(2) hi(2)]
  obtain s' where s': "uvm_sbrk_enlarge km (n - 4096) s1 = (True, s')" "uvm_moved (upage s + pages_for n) s1 s'"
    using Suc.hyps(1) [of "n - 4096" s1] Suc.hyps(2) Suc.prems uvm_moved_ok [OF s1(2) hi(2) Suc.prems(1)] u pf by auto
  have "frame_addr (upage s) \<noteq> 0" using Suc.prems hi by (auto simp: uvm_ok_def frame_addr_nonzero)
  then have "uvm_sbrk_enlarge km n s = (True, s')" using n s1(1) s'(1) by (subst uvm_sbrk_enlarge.simps) simp
  moreover have "uvm_moved (upage s + pages_for n) s s'" using uvm_moved_trans [OF s1(2) s'(2) hi(2)] pf by simp
  ultimately show ?case by blast
qed


lemma round_up_to_page:
  assumes "(unat addr + 4095) div 4096 < 2 ^ 20"
  shows "round_up_to addr 4096 = frame_addr ((unat addr + 4095) div 4096)"
proof -
  define q r where "q = unat addr div 4096" and "r = unat addr mod 4096"
  have a: "unat addr = 4096 * q + r" "r < 4096" by (simp_all add: q_def r_def)
  have m: "unat (addr mod 4096) = r" by (simp add: unat_mod r_def)
  show ?thesis
  proof (cases "r = 0")
    case True
    then have "addr mod 4096 = 0" using m by (simp add: unat_eq_0)
    moreover have "(unat addr + 4095) div 4096 = q" using a True by simp
    ultimately show ?thesis using a True assms
      by (simp add: round_up_to_def word_unat_eq_iff frame_addr_aligned)
  next
    case False
    have "addr mod 4096 \<noteq> 0"
    proof
      assume "addr mod 4096 = 0"
      then show False using m False by simp
    qed
    have n: "(unat addr + 4095) div 4096 = Suc q" using a False by simp
    have "addr + 4096 - addr mod 4096 = of_nat (4096 * Suc q)"
    proof -
      have "addr = of_nat (4096 * q + r)" using a by (metis of_nat_unat ucast_id)
      moreover have "addr mod 4096 = of_nat r" using m by (metis of_nat_unat ucast_id)
      ultimately show ?thesis by (simp add: algebra_simps)
    qed
    then show ?thesis using \<open>addr mod 4096 \<noteq> 0\<close> n
      by (simp add: round_up_to_def frame_addr_def push_bit_eq_mult algebra_simps)
  qed
qed

text \<open>
  C26. \<open>brk\<close> of a task. For an address whose page boundary lies in user memory below the stack, when the page tables
  between the old and the new end of the heap exist, \<open>uvm_brk\<close> succeeds and moves the end of the heap to that boundary:
  the pages between are mapped when the heap grew and unmapped when it shrank, every other page keeps its
  mapping, no access faults, and nothing else of any task changes.
\<close>

theorem uvm_brk_moves_break:
  assumes "n = (unat addr + 4095) div 4096" "65536 \<le> n" "n < 1047552" "uvm_ok (min (upage s) n) (max (upage s) n) s"
  shows "\<exists>s'. uvm_brk km addr s = Some (0, s') \<and> uvm_moved n s s'"
proof -
  have r: "round_up_to addr 4096 = frame_addr n" using round_up_to_page [of addr] assms(1,3) by simp
  have n: "n < 2 ^ 20" using assms(3) by simp
  have "UMEM_BEGIN = frame_addr 65536" "USTACK_BEGIN = frame_addr 1047552" by (simp_all add: frame_addr_def)
  then have bounds: "\<not> frame_addr n < UMEM_BEGIN" "\<not> frame_addr n \<ge> USTACK_BEGIN"
    using assms(2,3) by (simp_all add: not_less frame_addr_less [of n] word_less_nat_alt word_le_nat_alt frame_addr_aligned)
  have e: "uheap_end (theap s (cur_task s)) = frame_addr (upage s)" "upage s < 2 ^ 20" using assms(4) by (auto simp: uvm_ok_def)
  show ?thesis
  proof (cases "upage s" n rule: linorder_cases)
    case less
    then have "frame_addr n > frame_addr (upage s)" using e n by (simp add: frame_addr_less)
    moreover obtain s' where "uvm_brk_enlarge km (frame_addr n) s = Some (True, s')" "uvm_moved n s s'"
      using uvm_brk_enlarge_moves [of "upage s" n s n km] assms(4) less by (auto simp: min_def max_def)
    moreover have "frame_addr n \<noteq> frame_addr (upage s)" using \<open>frame_addr n > frame_addr (upage s)\<close> by simp
    ultimately show ?thesis using r bounds e by (simp add: uvm_brk_def Let_def)
  next
    case equal
    then show ?thesis using r bounds e uvm_moved_refl [OF assms(4)] by (simp add: uvm_brk_def Let_def)
  next
    case greater
    then have "frame_addr n < frame_addr (upage s)" using e n by (simp add: frame_addr_less)
    moreover obtain s' where "uvm_brk_shrink km (frame_addr n) s = Some s'" "uvm_moved n s s'"
      using uvm_brk_shrink_moves [of n "upage s" s n km] assms(4) greater by (auto simp: min_def max_def)
    moreover have "frame_addr n \<noteq> frame_addr (upage s)" "\<not> frame_addr (upage s) < frame_addr n"
      using \<open>frame_addr n < frame_addr (upage s)\<close> by auto
    ultimately show ?thesis using r bounds e by (simp add: uvm_brk_def Let_def)
  qed
qed


lemma uvm_sbrk_grows:
  assumes "uvm_ok (upage s) (upage s + pages_for (sint incr)) s" "0 < sint incr"
    "4096 * upage s + unat incr \<le> unat USTACK_BEGIN"
  shows "\<exists>s'. uvm_sbrk km incr s = (frame_addr (upage s), s') \<and> uvm_moved (upage s + pages_for (sint incr)) s s'"
proof -
  have e: "uheap_end (theap s (cur_task s)) = frame_addr (upage s)" "upage s < 2 ^ 20" using assms(1) by (auto simp: uvm_ok_def)
  then have "unat (frame_addr (upage s) + incr) = 4096 * upage s + unat incr"
    using assms(3) by (simp add: unat_word_ariths frame_addr_aligned)
  then have "\<not> frame_addr (upage s) + incr > USTACK_BEGIN" using assms(3) by (simp add: word_less_nat_alt not_less)
  moreover obtain s' where "uvm_sbrk_enlarge km (sint incr) s = (True, s')" "uvm_moved (upage s + pages_for (sint incr)) s s'"
    using uvm_sbrk_enlarge_moves [OF assms(1)] by blast
  ultimately show ?thesis using assms(2) e by (simp add: uvm_sbrk_def Let_def)
qed

definition sample_user :: task_st where
  "sample_user = set_task 0x200 (\<lambda>t. t\<lparr>t_page_dir := 0x5000, uheap_begin := 0x10000000, uheap_end := 0x10002000\<rparr>)
     (sample_tasks\<lparr>dirs := \<lambda>_. \<lparr>tables = \<lambda>i. of_nat (i + 1), tables_phys = \<lambda>_. zero_pde\<rparr>, active_dir := 0x5000\<rparr>)"

lemma sample_user_fields:
  "cur_task sample_user = 0x200" "theap sample_user 0x200 = zero_task\<lparr>t_pid := 2, t_ppid := 1, t_state := TASK_STATE_READY,
     children := 0, t_page_dir := 0x5000, uheap_begin := 0x10000000, uheap_end := 0x10002000\<rparr>"
  "dirs sample_user = (\<lambda>_. \<lparr>tables = \<lambda>i. of_nat (i + 1), tables_phys = \<lambda>_. zero_pde\<rparr>)" "active_dir sample_user = 0x5000"
  by (simp_all add: sample_user_def sample_tasks_def kmalloc_st.defs task_st.defs set_task_def)

lemma unat_table: "i < 1024 \<Longrightarrow> unat (of_nat (i + 1) :: u32) = i + 1"
  by (rule unat_of_nat_u32) simp

lemma table_inj: "i < 1024 \<Longrightarrow> j < 1024 \<Longrightarrow> (of_nat (i + 1) :: u32) = of_nat (j + 1) \<Longrightarrow> i = j"
  using unat_table [of i] unat_table [of j] by simp

lemma table_nonzero: "i < 1024 \<Longrightarrow> (of_nat (i + 1) :: u32) \<noteq> 0"
  using unat_table [of i] by (metis add_gr_0 less_numeral_extra(1) less_numeral_extra(3) unat_0)

lemma uvm_ok_sample: "uvm_ok 65536 65538 sample_user"
proof -
  have "dir_inj 0x5000 sample_user" using table_inj by (simp add: dir_inj_def sample_user_fields del: of_nat_add)
  moreover have "tables (dirs sample_user 0x5000) (dir_i a) \<noteq> 0" for a
    using table_nonzero [OF dir_i_less [of a]] by (simp add: sample_user_fields del: of_nat_add)
  ultimately show ?thesis
    unfolding uvm_ok_def upage_def sample_user_fields
    by (simp add: zero_task_def sample_user_fields(4) frame_no_def frame_addr_def)
qed

theorem uvm_brk_moves_break_witness:
  "\<exists>s'. uvm_brk (kernel_alloc 1 4096) 0x0FFFF800 sample_user = Some (0, s') \<and> uvm_moved 65536 sample_user s'"
proof (rule uvm_brk_moves_break)
  have "upage sample_user = 65538" by (simp add: upage_def sample_user_fields zero_task_def frame_no_def)
  then show "uvm_ok (min (upage sample_user) 65536) (max (upage sample_user) 65536) sample_user"
    using uvm_ok_sample by simp
qed simp_all

end
