(* ===== verification/Machine.thy ===== *)
theory Machine
  imports Vfs Uvm
begin

text \<open>
  The kernel as a whole: the file systems on top of the tasks and the memory. The state is \<open>fs_st\<close> with \<open>task_st\<close> as
  the state of the allocator; the descriptor table the file system works on is the one of the current task, loaded
  from the task and stored back around every operation. Access of the kernel to user memory goes through the active page
  directory; an access to an address that is not mapped is a page fault, which halts the machine (\<open>None\<close>).
\<close>

type_synonym machine = "task_st fs_st"

section \<open>User memory\<close>

definition mem_rd :: "u32 \<Rightarrow> machine \<Rightarrow> u8 option" where
  "mem_rd a s =
     (if mapped a (active_dir (hs s)) (hs s) then Some (pmem (hs s) (get_phys a (active_dir (hs s)) (hs s))) else None)"

definition mem_wr :: "u32 \<Rightarrow> u8 \<Rightarrow> machine \<Rightarrow> machine option" where
  "mem_wr a b s =
     (if mapped a (active_dir (hs s)) (hs s) then Some (s\<lparr>hs := vwrite a b (hs s)\<rparr>) else None)"

fun mem_rds :: "u32 \<Rightarrow> nat \<Rightarrow> machine \<Rightarrow> u8 list option" where
  "mem_rds a 0 s = Some []"
| "mem_rds a (Suc n) s = do { b \<leftarrow> mem_rd a s; bs \<leftarrow> mem_rds (a + 1) n s; Some (b # bs) }"

text \<open>What a routine stores through a pointer; \<open>None\<close> is a byte it leaves alone.\<close>

fun mem_wrs :: "u32 \<Rightarrow> u8 option list \<Rightarrow> machine \<Rightarrow> machine option" where
  "mem_wrs a [] s = Some s"
| "mem_wrs a (b # bs) s =
     do { s \<leftarrow> (case b of Some v \<Rightarrow> mem_wr a v s | None \<Rightarrow> Some s); mem_wrs (a + 1) bs s }"

text \<open>A C string; \<open>None\<close> also if it never ends.\<close>

partial_function (option) mem_str :: "u32 \<Rightarrow> machine \<Rightarrow> u8 list option" where
  "mem_str a s = do {
     b \<leftarrow> mem_rd a s;
     if b = 0 then Some [] else do { bs \<leftarrow> mem_str (a + 1) s; Some (b # bs) }
   }"

text \<open>Words are stored with the least significant byte first.\<close>

fun le_word :: "u8 list \<Rightarrow> u32" where
  "le_word [] = 0"
| "le_word (b # bs) = ucast b + 256 * le_word bs"

definition mem_rd32 :: "u32 \<Rightarrow> machine \<Rightarrow> u32 option" where
  "mem_rd32 a s = map_option le_word (mem_rds a 4 s)"

definition le_bytes :: "u32 \<Rightarrow> u8 list" where
  "le_bytes w = map (\<lambda>i. ucast (drop_bit (8 * i) w)) [0..<4]"

definition mem_wr32 :: "u32 \<Rightarrow> u32 \<Rightarrow> machine \<Rightarrow> machine option" where
  "mem_wr32 a w s = mem_wrs a (map Some (le_bytes w)) s"

section \<open>The current task\<close>

definition cur :: "machine \<Rightarrow> task_t" where
  "cur s = theap (hs s) (cur_task (hs s))"

definition set_cur :: "(task_t \<Rightarrow> task_t) \<Rightarrow> machine \<Rightarrow> machine" where
  "set_cur f s = s\<lparr>hs := set_task (cur_task (hs s)) f (hs s)\<rparr>"

text \<open>An operation of the file system, on the descriptors of the current task.\<close>

definition load_files :: "machine \<Rightarrow> machine" where
  "load_files s = s\<lparr>files := t_files (cur s)\<rparr>"

definition save_files :: "machine \<Rightarrow> machine" where
  "save_files s = set_cur (\<lambda>t. t\<lparr>t_files := files s\<rparr>) s"

definition on_files :: "(machine \<Rightarrow> ('a \<times> machine) option) \<Rightarrow> machine \<Rightarrow> ('a \<times> machine) option" where
  "on_files f s = do { (r, s) \<leftarrow> f (load_files s); Some (r, save_files s) }"

text \<open>An operation on tasks and memory; what it assigns to \<open>errno\<close> becomes the \<open>errno\<close> of the machine.\<close>

definition on_tasks :: "(task_st \<Rightarrow> ('a \<times> task_st) option) \<Rightarrow> machine \<Rightarrow> ('a \<times> machine) option" where
  "on_tasks f s = do {
     (r, h) \<leftarrow> f ((hs s)\<lparr>kerrno := None\<rparr>);
     Some (r, s\<lparr>hs := h, errno := (case kerrno h of Some e \<Rightarrow> Some e | None \<Rightarrow> errno s)\<rparr>)
   }"

end
