(* ===== verification/Exec.thy ===== *)
theory Exec
  imports Machine
begin

text \<open>
  Loading programs: \<^verbatim>\<open>kernel/src/loader/load_elf.c\<close>, \<^verbatim>\<open>kernel/src/loader/elf.h\<close> and \<open>execve\<close> of
  \<^verbatim>\<open>kernel/src/loader/exec.c\<close>. The program image is the list of bytes in the kernel's buffer; a header that lies outside
  of it is \<open>None\<close>. The copies of the argument strings on the kernel heap are pairs of their address and their bytes.
\<close>

section \<open>ELF images\<close>

record elf32_ehdr =
  e_phoff :: u32
  e_phnum :: nat

record elf32_phdr =
  p_type :: u32
  p_offset :: u32
  p_vaddr :: u32
  p_filesz :: u32
  p_memsz :: u32
  p_flags :: u32

text \<open>\<open>n\<close> bytes of the image from offset \<open>off\<close> on.\<close>

definition image_at :: "u8 list \<Rightarrow> nat \<Rightarrow> nat \<Rightarrow> u8 list option" where
  "image_at data off n = (if off + n \<le> length data then Some (take n (drop off data)) else None)"

definition image_word :: "u8 list \<Rightarrow> nat \<Rightarrow> nat \<Rightarrow> u32 option" where
  "image_word data off n = map_option le_word (image_at data off n)"

definition elf_header :: "u8 list \<Rightarrow> elf32_ehdr option" where
  "elf_header data = do {
     phoff \<leftarrow> image_word data 28 4;
     phnum \<leftarrow> image_word data 44 2;
     Some \<lparr>e_phoff = phoff, e_phnum = unat phnum\<rparr>
   }"

definition elf_phdr :: "u8 list \<Rightarrow> nat \<Rightarrow> elf32_phdr option" where
  "elf_phdr data off = do {
     ty \<leftarrow> image_word data off 4;
     offset \<leftarrow> image_word data (off + 4) 4;
     vaddr \<leftarrow> image_word data (off + 8) 4;
     filesz \<leftarrow> image_word data (off + 16) 4;
     memsz \<leftarrow> image_word data (off + 20) 4;
     flags \<leftarrow> image_word data (off + 24) 4;
     Some \<lparr>p_type = ty, p_offset = offset, p_vaddr = vaddr, p_filesz = filesz, p_memsz = memsz, p_flags = flags\<rparr>
   }"

abbreviation (input) PT_LOAD :: u32 where "PT_LOAD \<equiv> 1"
abbreviation (input) PF_W :: u32 where "PF_W \<equiv> 2"

text \<open>The pages of a segment; \<open>False\<close> is \<open>goto bad\<close>. The counter \<open>sz\<close> wraps for a segment of nearly 4 GiB.\<close>

partial_function (option) elf_alloc ::
    "(task_st \<Rightarrow> u32 \<Rightarrow> u32 \<times> task_st) \<Rightarrow> elf32_phdr \<Rightarrow> u32 \<Rightarrow> task_st \<Rightarrow> (bool \<times> task_st) option" where
  "elf_alloc km ph sz s =
     (if sz < p_memsz ph then
        let (frame, s) = frame_alloc s;
            (m, s) = page_map km (p_vaddr ph + sz) frame
                       (if p_flags ph AND PF_W \<noteq> 0 then PF_PRES OR PF_USER OR PF_RW else PF_PRES OR PF_USER)
                       (t_page_dir (theap s (cur_task s))) s in
        if m = 0 then Some (False, s) else elf_alloc km ph (sz + PAGE_SIZE) s
      else Some (True, s))"

text \<open>\<open>memcpy\<close> of bytes of the image to virtual memory.\<close>

fun vputs :: "u32 \<Rightarrow> u8 list \<Rightarrow> 'z paging_st_scheme \<Rightarrow> 'z paging_st_scheme" where
  "vputs a [] s = s"
| "vputs a (b # bs) s = vputs (a + 1) bs (vwrite a b s)"

text \<open>The loop over the program headers; the result is \<open>None\<close> for \<open>goto bad\<close>, else the end of the last segment.\<close>

fun elf_segments ::
    "(task_st \<Rightarrow> u32 \<Rightarrow> u32 \<times> task_st) \<Rightarrow> u8 list \<Rightarrow> nat \<Rightarrow> u32 \<Rightarrow> u32 \<Rightarrow> task_st \<Rightarrow> (u32 option \<times> task_st) option" where
  "elf_segments km data 0 offset ret s = Some (Some ret, s)"
| "elf_segments km data (Suc n) offset ret s = do {
     ph \<leftarrow> elf_phdr data (unat offset);
     if p_type ph \<noteq> PT_LOAD then elf_segments km data n (offset + 32) ret s
     else if p_memsz ph < p_filesz ph then Some (None, s)
     else do {
       (ok, s) \<leftarrow> elf_alloc km ph 0 s;
       if \<not> ok then Some (None, s)
       else do {
         let s = vmemset (p_vaddr ph) 0 (unat (p_memsz ph)) s;
         bs \<leftarrow> image_at data (unat (p_offset ph)) (unat (p_filesz ph));
         let s = vputs (p_vaddr ph) bs s;
         elf_segments km data n (offset + 32) (p_vaddr ph + p_memsz ph) s
       }
     }
   }"

definition elf_magic :: "u8 list" where
  "elf_magic = [0x7F, 0x45, 0x4C, 0x46]"

definition load_elf :: "(task_st \<Rightarrow> u32 \<Rightarrow> u32 \<times> task_st) \<Rightarrow> u8 list \<Rightarrow> task_st \<Rightarrow> (u32 \<times> task_st) option" where
  "load_elf km data s = do {
     magic \<leftarrow> image_at data 0 4;
     if magic \<noteq> elf_magic then Some (- 1, s\<lparr>kerrno := Some ENOEXEC\<rparr>)
     else do {
       hdr \<leftarrow> elf_header data;
       (r, s) \<leftarrow> elf_segments km data (e_phnum hdr) (e_phoff hdr) UMEM_BEGIN s;
       case r of
         None \<Rightarrow> Some (- 1, s\<lparr>kerrno := Some ENOEXEC\<rparr>)
       | Some ret \<Rightarrow> Some (ret, s)
     }
   }"

section \<open>execve\<close>

partial_function (option) count_loop :: "u32 \<Rightarrow> nat \<Rightarrow> machine \<Rightarrow> nat option" where
  "count_loop v i s = do {
     p \<leftarrow> mem_rd32 (v + of_nat (4 * i)) s;
     if p \<noteq> 0 then count_loop v (i + 1) s else Some i
   }"

definition count :: "u32 \<Rightarrow> machine \<Rightarrow> nat option" where
  "count v s = (if v = 0 then Some 0 else count_loop v 0 s)"

definition push1 :: "u32 \<Rightarrow> u8 \<Rightarrow> machine \<Rightarrow> (u32 \<times> machine) option" where
  "push1 sp b s = do { s \<leftarrow> mem_wr (sp - 1) b s; Some (sp - 1, s) }"

definition push4 :: "u32 \<Rightarrow> u32 \<Rightarrow> machine \<Rightarrow> (u32 \<times> machine) option" where
  "push4 sp w s = do {
     (sp, s) \<leftarrow> push1 sp (ucast (drop_bit 24 w)) s;
     (sp, s) \<leftarrow> push1 sp (ucast (drop_bit 16 w)) s;
     (sp, s) \<leftarrow> push1 sp (ucast (drop_bit 8 w)) s;
     push1 sp (ucast w) s
   }"

text \<open>Copies of the strings of a vector; \<open>None\<close> inside is the return of NULL when there is no memory.\<close>

fun exec_copy_strs :: "task_st env \<Rightarrow> u32 \<Rightarrow> nat list \<Rightarrow> machine \<Rightarrow> ((u32 \<times> u8 list) list option \<times> machine) option" where
  "exec_copy_strs e v [] s = Some (Some [], s)"
| "exec_copy_strs e v (i # is) s = do {
     p \<leftarrow> mem_rd32 (v + of_nat (4 * i)) s;
     str \<leftarrow> mem_str p s;
     let (a, s) = fs_kmalloc (e_km e) (of_nat (length str + 1)) s;
     if a = 0 then Some (None, s)
     else do {
       (r, s) \<leftarrow> exec_copy_strs e v is s;
       Some (map_option (\<lambda>xs. (a, str) # xs) r, s)
     }
   }"

text \<open>The vector itself and the strings: the address of the vector (NULL if empty) and the copies.\<close>

definition exec_copy :: "task_st env \<Rightarrow> u32 \<Rightarrow> nat \<Rightarrow> machine \<Rightarrow> ((u32 \<times> (u32 \<times> u8 list) list) option \<times> machine) option" where
  "exec_copy e v n s =
     (if n > 0 then
        let (a, s) = fs_kmalloc (e_km e) (of_nat (4 * n)) s in
        if a = 0 then Some (None, s)
        else do {
          (r, s) \<leftarrow> exec_copy_strs e v [0..<n] s;
          Some (map_option (\<lambda>xs. (a, xs)) r, s)
        }
      else Some (Some (0, []), s))"

text \<open>Freeing a vector, from the last string to the first, then the vector, as the error exits do.\<close>

definition exec_free :: "task_st env \<Rightarrow> u32 \<times> (u32 \<times> u8 list) list \<Rightarrow> machine \<Rightarrow> machine" where
  "exec_free e v s = fs_kfree (e_kf e) (fst v) (fold (\<lambda>(a, _). fs_kfree (e_kf e) a) (rev (snd v)) s)"

text \<open>The loop that frees the user pages; it ends when \<open>page\<close> wraps around.\<close>

definition exec_clean_page :: "(task_st \<Rightarrow> u32 \<Rightarrow> u32 \<times> task_st) \<Rightarrow> u32 \<Rightarrow> task_st \<Rightarrow> u32 \<times> task_st" where
  "exec_clean_page km page s =
     (let pd = t_page_dir (theap s (cur_task s));
          flags = page_flags page pd s;
          page = (if drop_bit 16 flags AND PF_PRES = 0 then page + 1024 * PAGE_SIZE else page);
          s = (if flags AND (PF_PRES OR PF_USER) = PF_PRES OR PF_USER
               then snd (page_map km page 0 0 pd (frame_free (get_phys page pd s) s)) else s) in
      (page + PAGE_SIZE, s))"

partial_function (option) exec_clean :: "(task_st \<Rightarrow> u32 \<Rightarrow> u32 \<times> task_st) \<Rightarrow> u32 \<Rightarrow> task_st \<Rightarrow> task_st option" where
  "exec_clean km page s =
     (if page < USTACK_END \<and> page \<ge> UMEM_BEGIN then
        let (page, s) = exec_clean_page km page s in exec_clean km page s
      else Some s)"

text \<open>Pushing strings, last first; the result are their addresses in the order of the vector.\<close>

fun push_bytes :: "u32 \<Rightarrow> u8 list \<Rightarrow> machine \<Rightarrow> (u32 \<times> machine) option" where
  "push_bytes sp [] s = Some (sp, s)"
| "push_bytes sp (b # bs) s = do { (sp, s) \<leftarrow> push1 sp b s; push_bytes sp bs s }"

fun push_strs :: "task_st env \<Rightarrow> u32 \<Rightarrow> (u32 \<times> u8 list) list \<Rightarrow> u32 list \<Rightarrow> machine \<Rightarrow> (u32 \<times> u32 list \<times> machine) option" where
  "push_strs e sp [] ps s = Some (sp, ps, s)"
| "push_strs e sp ((a, str) # xs) ps s = do {
     (sp, s) \<leftarrow> push1 sp 0 s;
     (sp, s) \<leftarrow> push_bytes sp (rev str) s;
     push_strs e sp xs (sp # ps) (fs_kfree (e_kf e) a s)
   }"

fun push_ptrs :: "u32 \<Rightarrow> u32 list \<Rightarrow> machine \<Rightarrow> (u32 \<times> machine) option" where
  "push_ptrs sp [] s = Some (sp, s)"
| "push_ptrs sp (p # ps) s = do { (sp, s) \<leftarrow> push4 sp p s; push_ptrs sp ps s }"

definition push_vector :: "task_st env \<Rightarrow> u32 \<Rightarrow> u32 \<times> (u32 \<times> u8 list) list \<Rightarrow> machine \<Rightarrow> (u32 \<times> machine) option" where
  "push_vector e sp v s =
     (if snd v \<noteq> [] then do {
        (sp, ps, s) \<leftarrow> push_strs e sp (rev (snd v)) [] s;
        let sp = sp - sp mod 4;
        (sp, s) \<leftarrow> push4 sp 0 s;
        (sp, s) \<leftarrow> push_ptrs sp (rev ps) s;
        Some (sp, fs_kfree (e_kf e) (fst v) s)
      }
      else push4 sp 0 s)"

definition exec_stack ::
    "task_st env \<Rightarrow> u32 \<times> (u32 \<times> u8 list) list \<Rightarrow> u32 \<times> (u32 \<times> u8 list) list \<Rightarrow> machine
     \<Rightarrow> ((u32 \<times> u32 \<times> u32) \<times> machine) option" where
  "exec_stack e args env s = do {
     (ret0, s) \<leftarrow> push_vector e USTACK_END env s;
     (ret1, s) \<leftarrow> push_vector e ret0 args s;
     (ret2, s) \<leftarrow> push4 ret1 (of_nat (length (snd args))) s;
     Some ((ret0, ret1, ret2), s)
   }"

fun close_on_exec :: "task_st env \<Rightarrow> nat list \<Rightarrow> machine \<Rightarrow> machine option" where
  "close_on_exec e [] s = Some s"
| "close_on_exec e (i # is) s = do {
     (_, s) \<leftarrow> (if oflag (t_files (cur s) i) AND FD_CLOEXEC \<noteq> 0 then on_files (close_lib e (int i)) s else Some (0, s));
     close_on_exec e is s
   }"

text \<open>The image is loaded and the heap of the task set up; \<open>False\<close> is \<open>goto bad\<close>.\<close>

definition exec_image :: "task_st env \<Rightarrow> (task_st \<Rightarrow> u32 \<Rightarrow> u32 \<times> task_st) \<Rightarrow> (nat \<Rightarrow> u8) \<Rightarrow> int \<Rightarrow> u32 \<Rightarrow> machine \<Rightarrow> (bool \<times> machine) option" where
  "exec_image e km_pa junk fd sz s = do {
     (_, s) \<leftarrow> on_tasks (\<lambda>h. map_option (\<lambda>h. ((), h)) (exec_clean km_pa UMEM_BEGIN h)) s;
     (m, s) \<leftarrow> on_tasks (\<lambda>h. let (frame, h) = frame_alloc h in
       Some (page_map km_pa USTACK_END frame (PF_PRES OR PF_USER OR PF_RW) (t_page_dir (theap h (cur_task h))) h)) s;
     if m = 0 then Some (False, s)
     else do {
       ((r, bs), s) \<leftarrow> on_files (\<lambda>s. map_option (\<lambda>(r, bs, s). ((r, bs), s)) (read_lib e fd True sz s)) s;
       if r \<noteq> sint sz then Some (False, s)
       else do {
         let data = map (\<lambda>i. if i < length bs then case bs ! i of Some b \<Rightarrow> b | None \<Rightarrow> junk i else junk i) [0..<unat sz];
         (addr, s) \<leftarrow> on_tasks (load_elf km_pa data) s;
         if sint addr < 0 then Some (False, s)
         else
           let begin = (addr + 1024 * PAGE_SIZE) AND NOT (1024 * PAGE_SIZE - 1) in
           Some (True, set_cur (\<lambda>t. t\<lparr>uheap_begin := begin, uheap_end := begin\<rparr>) s)
       }
     }
   }"

definition execve ::
    "task_st env \<Rightarrow> (task_st \<Rightarrow> u32 \<Rightarrow> u32 \<times> task_st) \<Rightarrow> (nat \<Rightarrow> u8) \<Rightarrow> u32 \<Rightarrow> u32 \<Rightarrow> u32 \<Rightarrow> machine
     \<Rightarrow> ((u32 \<times> u32 \<times> u32) option \<times> machine) option" where
  "execve e km_pa junk path argv envp s = do {
     argc \<leftarrow> count argv s;
     envc \<leftarrow> count envp s;
     (args, s) \<leftarrow> exec_copy e argv argc s;
     case args of None \<Rightarrow> Some (None, s) | Some args \<Rightarrow> do {
       (env, s) \<leftarrow> exec_copy e envp envc s;
       case env of None \<Rightarrow> Some (None, s) | Some env \<Rightarrow> do {
         name \<leftarrow> (if path = 0 then Some None else map_option Some (mem_str path s));
         (fd, s) \<leftarrow> on_files (open_lib e name O_RDONLY 0) s;
         if fd < 0 then Some (None, set_errno ENOENT (exec_free e env (exec_free e args s)))
         else do {
           (sz, s) \<leftarrow> on_files (lseek_lib fd 0 2) s;
           (_, s) \<leftarrow> on_files (lseek_lib fd 0 0) s;
           let (buf, s) = fs_kmalloc (e_km e) (word_of_int sz) s;
           if buf = 0 then Some (None, set_errno ENOMEM (exec_free e env (exec_free e args s)))
           else do {
             (ok, s) \<leftarrow> exec_image e km_pa junk fd (word_of_int sz) s;
             if \<not> ok then do {
               let s = fs_kfree (e_kf e) buf (exec_free e env (exec_free e args s));
               (_, s) \<leftarrow> on_files (close_lib e fd) s;
               Some (None, s)
             }
             else do {
               (_, s) \<leftarrow> on_files (close_lib e fd) (fs_kfree (e_kf e) buf s);
               s \<leftarrow> close_on_exec e [0..<32] s;
               (ret, s) \<leftarrow> exec_stack e args env s;
               Some (Some ret, s)
             }
           }
         }
       }
     }
   }"


section \<open>The stack of a new program\<close>

text \<open>
  \<open>stack_page s lo hi f\<close>: the addresses from \<open>lo\<close> below \<open>hi\<close> are mapped to consecutive bytes of physical memory from \<open>f\<close> on,
  by a page table of their own; \<open>view lo hi f s\<close> is that memory, by address.
\<close>

definition stack_page :: "machine \<Rightarrow> nat \<Rightarrow> nat \<Rightarrow> u32 \<Rightarrow> bool" where
  "stack_page s lo hi f \<longleftrightarrow> hi \<le> lo + 4096 \<and> hi < 4294967296 \<and>
     (\<forall>n. lo \<le> n \<and> n < hi \<longrightarrow> mapped (of_nat n) (active_dir (hs s)) (hs s)
        \<and> tables (dirs (hs s) (active_dir (hs s))) (dir_i (of_nat n)) \<notin> tables (dirs (hs s) (cur_page_dir (hs s))) ` {..<64}
        \<and> get_phys (of_nat n) (active_dir (hs s)) (hs s) = f + of_nat (n - lo))"

definition view :: "nat \<Rightarrow> nat \<Rightarrow> u32 \<Rightarrow> machine \<Rightarrow> mem" where
  "view lo hi f s n = (if lo \<le> n \<and> n < hi then pmem (hs s) (f + of_nat (n - lo)) else 0)"

lemma mem_rd_view: "stack_page s lo hi f \<Longrightarrow> lo \<le> n \<Longrightarrow> n < hi \<Longrightarrow> mem_rd (of_nat n) s = Some (view lo hi f s n)"
  by (simp add: stack_page_def mem_rd_def view_def)

lemma of_nat_page_inj:
  assumes "m < 4096" "n < 4096" "(f + of_nat m :: u32) = f + of_nat n"
  shows "m = n"
proof -
  have "unat (of_nat m :: u32) = m" "unat (of_nat n :: u32) = n" using assms(1,2) by (simp_all add: unat_of_nat_u32)
  then show ?thesis using assms(3) by (metis add_left_cancel)
qed

lemma mem_wr_view:
  assumes "stack_page s lo hi f" "lo \<le> n" "n < hi"
  shows "\<exists>s'. mem_wr (of_nat n) b s = Some s' \<and> stack_page s' lo hi f \<and> view lo hi f s' = (view lo hi f s)(n := b)"
proof -
  let ?h = "(hs s)\<lparr>pmem := (pmem (hs s))(f + of_nat (n - lo) := b)\<rparr>"
  have w: "mem_wr (of_nat n) b s = Some (s\<lparr>hs := ?h\<rparr>)"
    using assms by (simp add: mem_wr_def vwrite_def stack_page_def)
  have "view lo hi f (s\<lparr>hs := ?h\<rparr>) x = ((view lo hi f s)(n := b)) x" for x
  proof (cases "lo \<le> x \<and> x < hi")
    case True
    have "x - lo < 4096" "n - lo < 4096" using True assms by (auto simp: stack_page_def)
    then have "(f + of_nat (x - lo) = f + of_nat (n - lo)) = (x = n)"
      using of_nat_page_inj [of "x - lo" "n - lo" f] True assms(2) by auto
    then show ?thesis using True by (simp add: view_def del: add_left_cancel)
  next
    case False
    then show ?thesis using assms by (auto simp: view_def)
  qed
  moreover have "stack_page (s\<lparr>hs := ?h\<rparr>) lo hi f" using assms(1) by (simp add: stack_page_def)
  ultimately show ?thesis using w by (intro exI [of _ "s\<lparr>hs := ?h\<rparr>"]) (simp add: fun_eq_iff)
qed

text \<open>The bytes \<open>bs\<close> put at \<open>a\<close>, and what a push of them makes of the memory.\<close>

definition put :: "nat \<Rightarrow> u8 list \<Rightarrow> mem \<Rightarrow> mem" where
  "put a bs m x = (if a \<le> x \<and> x < a + length bs then bs ! (x - a) else m x)"

definition pushed :: "nat \<Rightarrow> nat \<Rightarrow> u32 \<Rightarrow> nat \<Rightarrow> u8 list \<Rightarrow> machine \<Rightarrow> machine \<Rightarrow> bool" where
  "pushed lo hi f a bs s s' \<longleftrightarrow> stack_page s' lo hi f \<and> view lo hi f s' = put a bs (view lo hi f s)"

lemma put_Nil [simp]: "put a [] m = m"
  by (auto simp: put_def fun_eq_iff)

lemma put_put: "put a bs (put (a + length bs) cs m) = put a (bs @ cs) m"
  by (auto simp: put_def fun_eq_iff nth_append)

lemma pushed_trans:
  "pushed lo hi f (a + length cs) bs s s1 \<Longrightarrow> pushed lo hi f a cs s1 s2 \<Longrightarrow> pushed lo hi f a (cs @ bs) s s2"
  by (simp add: pushed_def put_put)

lemma push1_pushed:
  assumes "stack_page s lo hi f" "lo \<le> a" "a < hi"
  shows "\<exists>s'. push1 (of_nat (Suc a)) b s = Some (of_nat a, s') \<and> pushed lo hi f a [b] s s'"
proof -
  obtain s' where "mem_wr (of_nat a) b s = Some s'" "stack_page s' lo hi f" "view lo hi f s' = (view lo hi f s)(a := b)"
    using mem_wr_view [OF assms] by blast
  moreover have "m(a := b) = put a [b] m" for m by (auto simp: put_def fun_eq_iff)
  ultimately show ?thesis by (auto simp: push1_def pushed_def)
qed

lemma push_bytes_pushed:
  assumes "stack_page s lo hi f" "lo \<le> a" "a + length bs \<le> hi"
  shows "\<exists>s'. push_bytes (of_nat (a + length bs)) bs s = Some (of_nat a, s') \<and> pushed lo hi f a (rev bs) s s'"
  using assms
proof (induction bs arbitrary: s)
  case Nil
  then show ?case by (simp add: pushed_def)
next
  case (Cons b bs)
  obtain s1 where s1: "push1 (of_nat (Suc (a + length bs))) b s = Some (of_nat (a + length bs), s1)"
      "pushed lo hi f (a + length bs) [b] s s1"
    using push1_pushed [OF Cons.prems(1), of "a + length bs" b] Cons.prems by auto
  have "stack_page s1 lo hi f" using s1(2) by (simp add: pushed_def)
  then obtain s2 where s2: "push_bytes (of_nat (a + length bs)) bs s1 = Some (of_nat a, s2)" "pushed lo hi f a (rev bs) s1 s2"
    using Cons.IH [of s1] Cons.prems by auto
  have "pushed lo hi f a (rev bs @ [b]) s s2" by (rule pushed_trans [OF _ s2(2)]) (use s1(2) in simp)
  then show ?case using s1(1) s2(1) by (simp del: of_nat_add of_nat_Suc add: add.assoc)
qed

lemma length_le_bytes [simp]: "length (le_bytes w) = 4"
  by (simp add: le_bytes_def)

lemma length_words [simp]: "length (concat (map le_bytes ws)) = 4 * length ws"
  by (induction ws) simp_all

lemma push4_bytes: "push4 sp w s = push_bytes sp (rev (le_bytes w)) s"
  by (simp add: push4_def le_bytes_def upt_rec case_prod_unfold)


text \<open>The blocks \<open>ps\<close> of the kernel heap are in use; \<open>kfree\<close> of one of them leaves the stack alone.\<close>

definition held :: "u32 list \<Rightarrow> machine \<Rightarrow> bool" where
  "held ps s \<longleftrightarrow> kheap_inv (hs s) \<and> distinct ps \<and> (\<forall>p \<in> set ps. \<exists>m. (unat p, m) \<in> kheap_used (hs s))"

lemma kheap_pmem: "kheap_is (h\<lparr>pmem := m\<rparr>) bs = kheap_is h bs" for h :: task_st
  by (simp add: kheap_is_def kvm_ok_pmem kheap_top_def)

lemma held_pmem: "held ps (s\<lparr>hs := (hs s)\<lparr>pmem := m\<rparr>\<rparr>) = held ps s"
  by (simp add: held_def kheap_inv_def kheap_used_def kheap_pmem)

lemma mem_wr_held: "mem_wr a b s = Some s' \<Longrightarrow> held ps s' = held ps s"
  by (auto simp: mem_wr_def vwrite_def held_pmem split: if_splits)

lemma push_bytes_held: "push_bytes sp bs s = Some (sp', s') \<Longrightarrow> held ps s' = held ps s"
  by (induction bs arbitrary: sp s) (auto simp: push1_def bind_eq_Some_iff dest: mem_wr_held)

lemma push_ptrs_held: "push_ptrs sp ws s = Some (sp', s') \<Longrightarrow> held ps s' = held ps s"
proof (induction ws arbitrary: sp s)
  case (Cons w ws)
  then obtain sp1 s1 where "push4 sp w s = Some (sp1, s1)" "push_ptrs sp1 ws s1 = Some (sp', s')"
    by (auto simp: bind_eq_Some_iff)
  then show ?case using Cons.IH push_bytes_held unfolding push4_bytes by metis
qed simp

lemma kfree_held:
  assumes "e_kf e = kernel_free d" "held (p # ps) s"
  shows "held ps (fs_kfree (e_kf e) p s)" "kernel_only (hs s) (hs (fs_kfree (e_kf e) p s))"
proof -
  obtain m where m: "kheap_inv (hs s)" "(unat p, m) \<in> kheap_used (hs s)" using assms(2) by (auto simp: held_def)
  show "kernel_only (hs s) (hs (fs_kfree (e_kf e) p s))"
    using kernel_free_kernel_only [OF m] assms(1) by (simp add: fs_kfree_def)
  have "\<exists>k. (unat q, k) \<in> kheap_used (kernel_free d (hs s) p)" if "q \<in> set ps" for q
  proof -
    have "q \<noteq> p" using that assms(2) by (auto simp: held_def)
    then have "unat q \<noteq> unat p" by (simp add: word_unat_eq_iff)
    then show ?thesis using that assms(2) kalloc.free_used [OF m, of d] by (auto simp: held_def)
  qed
  then show "held ps (fs_kfree (e_kf e) p s)"
    using assms kalloc.free_inv [OF m, of d] by (simp add: held_def fs_kfree_def)
qed

lemma kfree_keeps_page:
  assumes "kernel_only (hs s) (hs s')" "stack_page s lo hi f"
  shows "stack_page s' lo hi f" "view lo hi f s' = view lo hi f s"
  using assms by (auto simp: stack_page_def kernel_only_def view_def fun_eq_iff mapped_def get_phys_def Let_def)

text \<open>Strings one behind the other, each with its NUL, and their addresses.\<close>

definition blob :: "u8 list list \<Rightarrow> u8 list" where
  "blob strs = concat (map (\<lambda>str. str @ [0]) strs)"

fun addrs :: "nat \<Rightarrow> u8 list list \<Rightarrow> nat list" where
  "addrs a [] = []"
| "addrs a (str # strs) = a # addrs (a + length str + 1) strs"

lemma blob_simps [simp]: "blob [] = []" "blob (str # strs) = str @ 0 # blob strs" "blob (xs @ ys) = blob xs @ blob ys"
  by (simp_all add: blob_def)

lemma addrs_append: "addrs a (xs @ ys) = addrs a xs @ addrs (a + length (blob xs)) ys"
  by (induction xs arbitrary: a) (simp_all add: add.assoc)

lemma length_addrs [simp]: "length (addrs a strs) = length strs"
  by (induction strs arbitrary: a) simp_all

lemma push_strs_pushed:
  assumes kf: "e_kf e = kernel_free d" and sp: "stack_page s lo hi f" "lo \<le> a"
    "a + length (blob (rev (map snd xs))) \<le> hi" "held (map fst xs @ hp) s"
  shows "\<exists>s'. push_strs e (of_nat (a + length (blob (rev (map snd xs))))) xs ps s
      = Some (of_nat a, map of_nat (addrs a (rev (map snd xs))) @ ps, s')
    \<and> pushed lo hi f a (blob (rev (map snd xs))) s s' \<and> held hp s'"
  using sp
proof (induction xs arbitrary: s ps)
  case Nil
  then show ?case by (simp add: pushed_def)
next
  case (Cons x xs)
  obtain k str where x: "x = (k, str)" by fastforce
  define b where "b = a + length (blob (rev (map snd xs)))"
  have len: "a + length (blob (rev (map snd (x # xs)))) = Suc (b + length str)" by (simp add: x b_def)
  have hi: "Suc (b + length str) \<le> hi" "lo \<le> b" using Cons.prems len by (auto simp: b_def)
  obtain s1 where s1: "push1 (of_nat (Suc (b + length str))) 0 s = Some (of_nat (b + length str), s1)"
      "pushed lo hi f (b + length str) [0] s s1"
    using push1_pushed [OF Cons.prems(1), of "b + length str" 0] hi by auto
  have "stack_page s1 lo hi f" using s1(2) by (simp add: pushed_def)
  then obtain s2 where s2: "push_bytes (of_nat (b + length str)) (rev str) s1 = Some (of_nat b, s2)" "pushed lo hi f b str s1 s2"
    using push_bytes_pushed [of s1 lo hi f b "rev str"] hi by auto
  have p2: "pushed lo hi f b (str @ [0]) s s2" by (rule pushed_trans [OF _ s2(2)]) (use s1(2) in simp)
  have "held (k # map fst xs @ hp) s2"
    using Cons.prems(4) s1(1) push_bytes_held [OF s2(1)] by (auto simp: x push1_def bind_eq_Some_iff mem_wr_held)
  note free = kfree_held [OF kf this]
  define s3 where "s3 = fs_kfree (e_kf e) k s2"
  have p3: "pushed lo hi f b (str @ [0]) s s3" "stack_page s3 lo hi f" "held (map fst xs @ hp) s3"
    using p2 kfree_keeps_page [OF free(2), of lo hi f] free(1) by (simp_all add: pushed_def s3_def)
  obtain s' where s': "push_strs e (of_nat b) xs (of_nat b # ps) s3
      = Some (of_nat a, map of_nat (addrs a (rev (map snd xs))) @ of_nat b # ps, s')"
      "pushed lo hi f a (blob (rev (map snd xs))) s3 s'" "held hp s'"
    using Cons.IH [OF p3(2) Cons.prems(2) _ p3(3), of "of_nat b # ps"] hi by (auto simp: b_def)
  have "pushed lo hi f a (blob (rev (map snd xs)) @ (str @ [0])) s s'"
    by (rule pushed_trans [OF _ s'(2)]) (use p3(1) in \<open>simp add: b_def\<close>)
  then show ?case unfolding len using s1(1) s2(1) s'(1,3)
    by (simp add: x addrs_append s3_def b_def [symmetric] del: of_nat_Suc of_nat_add)
qed

lemma push_ptrs_pushed:
  assumes "stack_page s lo hi f" "lo \<le> a" "a + 4 * length ps \<le> hi"
  shows "\<exists>s'. push_ptrs (of_nat (a + 4 * length ps)) ps s = Some (of_nat a, s')
    \<and> pushed lo hi f a (concat (map le_bytes (rev ps))) s s'"
  using assms
proof (induction ps arbitrary: s)
  case Nil
  then show ?case by (simp add: pushed_def)
next
  case (Cons w ps)
  define b where "b = a + 4 * length ps"
  have l4: "length (le_bytes w) = 4" by (simp add: le_bytes_def)
  obtain s1 where s1: "push4 (of_nat (b + 4)) w s = Some (of_nat b, s1)" "pushed lo hi f b (le_bytes w) s s1"
    using push_bytes_pushed [OF Cons.prems(1), of b "rev (le_bytes w)"] Cons.prems l4 by (auto simp: push4_bytes b_def)
  have "stack_page s1 lo hi f" using s1(2) by (simp add: pushed_def)
  then obtain s' where s': "push_ptrs (of_nat b) ps s1 = Some (of_nat a, s')"
      "pushed lo hi f a (concat (map le_bytes (rev ps))) s1 s'"
    using Cons.IH [of s1] Cons.prems by (auto simp: b_def)
  have lc: "length (concat (map le_bytes (rev ps))) = 4 * length ps"
    by (induction ps) (simp_all add: le_bytes_def)
  have "pushed lo hi f a (concat (map le_bytes (rev ps)) @ le_bytes w) s s'"
    by (rule pushed_trans [OF _ s'(2)]) (use s1(2) in \<open>simp only: lc b_def\<close>)
  moreover have e: "a + 4 * length (w # ps) = b + 4" by (simp add: b_def)
  ultimately show ?case unfolding e using s1(1) s'(1) by (simp del: of_nat_add)
qed


text \<open>Words read back.\<close>

lemma le_word_le_bytes: "le_word (le_bytes w) = w"
proof -
  define n where "n = unat w"
  have n: "n < 4294967296" using unat_u32_lt [of w] by (simp add: n_def)
  have u: "(ucast (ucast (drop_bit k w) :: u8) :: u32) = of_nat (n div 2 ^ k mod 256)" for k
    by (simp add: word_unat_eq_iff unsigned_ucast_eq unsigned_take_bit_eq unat_drop_bit_eq n_def unat_of_nat_u32
      drop_bit_eq_div [of k "unat w"] take_bit_eq_mod [of 8 "unat w div 2 ^ k"])
  have s: "n = n mod 256 + 256 * (n div 256 mod 256 + 256 * (n div 65536 mod 256 + 256 * (n div 16777216 mod 256)))"
  proof -
    have d: "n div 65536 = n div 256 div 256" "n div 16777216 = n div 256 div 256 div 256"
      by (simp_all add: div_mult2_eq [symmetric])
    have "n div 256 div 256 div 256 < 256" using n by (simp add: div_mult2_eq [symmetric] less_mult_imp_div_less)
    then show ?thesis unfolding d by (simp add: mod_mult_div_eq)
  qed
  have "le_word (le_bytes w) = of_nat (n mod 256 + 256 * (n div 256 mod 256 + 256 * (n div 65536 mod 256 + 256 * (n div 16777216 mod 256))))"
    using u [of 0] u [of 8] u [of 16] u [of 24] by (simp add: le_bytes_def upt_rec)
  also have "\<dots> = of_nat n" using s by metis
  finally show ?thesis by (simp add: n_def)
qed

definition word_at :: "mem \<Rightarrow> nat \<Rightarrow> u32" where
  "word_at m a = le_word (bytes m a 4)"

text \<open>
  A vector of strings at \<open>p\<close> in the memory from \<open>p\<close> below \<open>hi\<close>: pointers to the strings, then NULL.
\<close>

definition vector_in :: "nat \<Rightarrow> mem \<Rightarrow> nat \<Rightarrow> u8 list list \<Rightarrow> bool" where
  "vector_in hi m p strs \<longleftrightarrow> p + 4 * length strs + 4 \<le> hi \<and> word_at m (p + 4 * length strs) = 0
     \<and> (\<forall>i < length strs. \<exists>q. word_at m (p + 4 * i) = of_nat q \<and> p \<le> q \<and> q + length (strs ! i) < hi \<and> cstr m q (strs ! i))"

lemma bytes_put_other: "b + n \<le> a \<or> a + length bs \<le> b \<Longrightarrow> bytes (put a bs m) b n = bytes m b n"
  by (auto simp: bytes_eq_iff put_def)

lemma bytes_put: "bytes (put a bs m) (a + i) n = take n (drop i bs)" if "i + n \<le> length bs"
  using that by (intro nth_equalityI) (auto simp: put_def)

lemma vector_in_cong:
  assumes "vector_in hi m p strs" "\<forall>x. p \<le> x \<longrightarrow> m' x = m x"
  shows "vector_in hi m' p strs"
proof -
  have w: "word_at m' b = word_at m b" if "p \<le> b" for b
  proof -
    have "bytes m' b 4 = bytes m b 4" using that assms(2) by (simp add: bytes_eq_iff)
    then show ?thesis by (simp add: word_at_def)
  qed
  have "cstr m' q str" if "cstr m q str" "p \<le> q" for q str
    by (rule cstr_cong [OF that(1)]) (use that(2) assms(2) in simp)
  then show ?thesis using assms(1) w unfolding vector_in_def by (metis le_add1)
qed

lemma cstr_put_blob:
  assumes "i < length strs" "\<forall>str \<in> set strs. 0 \<notin> set str"
  shows "cstr (put a (blob strs) m) (addrs a strs ! i) (strs ! i) \<and> a \<le> addrs a strs ! i
    \<and> addrs a strs ! i + length (strs ! i) < a + length (blob strs)"
proof -
  define xs where "xs = take i strs"
  have s: "strs = xs @ strs ! i # drop (Suc i) strs" unfolding xs_def by (rule id_take_nth_drop [OF assms(1)])
  have i: "length xs = i" using assms(1) by (simp add: xs_def)
  have q: "addrs a strs ! i = a + length (blob xs)"
    by (subst s) (simp add: addrs_append nth_append i)
  have b: "blob strs = blob xs @ (strs ! i @ [0]) @ blob (drop (Suc i) strs)" by (subst s) simp
  have z: "0 \<notin> set (strs ! i)" using assms by simp
  have "put a (blob strs) m (a + length (blob xs) + k) = (strs ! i @ [0]) ! k" if "k \<le> length (strs ! i)" for k
    using that unfolding b by (auto simp: put_def nth_append)
  then have "cstr (put a (blob strs) m) (a + length (blob xs)) (strs ! i)"
    using z by (auto simp: cstr_iff nth_append) (metis nth_mem)
  then show ?thesis using q b by simp
qed

lemma word_at_ptrs:
  assumes "i < length ps"
  shows "word_at (put a (concat (map le_bytes ps) @ bs) m) (a + 4 * i) = ps ! i"
proof -
  have l: "length (concat (map le_bytes qs)) = 4 * length qs" for qs by (induction qs) (simp_all add: le_bytes_def)
  have "ps = take i ps @ ps ! i # drop (Suc i) ps" by (rule id_take_nth_drop [OF assms])
  then have c: "concat (map le_bytes ps) = concat (map le_bytes (take i ps)) @ le_bytes (ps ! i) @ concat (map le_bytes (drop (Suc i) ps))"
    by (metis concat.simps(2) concat_append list.simps(9) map_append)
  have "length (le_bytes (ps ! i)) = 4" by (simp add: le_bytes_def)
  then have "take 4 (drop (4 * i) (concat (map le_bytes ps) @ bs)) = le_bytes (ps ! i)"
    unfolding c using l [of "take i ps"] assms by simp
  then show ?thesis using bytes_put [of "4 * i" 4 "concat (map le_bytes ps) @ bs" a m] assms l [of ps]
    by (simp add: word_at_def le_word_le_bytes)
qed

text \<open>What \<open>push_vector\<close> takes from the stack at most, and the blocks it frees.\<close>

definition vector_room :: "u8 list list \<Rightarrow> nat" where
  "vector_room strs = length (blob strs) + 4 * length strs + 8"

definition vector_blocks :: "u32 \<times> (u32 \<times> u8 list) list \<Rightarrow> u32 list" where
  "vector_blocks v = (if snd v = [] then [] else map fst (snd v) @ [fst v])"

lemma held_rev: "held (rev ps @ x # qs) s = held ((ps @ [x]) @ qs) s"
  by (auto simp: held_def)

lemma push_vector_vector:
  assumes kf: "e_kf e = kernel_free d" and st: "stack_page s lo hi f" and hd: "held (vector_blocks v @ hp) s"
    and sp: "lo + vector_room (map snd (snd v)) \<le> sp" "sp \<le> hi" and z: "\<forall>str \<in> set (map snd (snd v)). 0 \<notin> set str"
  shows "\<exists>p s'. push_vector e (of_nat sp) v s = Some (of_nat p, s') \<and> stack_page s' lo hi f
    \<and> sp \<le> p + vector_room (map snd (snd v)) \<and> p + 4 \<le> sp \<and> vector_in hi (view lo hi f s') p (map snd (snd v))
    \<and> (\<forall>x. sp \<le> x \<longrightarrow> view lo hi f s' x = view lo hi f s x) \<and> held hp s'"
proof (cases "snd v = []")
  case True
  have 4: "sp - 4 + 4 = sp" and lo: "lo \<le> sp - 4" using sp by (simp_all add: vector_room_def)
  obtain s' where s': "push4 (of_nat (sp - 4 + 4)) 0 s = Some (of_nat (sp - 4), s')" "pushed lo hi f (sp - 4) (le_bytes 0) s s'"
    using push_bytes_pushed [OF st lo, of "rev (le_bytes 0)"] sp 4 by (auto simp: push4_bytes)
  have "word_at (view lo hi f s') (sp - 4) = 0"
    using s'(2) word_at_ptrs [of 0 "[0]" "sp - 4" "[]"] by (simp add: pushed_def)
  moreover have "\<forall>x. sp \<le> x \<longrightarrow> view lo hi f s' x = view lo hi f s x"
    using s'(2) 4 by (auto simp: pushed_def put_def le_bytes_def)
  moreover have "held hp s'" using hd True push_bytes_held [OF s'(1) [unfolded push4_bytes]] by (simp add: vector_blocks_def)
  ultimately show ?thesis using True s' sp unfolding 4
    by (intro exI [of _ "sp - 4"] exI [of _ s']) (simp add: push_vector_def vector_in_def vector_room_def pushed_def)
next
  case False
  let ?strs = "map snd (snd v)"
  define n where "n = length ?strs"
  define a where "a = sp - length (blob ?strs)"
  define b where "b = a - a mod 4"
  define p where "p = b - 4 * (n + 1)"
  have ab: "a + length (blob ?strs) = sp" "lo + 4 * n + 8 \<le> a" "b \<le> a" "a < b + 4" "p + 4 * (n + 1) = b" "lo \<le> p"
    using sp by (auto simp: a_def b_def p_def n_def vector_room_def)
  let ?ps = "map of_nat (addrs a ?strs) :: u32 list"
  obtain s1 where s1: "push_strs e (of_nat sp) (rev (snd v)) [] s = Some (of_nat a, ?ps, s1)"
      "pushed lo hi f a (blob ?strs) s s1" "held (fst v # hp) s1"
  proof -
    have "held (map fst (rev (snd v)) @ fst v # hp) s"
      using hd False held_rev [of "map fst (snd v)" "fst v" hp s] by (simp add: vector_blocks_def rev_map)
    then show thesis using that push_strs_pushed [OF kf st, of a "rev (snd v)" "fst v # hp" "[]"] ab sp by (auto simp: rev_map)
  qed
  have st1: "stack_page s1 lo hi f" and m1: "view lo hi f s1 = put a (blob ?strs) (view lo hi f s)" using s1(2) by (simp_all add: pushed_def)
  have hi: "hi < 4294967296" using st by (simp add: stack_page_def)
  have down: "(of_nat a - of_nat a mod 4 :: u32) = of_nat b"
  proof -
    have "unat (of_nat a mod 4 :: u32) = a mod 4" using ab sp hi by (simp add: unat_mod unat_of_nat_u32)
    then have "(of_nat a mod 4 :: u32) = of_nat (a mod 4)" by (metis of_nat_unat ucast_id)
    then show ?thesis by (simp add: b_def of_nat_diff)
  qed
  obtain s2 where s2: "push_ptrs (of_nat b) (0 # rev ?ps) s1 = Some (of_nat p, s2)"
      "pushed lo hi f p (concat (map le_bytes (?ps @ [0]))) s1 s2"
    using push_ptrs_pushed [OF st1, of p "0 # rev ?ps"] ab sp n_def by auto
  define s3 where "s3 = fs_kfree (e_kf e) (fst v) s2"
  have st2: "stack_page s2 lo hi f" using s2(2) by (simp add: pushed_def)
  have "held (fst v # hp) s2" using s1(3) push_ptrs_held [OF s2(1)] by blast
  note free = kfree_held [OF kf this]
  have v3: "stack_page s3 lo hi f" "view lo hi f s3 = put p (concat (map le_bytes (?ps @ [0])) @ []) (put a (blob ?strs) (view lo hi f s))"
    using kfree_keeps_page [OF free(2) st2] s2(2) m1 by (simp_all add: s3_def pushed_def)
  obtain sp2 t where t: "push4 (of_nat b) 0 s1 = Some (sp2, t)" "push_ptrs sp2 (rev ?ps) t = Some (of_nat p, s2)"
    using s2(1) by (auto simp: bind_eq_Some_iff)
  have run: "push_vector e (of_nat sp) v s = Some (of_nat p, s3)"
    using False s1(1) t by (simp add: push_vector_def down s3_def Let_def)
  let ?m1 = "put a (blob ?strs) (view lo hi f s)" and ?w = "concat (map le_bytes (?ps @ [0])) @ []"
  have lw: "length ?w = 4 * (n + 1)"
  proof -
    have "length (concat (map le_bytes qs)) = 4 * length qs" for qs by (induction qs) (simp_all add: le_bytes_def)
    from this [of "?ps @ [0]"] show ?thesis by (simp only: append_Nil2) (simp add: n_def)
  qed
  have above: "view lo hi f s3 x = ?m1 x" if "b \<le> x" for x
    unfolding v3(2) put_def [of p ?w] lw using ab that by simp
  have w: "word_at (view lo hi f s3) (p + 4 * i) = (?ps @ [0]) ! i" if "i \<le> n" for i
    unfolding v3(2) by (rule word_at_ptrs) (use that in \<open>simp add: n_def\<close>)
  have "vector_in hi (view lo hi f s3) p ?strs"
    unfolding vector_in_def n_def [symmetric]
  proof (intro conjI allI impI)
    show "p + 4 * n + 4 \<le> hi" using ab sp by simp
    show "word_at (view lo hi f s3) (p + 4 * n) = 0" using w [of n] by (simp add: n_def nth_append)
    fix i
    assume i: "i < n"
    note c = cstr_put_blob [OF i [unfolded n_def] z, of a "view lo hi f s"]
    have "cstr (view lo hi f s3) (addrs a ?strs ! i) (?strs ! i)"
      by (rule cstr_cong [OF conjunct1 [OF c]]) (use c ab above in simp)
    moreover have "word_at (view lo hi f s3) (p + 4 * i) = of_nat (addrs a ?strs ! i)"
      using w [of i] i by (simp add: n_def nth_append)
    ultimately show "\<exists>q. word_at (view lo hi f s3) (p + 4 * i) = of_nat q \<and> p \<le> q \<and> q + length (?strs ! i) < hi
        \<and> cstr (view lo hi f s3) q (?strs ! i)"
      using c ab sp by (intro exI [of _ "addrs a ?strs ! i"]) simp
  qed
  moreover have "\<forall>x. sp \<le> x \<longrightarrow> view lo hi f s3 x = view lo hi f s x"
    using above ab by (auto simp: put_def)
  moreover have "sp \<le> p + vector_room ?strs" "p + 4 \<le> sp" using ab by (auto simp: vector_room_def n_def)
  moreover have "held hp s3" using free(1) by (simp add: s3_def)
  ultimately show ?thesis using run v3(1) by blast
qed

text \<open>Reading a vector from the machine.\<close>

definition vector_at :: "machine \<Rightarrow> u32 \<Rightarrow> u8 list list \<Rightarrow> bool" where
  "vector_at s p strs \<longleftrightarrow> mem_rd32 (p + of_nat (4 * length strs)) s = Some 0
     \<and> (\<forall>i < length strs. \<exists>q. mem_rd32 (p + of_nat (4 * i)) s = Some q \<and> mem_str q s = Some (strs ! i))"

lemma mem_rds_view:
  assumes "stack_page s lo hi f" "lo \<le> a" "a + n \<le> hi"
  shows "mem_rds (of_nat a) n s = Some (bytes (view lo hi f s) a n)"
  using assms
proof (induction n arbitrary: a)
  case (Suc n)
  have "of_nat a + 1 = (of_nat (Suc a) :: u32)" by simp
  then show ?case using Suc.IH [of "Suc a"] Suc.prems mem_rd_view [of s lo hi f a] by (simp add: bytes_Suc del: of_nat_Suc)
qed simp

lemma mem_rd32_view:
  "stack_page s lo hi f \<Longrightarrow> lo \<le> a \<Longrightarrow> a + 4 \<le> hi \<Longrightarrow> mem_rd32 (of_nat a) s = Some (word_at (view lo hi f s) a)"
  by (simp add: mem_rd32_def word_at_def mem_rds_view)

lemma mem_str_view:
  assumes "stack_page s lo hi f" "lo \<le> a" "a + length str < hi" "cstr (view lo hi f s) a str"
  shows "mem_str (of_nat a) s = Some str"
  using assms
proof (induction str arbitrary: a)
  case Nil
  then show ?case by (subst mem_str.simps) (simp add: mem_rd_view [of s lo hi f a])
next
  case (Cons c str)
  have "of_nat a + 1 = (of_nat (Suc a) :: u32)" by simp
  then show ?case using Cons.IH [of "Suc a"] Cons.prems mem_rd_view [of s lo hi f a]
    by (subst mem_str.simps) (simp del: of_nat_Suc)
qed

lemma vector_at_view:
  assumes "stack_page s lo hi f" "lo \<le> p" "vector_in hi (view lo hi f s) p strs"
  shows "vector_at s (of_nat p) strs"
proof -
  have r: "mem_rd32 (of_nat p + of_nat (4 * i)) s = Some (word_at (view lo hi f s) (p + 4 * i))" if "i \<le> length strs" for i
    using mem_rd32_view [OF assms(1), of "p + 4 * i"] assms(2,3) that by (simp add: vector_in_def)
  show ?thesis unfolding vector_at_def
  proof (intro conjI allI impI)
    show "mem_rd32 (of_nat p + of_nat (4 * length strs)) s = Some 0"
      using r [of "length strs"] assms(3) by (simp add: vector_in_def)
    fix i
    assume i: "i < length strs"
    then obtain q where q: "word_at (view lo hi f s) (p + 4 * i) = of_nat q" "p \<le> q" "q + length (strs ! i) < hi"
        "cstr (view lo hi f s) q (strs ! i)"
      using assms(3) unfolding vector_in_def by blast
    show "\<exists>q. mem_rd32 (of_nat p + of_nat (4 * i)) s = Some q \<and> mem_str q s = Some (strs ! i)"
      using r [of i] i q mem_str_view [OF assms(1), of q] assms(2) by (intro exI [of _ "of_nat q"]) simp
  qed
qed

section \<open>Properties\<close>

text \<open>
  C3. The stack \<open>execve\<close> builds: with the page of the stack mapped, the copies of the argument and environment strings on the
  kernel heap and room for them on that page, \<open>exec_stack\<close> returns three user addresses. At the lowest lies the number of
  arguments; the second is the address of a vector of pointers to the argument strings, closed by NULL, the third that of the
  environment, and every pointer leads to the bytes of its string followed by NUL.
\<close>

theorem exec_stack_layout:
  assumes "e_kf e = kernel_free d" "stack_page s 0xFFFFF000 (unat USTACK_END) f"
    "held (vector_blocks env @ vector_blocks args) s"
    "\<forall>str \<in> set (map snd (snd args)) \<union> set (map snd (snd env)). 0 \<notin> set str"
    "vector_room (map snd (snd args)) + vector_room (map snd (snd env)) + 4 \<le> 4080"
  shows "\<exists>envp argv sp s'. exec_stack e args env s = Some ((envp, argv, sp), s')
     \<and> mem_rd32 sp s' = Some (of_nat (length (snd args)))
     \<and> vector_at s' argv (map snd (snd args)) \<and> vector_at s' envp (map snd (snd env))"
proof -
  let ?lo = "0xFFFFF000 :: nat" and ?hi = "unat USTACK_END" and ?as = "map snd (snd args)" and ?es = "map snd (snd env)"
  have hi: "?hi = ?lo + 4080" "of_nat ?hi = USTACK_END" by simp_all
  obtain p1 s1 where 1: "push_vector e USTACK_END env s = Some (of_nat p1, s1)" "stack_page s1 ?lo ?hi f"
      "?hi \<le> p1 + vector_room ?es" "p1 + 4 \<le> ?hi" "vector_in ?hi (view ?lo ?hi f s1) p1 ?es" "held (vector_blocks args @ []) s1"
    using push_vector_vector [OF assms(1-3), of ?hi] assms(4,5) hi by auto
  obtain p2 s2 where 2: "push_vector e (of_nat p1) args s1 = Some (of_nat p2, s2)" "stack_page s2 ?lo ?hi f"
      "p1 \<le> p2 + vector_room ?as" "p2 + 4 \<le> p1" "vector_in ?hi (view ?lo ?hi f s2) p2 ?as"
      "\<forall>x. p1 \<le> x \<longrightarrow> view ?lo ?hi f s2 x = view ?lo ?hi f s1 x"
  proof -
    have "?lo + vector_room ?as \<le> p1" "p1 \<le> ?hi" using 1(3,4) assms(5) hi by linarith+
    then show thesis using that push_vector_vector [OF assms(1) 1(2,6), of p1] assms(4) by blast
  qed
  have lo: "?lo \<le> p2 - 4" "p2 - 4 + 4 = p2" "p2 \<le> ?hi" "?lo \<le> p2" using 1(3) 2(3,4) 1(4) assms(5) hi by linarith+
  let ?n = "of_nat (length (snd args)) :: u32"
  obtain s3 where 3: "push4 (of_nat p2) ?n s2 = Some (of_nat (p2 - 4), s3)" "pushed ?lo ?hi f (p2 - 4) (le_bytes ?n) s2 s3"
    using push_bytes_pushed [OF 2(2) lo(1), of "rev (le_bytes ?n)"] lo by (auto simp: push4_bytes)
  have st3: "stack_page s3 ?lo ?hi f" and v3: "view ?lo ?hi f s3 = put (p2 - 4) (le_bytes ?n) (view ?lo ?hi f s2)"
    using 3(2) by (simp_all add: pushed_def)
  have same: "\<forall>x. p2 \<le> x \<longrightarrow> view ?lo ?hi f s3 x = view ?lo ?hi f s2 x" unfolding v3 using lo(2) by (auto simp: put_def)
  have "vector_in ?hi (view ?lo ?hi f s3) p2 ?as" by (rule vector_in_cong [OF 2(5) same])
  moreover have "vector_in ?hi (view ?lo ?hi f s3) p1 ?es"
    by (rule vector_in_cong [OF 1(5)]) (use same 2(4,6) in auto)
  moreover have "mem_rd32 (of_nat (p2 - 4)) s3 = Some ?n"
  proof -
    have "word_at (view ?lo ?hi f s3) (p2 - 4) = ?n" unfolding v3 using word_at_ptrs [of 0 "[?n]" "p2 - 4" "[]"] by simp
    then show ?thesis using mem_rd32_view [OF st3 lo(1)] lo(2,3) by simp
  qed
  ultimately show ?thesis using vector_at_view [OF st3 lo(4)] vector_at_view [OF st3, of p1] 1(1) 2(1,4) 3(1) lo(4)
    by (auto simp: exec_stack_def)
qed

definition sample_exec :: task_st where
  "sample_exec = sample_user\<lparr>cur_page_dir := 0x5000,
     tabs := \<lambda>t i. if t = 1024 \<and> i = 1023 then zero_page\<lparr>p_present := True, p_frame := 0x123\<rparr> else zero_page,
     nodes := (\<lambda>_. mk_node 0 False 0 0)(0x400000 := mk_node 0x20 False 0x400030 0,
       0x400030 := mk_node 0x20 False 0x400060 0x400000, 0x400060 := mk_node 0x1F90 True 0 0x400030)\<rparr>"

lemma sample_exec_fields:
  "cur_page_dir sample_exec = 0x5000" "active_dir sample_exec = 0x5000"
  "dirs sample_exec = (\<lambda>_. \<lparr>tables = \<lambda>i. of_nat (i + 1), tables_phys = \<lambda>_. zero_pde\<rparr>)"
  "kheap_start sample_exec = 0x400000" "kheap_size sample_exec = 0x2000" "cr0_pg sample_exec"
  "kh_start sample_exec = 0x400000" "kh_end sample_exec = 0x402000"
  by (simp_all add: sample_exec_def sample_user_fields)
    (simp_all add: sample_user_def sample_tasks_def sample_heap_def sample_kvm_def kvm_st.defs kmalloc_st.defs task_st.defs set_task_def)

lemma kheap_is_sample_exec: "kheap_is sample_exec [(0x20, False), (0x20, False), (0x1F90, True)]"
proof -
  have "dir_inj 0x5000 sample_exec" using table_inj by (simp add: dir_inj_def sample_exec_fields del: of_nat_add)
  then have "kvm_ok sample_exec" using table_nonzero by (simp add: kvm_ok_def sample_exec_fields del: of_nat_add)
  then show ?thesis by (simp add: kheap_is_def kheap_top_def sample_exec_fields) (simp add: sample_exec_def)
qed

lemma held_sample_exec: "held [0x400040, 0x400010] (fs_init sample_exec)"
proof -
  have "kheap_used sample_exec = {(0x400010, 0x20), (0x400040, 0x20)}"
    using kheap_used_eq [OF kheap_is_sample_exec] by (auto simp: sample_exec_fields)
  moreover have "kheap_inv sample_exec"
    unfolding kheap_inv_def by (rule exI, rule conjI [OF kheap_is_sample_exec]) (simp add: sample_exec_fields)
  ultimately have "kheap_used sample_exec = {(0x400010, 0x20), (0x400040, 0x20)}" "kheap_inv sample_exec" .
  then show ?thesis by (simp add: held_def fs_init_def)
qed

lemma stack_page_sample_exec: "stack_page (fs_init sample_exec) 0xFFFFF000 (unat USTACK_END) 0x123000"
proof -
  have "mapped (of_nat n) 0x5000 sample_exec \<and> (of_nat (dir_i (of_nat n) + 1) :: u32) \<notin> (\<lambda>i. of_nat (i + 1)) ` {..<64}
      \<and> get_phys (of_nat n) 0x5000 sample_exec = 0x123000 + of_nat (n - 0xFFFFF000)" if "0xFFFFF000 \<le> n" "n < 0xFFFFFFF0" for n
  proof -
    have u: "unat (of_nat n :: u32) = n" using that by (simp add: unat_of_nat_u32)
    have d: "n div 4096 = 1048575" by (rule div_nat_eqI) (use that in simp_all)
    then have "n mod 4096 = n - 0xFFFFF000" using minus_div_mult_eq_mod [of n 4096] by simp
    then have off: "(of_nat n AND 4095 :: u32) = of_nat (n - 0xFFFFF000)"
      using u that by (simp add: word_unat_eq_iff word_and_4095 unat_of_nat_u32 del: of_nat_diff)
    have i: "dir_i (of_nat n) = 1023" "tab_i (of_nat n) = 1023" using u d by (simp_all add: dir_i_eq tab_i_eq frame_no_def)
    have "(1024 :: u32) \<noteq> of_nat (i + 1)" if "i < 64" for i
      using table_inj [of 1023 i] that by auto
    then show ?thesis using i off by (auto simp: mapped_def get_phys_def sample_exec_fields image_iff simp del: of_nat_add) (auto simp: sample_exec_def)
  qed
  then show ?thesis by (simp add: stack_page_def fs_init_def sample_exec_fields)
qed

theorem exec_stack_layout_witness:
  "let e = \<lparr>e_km = kernel_alloc 1 16, e_kf = kernel_free 0, e_sched = id, e_irq = id\<rparr>; args = (0x400010, [(0x400040, [108, 115])]);
       env = (0, []) in
   \<exists>envp argv sp s'. exec_stack e args env (fs_init sample_exec) = Some ((envp, argv, sp), s')
     \<and> mem_rd32 sp s' = Some (of_nat (length (snd args)))
     \<and> vector_at s' argv (map snd (snd args)) \<and> vector_at s' envp (map snd (snd env))"
  unfolding Let_def
  by (rule exec_stack_layout [where d = 0, OF _ stack_page_sample_exec])
    (simp_all add: vector_blocks_def held_sample_exec vector_room_def)

text \<open>
  C29. The loop of \<open>execve\<close> that frees the user pages ends, in every state of the page tables: its page address grows until it
  reaches the end of the stack or wraps around below the user memory.
\<close>

theorem exec_clean_ends: "\<exists>s'. exec_clean km UMEM_BEGIN s = Some s'"
proof -
  have "\<exists>s'. exec_clean km page s = Some s'" for page
  proof (induction page arbitrary: s rule: measure_induct_rule [where f = "\<lambda>p. 4294967296 - unat p"])
    case (less page)
    show ?case
    proof (cases "page < USTACK_END \<and> page \<ge> UMEM_BEGIN")
      case True
      obtain page' s' where p': "exec_clean_page km page s = (page', s')" by fastforce
      have "page' = page + 4096 \<or> page' = page + 0x401000"
        using p' by (auto simp: exec_clean_page_def Let_def)
      then have "unat page < unat page' \<or> \<not> UMEM_BEGIN \<le> page'"
        using True unat_u32_lt [of page]
        by (auto simp: word_less_nat_alt word_le_nat_alt unat_word_ariths mod_if [of _ "4294967296 :: nat"] split: if_splits)
      then have "\<exists>s''. exec_clean km page' s' = Some s''"
      proof
        assume "unat page < unat page'"
        then show ?thesis by (intro less.IH) (use unat_u32_lt [of page'] in linarith)
      qed (simp add: exec_clean.simps)
      then show ?thesis using True p' by (subst exec_clean.simps) simp
    next
      case False
      then show ?thesis by (subst exec_clean.simps) auto
    qed
  qed
  then show ?thesis .
qed

end
