(* ===== verification/Time.thy ===== *)
theory Time
  imports Prelude
begin

text \<open>
  Calendar time: \<open>mktime\<close> of \<^verbatim>\<open>kernel/lib/mktime.c\<close> (the file \<^verbatim>\<open>rlibc/time/mktime.c\<close> has the same code),
  \<open>gmtime\<close> of \<^verbatim>\<open>rlibc/time/gmtime.c\<close> with its static structure as a state that is passed along, and the
  real-time clock of \<^verbatim>\<open>kernel/src/drivers/time.c\<close>, whose ports are a parameter. Every C \<open>int\<close> is an \<open>int\<close>, and
  \<open>i32\<close> writes out the wrap-around of the machine after each operation that can overflow; \<open>sdiv\<close> and
  \<open>smod\<close> are the truncating division of C. An index outside a table is \<open>None\<close>.
\<close>

section \<open>Model\<close>

record tm =
  tm_sec :: int
  tm_min :: int
  tm_hour :: int
  tm_mday :: int
  tm_mon :: int
  tm_year :: int
  tm_wday :: int
  tm_yday :: int
  tm_isdst :: int

definition isleap :: "int \<Rightarrow> bool" where
  "isleap y \<longleftrightarrow> (y smod 4 = 0 \<and> y smod 100 \<noteq> 0) \<or> y smod 400 = 0"

definition mdays_table :: "bool \<Rightarrow> int list" where
  "mdays_table l = (if l then [31,29,31,30,31,30,31,31,30,31,30,31] else [31,28,31,30,31,30,31,31,30,31,30,31])"

definition mdays :: "bool \<Rightarrow> int \<Rightarrow> int option" where
  "mdays l m = (if 0 \<le> m \<and> m < 12 then Some (mdays_table l ! nat m) else None)"

definition get_dow :: "int \<Rightarrow> int \<Rightarrow> int \<Rightarrow> int option" where
  "get_dow y m d =
     (if 0 \<le> m \<and> m < 12 then
        let y = (if m < 2 then i32 (y - 1) else y);
            t = [0, 3, 2, 5, 0, 3, 5, 1, 4, 6, 2, 4] ! nat m in
        Some (i32 (i32 (i32 (i32 (i32 (y + y sdiv 4) - y sdiv 100) + y sdiv 400) + t) + d) smod 7)
      else None)"

text \<open>The loops of \<open>mktime\<close>: whole months taken off \<open>tm_mday\<close>, years taken off \<open>tm_mon\<close>, days of the months
  before \<open>tm_mon\<close>.\<close>

lemma month_cases:
  fixes m :: int
  assumes "0 \<le> m" "m < 12"
  obtains "m = 0" | "m = 1" | "m = 2" | "m = 3" | "m = 4" | "m = 5" | "m = 6" | "m = 7" | "m = 8" | "m = 9"
    | "m = 10" | "m = 11"
proof -
  have "m \<in> set [0..11]" using assms by simp
  then have "m = 0 \<or> m = 1 \<or> m = 2 \<or> m = 3 \<or> m = 4 \<or> m = 5 \<or> m = 6 \<or> m = 7 \<or> m = 8 \<or> m = 9 \<or> m = 10 \<or> m = 11"
    unfolding upto_code by (simp add: upto_aux_rec)
  then show ?thesis using that by blast
qed

lemma mdays_pos: "mdays l m = Some n \<Longrightarrow> 28 \<le> n \<and> n \<le> 31"
proof -
  assume n: "mdays l m = Some n"
  then have "nat m < length (mdays_table l)" "n = mdays_table l ! nat m"
    by (auto simp: mdays_def mdays_table_def split: if_splits)
  then have "n \<in> set (mdays_table l)" by simp
  then show ?thesis by (auto simp: mdays_table_def split: if_splits)
qed

lemma i32_id: "- 2147483648 \<le> x \<Longrightarrow> x < 2147483648 \<Longrightarrow> i32 x = x"
  by (simp add: i32_def signed_take_bit_int_eq_self)

lemma i32_range: "- 2147483648 \<le> i32 x" "i32 x < 2147483648"
  using signed_take_bit_int_greater_eq_minus_exp [of 31 x] signed_take_bit_int_less_exp [of 31 x]
  by (simp_all add: i32_def)

function mday_loop :: "int \<Rightarrow> tm \<Rightarrow> tm option" where
  "mday_loop mon t =
     (case mdays (isleap (tm_year t)) (mon smod 12) of
        None \<Rightarrow> None
      | Some n \<Rightarrow>
          if tm_mday t > n then
            let t = t\<lparr>tm_mon := i32 (tm_mon t + 1)\<rparr>;
                t = t\<lparr>tm_mday := tm_mday t - n\<rparr>;
                t = (if tm_mon t \<ge> 12 then t\<lparr>tm_year := i32 (tm_year t + 1), tm_mon := tm_mon t - 12\<rparr> else t) in
            mday_loop (i32 (mon + 1)) t
          else Some t)"
  by pat_completeness auto
termination
  by (relation "measure (\<lambda>(mon, t). nat (tm_mday t))") (auto dest: mdays_pos)

function mon_loop :: "tm \<Rightarrow> tm" where
  "mon_loop t =
     (if tm_mon t \<ge> 12 then mon_loop (t\<lparr>tm_year := i32 (tm_year t + 1), tm_mon := tm_mon t - 12\<rparr>) else t)"
  by pat_completeness auto
termination
  by (relation "measure (\<lambda>t. nat (tm_mon t))") auto

declare mday_loop.simps [simp del] mon_loop.simps [simp del]

fun yday_loop :: "int list \<Rightarrow> int \<Rightarrow> int \<Rightarrow> int option" where
  "yday_loop [] y d = Some d"
| "yday_loop (m # ms) y d =
     (case mdays (isleap y) m of None \<Rightarrow> None | Some n \<Rightarrow> yday_loop ms y (i32 (d + n)))"

definition epoch_seconds :: "tm \<Rightarrow> int" where
  "epoch_seconds t =
     (let ret = tm_sec t;
          ret = i32 (ret + 60 * tm_min t);
          ret = i32 (ret + i32 (60 * 60 * tm_hour t));
          ret = i32 (ret + i32 (24 * 60 * 60 * i32 (tm_yday t - 1)));
          y = i32 (tm_year t - 1);
          leaps = y sdiv 4 - y sdiv 100 + y sdiv 400;
          leaps = i32 (leaps - (1970 sdiv 4 - 1970 sdiv 100 + 1970 sdiv 400));
          ret = i32 (ret + i32 (365 * 24 * 60 * 60 * i32 (tm_year t - 1970)))
      in i32 (ret + i32 (24 * 60 * 60 * leaps)))"

text \<open>The second half of \<open>mktime\<close>: day of the week, day of the year and the seconds, from the normalised structure.\<close>

definition mktime_epoch :: "tm \<Rightarrow> (int \<times> tm) option" where
  "mktime_epoch t = do {
     dow \<leftarrow> get_dow (tm_year t) (tm_mon t) (tm_mday t);
     let t = t\<lparr>tm_wday := dow\<rparr>;
     yday \<leftarrow> yday_loop [0..tm_mon t - 1] (tm_year t) (tm_mday t);
     let t = t\<lparr>tm_yday := yday\<rparr>;
     Some (epoch_seconds t, t\<lparr>tm_year := i32 (tm_year t - 1900)\<rparr>)
   }"

definition mktime :: "tm \<Rightarrow> (int \<times> tm) option" where
  "mktime t = do {
     let t = t\<lparr>tm_year := i32 (tm_year t + 1900)\<rparr>;
     let orig = t;
     let t = t\<lparr>tm_sec := tm_sec orig smod 60\<rparr>;
     let t = t\<lparr>tm_min := i32 (tm_min t + tm_sec orig sdiv 60)\<rparr>;
     let t = t\<lparr>tm_hour := i32 (tm_hour t + tm_min t sdiv 60)\<rparr>;
     let t = t\<lparr>tm_min := tm_min t smod 60\<rparr>;
     let t = t\<lparr>tm_mday := i32 (tm_mday t + tm_hour t sdiv 24)\<rparr>;
     let t = t\<lparr>tm_hour := tm_hour t smod 24\<rparr>;
     t \<leftarrow> mday_loop (tm_mon orig) t;
     mktime_epoch (mon_loop t)
   }"
text \<open>\<open>gmtime\<close> keeps its result in a static structure, which the second argument is before the call; its
  value before the first call is \<open>gmtime_static\<close>.\<close>

definition gmtime_static :: tm where
  "gmtime_static = \<lparr>tm_sec = 0, tm_min = 0, tm_hour = 0, tm_mday = 1, tm_mon = 0, tm_year = 70, tm_wday = 0,
     tm_yday = 0, tm_isdst = - 1\<rparr>"

definition gmtime :: "int \<Rightarrow> tm \<Rightarrow> tm option" where
  "gmtime timer ret = map_option snd (mktime (ret\<lparr>tm_sec := timer\<rparr>))"

text \<open>
  The real-time clock. \<open>outb\<close> and \<open>inb\<close> are the machine's port instructions on a device state \<open>'w\<close>; a wait for
  the clock that never ends is \<open>None\<close>. \<open>cur_tm\<close> is the static structure of \<open>read_rtc\<close>.
\<close>

definition cmos_read ::
    "(u16 \<Rightarrow> u8 \<Rightarrow> 'w \<Rightarrow> 'w) \<Rightarrow> (u16 \<Rightarrow> 'w \<Rightarrow> u8 \<times> 'w) \<Rightarrow> u8 \<Rightarrow> 'w \<Rightarrow> u8 \<times> 'w" where
  "cmos_read outb inb index w = inb 0x71 (outb 0x70 index w)"

partial_function (option) rtc_wait :: "(u8 \<Rightarrow> 'w \<Rightarrow> u8 \<times> 'w) \<Rightarrow> 'w \<Rightarrow> 'w option" where
  "rtc_wait rd w = (let (v, w) = rd 0x0A w in if v AND 0x80 \<noteq> 0 then rtc_wait rd w else Some w)"

definition rtc_regs :: "(u8 \<Rightarrow> 'w \<Rightarrow> u8 \<times> 'w) \<Rightarrow> tm \<Rightarrow> 'w \<Rightarrow> tm \<times> 'w" where
  "rtc_regs rd cur_tm w =
     (let (s, w) = rd 0x00 w;
          (mi, w) = rd 0x02 w;
          (h, w) = rd 0x04 w;
          (d, w) = rd 0x07 w;
          (m, w) = rd 0x08 w;
          (y, w) = rd 0x09 w in
      (cur_tm\<lparr>tm_sec := uint s, tm_min := uint mi, tm_hour := uint h, tm_mday := uint d, tm_mon := uint m,
         tm_year := uint y\<rparr>, w))"

partial_function (option) rtc_stable :: "(u8 \<Rightarrow> 'w \<Rightarrow> u8 \<times> 'w) \<Rightarrow> tm \<Rightarrow> 'w \<Rightarrow> (tm \<times> 'w) option" where
  "rtc_stable rd last_tm w = do {
     w \<leftarrow> rtc_wait rd w;
     let (cur_tm, w) = rtc_regs rd last_tm w;
     if cur_tm \<noteq> last_tm then rtc_stable rd cur_tm w else Some (cur_tm, w)
   }"

definition bcd :: "int \<Rightarrow> int" where
  "bcd x = (x AND 0x0F) + (x sdiv 16) * 10"

definition rtc_decode :: "u8 \<Rightarrow> tm \<Rightarrow> tm" where
  "rtc_decode b t =
     (let t = (if b AND 0x04 = 0
               then t\<lparr>tm_sec := bcd (tm_sec t), tm_min := bcd (tm_min t), tm_hour := bcd (tm_hour t),
                      tm_mday := bcd (tm_mday t), tm_mon := bcd (tm_mon t), tm_year := bcd (tm_year t)\<rparr>
               else t);
          t = (if b AND 0x02 = 0 \<and> tm_hour t AND 0x80 \<noteq> 0
               then t\<lparr>tm_hour := ((tm_hour t AND 0x7F) + 12) smod 24\<rparr> else t) in
      t\<lparr>tm_year := tm_year t + 100, tm_mon := tm_mon t - 1\<rparr>)"

definition read_rtc :: "(u8 \<Rightarrow> 'w \<Rightarrow> u8 \<times> 'w) \<Rightarrow> tm \<Rightarrow> 'w \<Rightarrow> (tm \<times> 'w) option" where
  "read_rtc rd cur_tm w = do {
     w \<leftarrow> rtc_wait rd w;
     let (cur_tm, w) = rtc_regs rd cur_tm w;
     (cur_tm, w) \<leftarrow> rtc_stable rd cur_tm w;
     let (status_reg_b, w) = rd 0x0B w;
     Some (rtc_decode status_reg_b cur_tm, w)
   }"

text \<open>\<open>time\<close>: the value returned (and stored through \<open>timer\<close>), the static structure and the device afterwards.\<close>

definition time ::
    "(u16 \<Rightarrow> u8 \<Rightarrow> 'w \<Rightarrow> 'w) \<Rightarrow> (u16 \<Rightarrow> 'w \<Rightarrow> u8 \<times> 'w) \<Rightarrow> tm \<Rightarrow> 'w \<Rightarrow> (int \<times> tm \<times> 'w) option" where
  "time outb inb cur_tm w = do {
     (t, w) \<leftarrow> read_rtc (cmos_read outb inb) cur_tm w;
     (ut, t) \<leftarrow> mktime t;
     Some (ut, t, w)
   }"

section \<open>The calendar\<close>

text \<open>The reference: the day after a date of the Gregorian calendar, and the days counted from 1 January 1970.\<close>

type_synonym date = "int \<times> int \<times> int"

definition leap :: "int \<Rightarrow> bool" where
  "leap y \<longleftrightarrow> (4 dvd y \<and> \<not> 100 dvd y) \<or> 400 dvd y"

definition mlen :: "int \<Rightarrow> int \<Rightarrow> int" where
  "mlen y m = (if m = 1 then if leap y then 29 else 28 else if m \<in> {3, 5, 8, 10} then 30 else 31)"

fun next_day :: "date \<Rightarrow> date" where
  "next_day (y, m, d) =
     (if d < mlen y m then (y, m, d + 1) else if m < 11 then (y, m + 1, 1) else (y + 1, 0, 1))"

definition civil :: "nat \<Rightarrow> date" where
  "civil n = (next_day ^^ n) (1970, 0, 1)"

fun valid :: "date \<Rightarrow> bool" where
  "valid (y, m, d) \<longleftrightarrow> 1970 \<le> y \<and> 0 \<le> m \<and> m < 12 \<and> 1 \<le> d \<and> d \<le> mlen y m"

definition leaps_before :: "int \<Rightarrow> int" where
  "leaps_before y = (y - 1) div 4 - (y - 1) div 100 + (y - 1) div 400 - 477"

definition days_before_month :: "int \<Rightarrow> int \<Rightarrow> int" where
  "days_before_month y m = (\<Sum>i \<leftarrow> [0..m - 1]. mlen y i)"

fun day_no :: "date \<Rightarrow> int" where
  "day_no (y, m, d) = 365 * (y - 1970) + leaps_before y + days_before_month y m + d - 1"

lemma days_before_month_0 [simp]: "days_before_month y 0 = 0"
  by (simp add: days_before_month_def)

lemma days_before_month_step: "0 \<le> m \<Longrightarrow> days_before_month y (m + 1) = days_before_month y m + mlen y m"
  using upto_rec2 [of 0 m] by (simp add: days_before_month_def)

lemma days_before_month_12: "days_before_month y 12 = (if leap y then 366 else 365)"
  by (simp add: days_before_month_def mlen_def upto.simps)

lemma div_pred: "0 < k \<Longrightarrow> (y :: int) div k = (y - 1) div k + (if k dvd y then 1 else 0)"
proof (cases "k dvd y")
  case True
  assume k: "0 < k"
  obtain c where c: "y = k * c" using True by blast
  have "(y - 1) div k = c - 1" by (rule int_div_pos_eq [where r = "k - 1"]) (use k c in \<open>auto simp: algebra_simps\<close>)
  then show ?thesis using True c k by simp
next
  case False
  assume k: "0 < k"
  have "0 < y mod k" using False k by (simp add: dvd_eq_mod_eq_0 order_less_le)
  moreover have "y mod k < k" using k by simp
  ultimately have "(y - 1) div k = y div k"
    by (intro int_div_pos_eq [where r = "y mod k - 1"]) auto
  then show ?thesis using False by simp
qed

lemma leap_alt: "(if leap y then 1 else 0 :: int)
    = (if 4 dvd y then 1 else 0) - (if 100 dvd y then 1 else 0) + (if 400 dvd y then 1 else 0)"
proof -
  have "100 dvd y \<Longrightarrow> 4 dvd y" "400 dvd y \<Longrightarrow> 100 dvd y" by (auto intro: dvd_trans [rotated])
  then show ?thesis by (auto simp: leap_def)
qed

lemma leaps_before_step: "leaps_before (y + 1) = leaps_before y + (if leap y then 1 else 0)"
  using div_pred [of 4 y] div_pred [of 100 y] div_pred [of 400 y] by (simp add: leaps_before_def leap_alt)

lemma mlen_bounds: "28 \<le> mlen y m" "mlen y m \<le> 31"
  by (simp_all add: mlen_def)

lemma day_no_month:
  assumes "0 \<le> m" "m < 12"
  shows "day_no (if m < 11 then (y, m + 1, d - mlen y m) else (y + 1, 0, d - mlen y m)) = day_no (y, m, d)"
proof (cases "m < 11")
  case True
  then show ?thesis using assms days_before_month_step [of m y] by simp
next
  case False
  then have "m = 11" using assms by simp
  then show ?thesis using days_before_month_step [of 11 y] days_before_month_12 [of y] leaps_before_step [of y]
    by (simp split: if_splits)
qed

lemma day_no_next_day: "valid x \<Longrightarrow> day_no (next_day x) = day_no x + 1"
proof (cases x)
  case (fields y m d)
  assume "valid x"
  then show ?thesis using day_no_month [of m y "mlen y m + 1"] fields by auto
qed

lemma valid_next_day: "valid x \<Longrightarrow> valid (next_day x)"
  by (cases x) (use mlen_bounds in \<open>auto intro: order_trans [of 1 28]\<close>)

lemma valid_civil: "valid (civil n)" and day_no_civil: "day_no (civil n) = int n"
proof (induction n)
  case 0
  show "valid (civil 0)" by (simp add: civil_def mlen_def)
  show "day_no (civil 0) = int 0" by (simp add: civil_def leaps_before_def)
next
  case (Suc n)
  then show "valid (civil (Suc n))" "day_no (civil (Suc n)) = int (Suc n)"
    by (simp_all add: civil_def valid_next_day day_no_next_day del: next_day.simps)
qed

text \<open>Every valid date is counted.\<close>

fun prev_day :: "date \<Rightarrow> date" where
  "prev_day (y, m, d) =
     (if 1 < d then (y, m, d - 1) else if 0 < m then (y, m - 1, mlen y (m - 1)) else (y - 1, 11, 31))"

lemma prev_day:
  assumes "valid x" "x \<noteq> (1970, 0, 1)"
  shows "valid (prev_day x)" "next_day (prev_day x) = x"
proof -
  obtain y m d where x: "x = (y, m, d)" by (cases x)
  have "1 \<le> mlen y (m - 1)" "d \<le> 31" using assms mlen_bounds [of y "m - 1"] mlen_bounds [of y m] x by auto
  moreover have "mlen (y - 1) 11 = 31" by (simp add: mlen_def)
  ultimately show "valid (prev_day x)" "next_day (prev_day x) = x" using assms x by auto
qed

lemma leaps_before_nonneg: "1970 \<le> y \<Longrightarrow> 0 \<le> leaps_before y"
proof -
  have "0 \<le> leaps_before (1970 + int n)" for n
  proof (induction n)
    case (Suc n)
    then show ?case using leaps_before_step [of "1970 + int n"] by (simp add: add.commute add.left_commute)
  qed (simp add: leaps_before_def)
  from this [of "nat (y - 1970)"] show "1970 \<le> y \<Longrightarrow> ?thesis" by simp
qed

lemma days_before_month_nonneg: "0 \<le> days_before_month y m"
  unfolding days_before_month_def by (rule sum_list_nonneg) (auto intro: order_trans [OF _ mlen_bounds(1)])

lemma day_no_nonneg: "valid x \<Longrightarrow> 0 \<le> day_no x"
proof (cases x)
  case (fields y m d)
  assume "valid x"
  then show ?thesis using fields leaps_before_nonneg [of y] days_before_month_nonneg [of y m] by simp
qed

lemma civil_day_no: "valid x \<Longrightarrow> civil (nat (day_no x)) = x"
proof (induction "nat (day_no x)" arbitrary: x rule: less_induct)
  case less
  show ?case
  proof (cases "x = (1970, 0, 1)")
    case True
    then show ?thesis by (simp add: civil_def leaps_before_def)
  next
    case False
    note p = prev_day [OF less.prems False]
    have "day_no x = day_no (prev_day x) + 1" using day_no_next_day [OF p(1)] p(2) by simp
    then have n: "nat (day_no x) = Suc (nat (day_no (prev_day x)))" using day_no_nonneg [OF p(1)] by simp
    then have "civil (nat (day_no (prev_day x))) = prev_day x" using less.hyps [OF _ p(1)] by simp
    then show ?thesis using n p(2) by (simp add: civil_def)
  qed
qed

section \<open>The code against the calendar\<close>

lemma sdiv_nonneg: "0 \<le> x \<Longrightarrow> 0 < k \<Longrightarrow> (x :: int) sdiv k = x div k"
  by (cases "x = 0") (simp_all add: signed_divide_int_def)

lemma smod_nonneg: "0 \<le> x \<Longrightarrow> 0 < k \<Longrightarrow> (x :: int) smod k = x mod k"
  by (cases "x = 0") (simp_all add: signed_modulo_int_def)

lemma isleap_leap: "0 \<le> y \<Longrightarrow> isleap y = leap y"
  by (simp add: isleap_def leap_def smod_nonneg dvd_eq_mod_eq_0)

lemma mdays_mlen: "0 \<le> m \<Longrightarrow> m < 12 \<Longrightarrow> mdays (leap y) m = Some (mlen y m)"
  by (erule month_cases, assumption) (simp_all add: mdays_def mdays_table_def mlen_def)

fun date_of :: "tm \<Rightarrow> date" where
  "date_of t = (tm_year t, tm_mon t, tm_mday t)"

fun set_date :: "date \<Rightarrow> tm \<Rightarrow> tm" where
  "set_date (y, m, d) t = t\<lparr>tm_year := y, tm_mon := m, tm_mday := d\<rparr>"

lemma set_date_id: "set_date (date_of t) t = t"
  by simp

lemma mday_loop_civil:
  assumes "0 \<le> mon" "mon mod 12 = tm_mon t" "1970 \<le> tm_year t" "1 \<le> tm_mday t" "mon + tm_mday t < 2147483648"
    "tm_year t + tm_mday t < 2147483648"
  shows "mday_loop mon t = Some (set_date (civil (nat (day_no (date_of t)))) t)"
  using assms
proof (induction "nat (tm_mday t)" arbitrary: mon t rule: less_induct)
  case less
  let ?y = "tm_year t" and ?m = "tm_mon t" and ?d = "tm_mday t"
  have m: "0 \<le> ?m" "?m < 12" "mon smod 12 = ?m"
    using less.prems(1) by (simp_all add: smod_nonneg flip: less.prems(2))
  have md: "mdays (isleap ?y) (mon smod 12) = Some (mlen ?y ?m)"
    using m less.prems(3) by (simp add: isleap_leap mdays_mlen)
  note len = mlen_bounds [of ?y ?m]
  show ?case
  proof (cases "?d > mlen ?y ?m")
    case True
    let ?x = "if ?m < 11 then (?y, ?m + 1, ?d - mlen ?y ?m) else (?y + 1, 0, ?d - mlen ?y ?m)"
    let ?t = "set_date ?x t"
    have m11: "?m < 11 \<or> ?m = 11" using m by linarith
    have mon: "i32 (mon + 1) = mon + 1" using less.prems by (simp add: i32_id)
    have step: "mday_loop mon t = mday_loop (mon + 1) ?t"
      using m11 True md less.prems mon
      by (subst mday_loop.simps, cases t, elim disjE) (simp_all add: i32_id Let_def)
    have "(mon + 1) mod 12 = (?m + 1) mod 12" using less.prems(2) by (metis mod_add_left_eq)
    then have mm: "(mon + 1) mod 12 = tm_mon ?t" using m(1) m11 by (elim disjE) simp_all
    have "mday_loop (mon + 1) ?t = Some (set_date (civil (nat (day_no (date_of ?t)))) ?t)"
      by (rule less.hyps) (use mm less.prems True len in \<open>auto split: if_splits\<close>)
    moreover have "day_no (date_of ?t) = day_no (date_of t)"
      using day_no_month [OF m(1,2), of ?y ?d] by (cases "?m < 11") simp_all
    moreover have "set_date x ?t = set_date x t" for x by (cases x) simp
    ultimately show ?thesis using step by simp
  next
    case False
    then have "valid (date_of t)" using less.prems m by simp
    from civil_day_no [OF this] show ?thesis using md False
      by (subst mday_loop.simps) (simp del: date_of.simps add: set_date_id)
  qed
qed

lemma yday_loop_days:
  assumes "0 \<le> y" "0 \<le> d" "set ms \<subseteq> {0..11}" "d + 31 * int (length ms) < 2147483648"
  shows "yday_loop ms y d = Some (d + (\<Sum>i \<leftarrow> ms. mlen y i))"
  using assms
proof (induction ms arbitrary: d)
  case (Cons m ms)
  have "i32 (d + mlen y m) = d + mlen y m" using Cons.prems mlen_bounds [of y m] by (simp add: i32_id)
  then show ?case using Cons mlen_bounds [of y m] by (simp add: isleap_leap mdays_mlen)
qed simp

text \<open>Sakamoto's formula gives the day of the week: 1 January 1970 was a Thursday.\<close>

definition month_shift :: "int \<Rightarrow> int" where
  "month_shift m = [0, 3, 2, 5, 0, 3, 5, 1, 4, 6, 2, 4] ! nat m"

definition sakamoto :: "int \<Rightarrow> int \<Rightarrow> int \<Rightarrow> int" where
  "sakamoto y m d =
     (let y = (if m < 2 then y - 1 else y) in y + y div 4 - y div 100 + y div 400 + month_shift m + d)"

lemma get_dow_sakamoto:
  assumes "valid (y, m, d)" "y < 100000000"
  shows "get_dow y m d = Some (sakamoto y m d mod 7)"
proof -
  define Y where "Y = (if m < 2 then y - 1 else y)"
  have m: "0 \<le> m" "m < 12" and d: "1 \<le> d" "d \<le> 31" and y: "1970 \<le> y"
    using assms(1) mlen_bounds(2) [of y m] by auto
  have t: "0 \<le> month_shift m" "month_shift m \<le> 6"
    unfolding month_shift_def by (rule month_cases [OF m]; simp)+
  have Y: "1969 \<le> Y" "Y < 100000000" using assms y by (simp_all add: Y_def)
  have q: "0 \<le> Y div 4" "Y div 4 \<le> Y" "0 \<le> Y div 100" "Y div 100 \<le> Y" "0 \<le> Y div 400" "Y div 400 \<le> Y"
    using Y by (simp_all add: div_le_dividend pos_imp_zdiv_nonneg_iff)
  have "i32 (i32 (i32 (i32 (i32 (Y + Y div 4) - Y div 100) + Y div 400) + month_shift m) + d) = sakamoto y m d"
    using q Y d t unfolding sakamoto_def Let_def Y_def [symmetric] by (simp add: i32_id)
  moreover have "0 \<le> sakamoto y m d"
    using q Y d t unfolding sakamoto_def Let_def Y_def [symmetric] by linarith
  moreover have "(if m < 2 then i32 (y - 1) else y) = Y" using assms y by (simp add: Y_def i32_id)
  ultimately show ?thesis
    using Y m by (simp add: get_dow_def Let_def sdiv_nonneg smod_nonneg flip: month_shift_def)
qed

lemma days_before_month_table:
  assumes "0 \<le> m" "m < 12"
  shows "days_before_month y m
    = [0, 31, 59, 90, 120, 151, 181, 212, 243, 273, 304, 334] ! nat m + (if 2 \<le> m \<and> leap y then 1 else 0)"
  by (rule month_cases [OF assms]; simp add: days_before_month_def mlen_def upto_code upto_aux_rec)

lemma sakamoto_day_no:
  assumes "0 \<le> m" "m < 12"
  shows "sakamoto y m d mod 7 = (day_no (y, m, d) + 4) mod 7"
proof -
  define L where "L = (y - 1) div 4 - (y - 1) div 100 + (y - 1) div 400"
  define b :: int where "b = (if leap y then 1 else 0)"
  have l: "y div 4 - y div 100 + y div 400 = L + b"
    using leaps_before_step [of y] by (simp add: leaps_before_def L_def b_def)
  have lb: "leaps_before y = L - 477" by (simp add: leaps_before_def L_def)
  have s: "sakamoto y m d = (if m < 2 then y - 1 + L else y + L + b) + month_shift m + d"
    using l by (simp add: sakamoto_def L_def Let_def)
  have "day_no (y, m, d) + 4 = sakamoto y m d + 7 * (52 * y - [102789, 102785, 102781, 102777, 102772, 102768,
      102764, 102759, 102755, 102751, 102746, 102742] ! nat m)"
    unfolding s day_no.simps lb days_before_month_table [OF assms]
    by (rule month_cases [OF assms]; simp add: month_shift_def b_def)
  then show ?thesis by (simp only: mod_mult_self2)
qed

text \<open>The instant a structure denotes, in seconds since the Epoch.\<close>

definition instant :: "tm \<Rightarrow> int" where
  "instant t = 86400 * day_no (tm_year t + 1900, tm_mon t, tm_mday t) + 3600 * tm_hour t + 60 * tm_min t + tm_sec t"

text \<open>A structure that \<open>mktime\<close> is meant for: nothing negative, the month in range, no year before 1970; the other
  fields may exceed their ranges.\<close>

definition tm_arg :: "tm \<Rightarrow> bool" where
  "tm_arg t \<longleftrightarrow> 0 \<le> tm_sec t \<and> 0 \<le> tm_min t \<and> 0 \<le> tm_hour t \<and> 1 \<le> tm_mday t \<and> 0 \<le> tm_mon t \<and> tm_mon t < 12
     \<and> 70 \<le> tm_year t"

text \<open>The normalised structure for an instant.\<close>

definition broken_down :: "int \<Rightarrow> tm" where
  "broken_down n =
     (let (y, m, d) = civil (nat (n div 86400)) in
      \<lparr>tm_sec = n mod 60, tm_min = n div 60 mod 60, tm_hour = n div 3600 mod 24, tm_mday = d, tm_mon = m,
       tm_year = y - 1900, tm_wday = (n div 86400 + 4) mod 7, tm_yday = days_before_month y m + d, tm_isdst = 0\<rparr>)"

lemma mult_div_le_int: "0 < k \<Longrightarrow> k * (x div k) \<le> (x :: int)"
  by (simp flip: minus_mod_eq_mult_div)

lemma epoch_seconds_eq:
  assumes v: "valid (y, m, d)" and n: "n = day_no (y, m, d)"
    and t: "tm_year t = y" "tm_yday t = days_before_month y m + d" "0 \<le> tm_sec t" "0 \<le> tm_min t" "0 \<le> tm_hour t"
    and lt: "86400 * n + 3600 * tm_hour t + 60 * tm_min t + tm_sec t < 2147483648"
  shows "epoch_seconds t = 86400 * n + 3600 * tm_hour t + 60 * tm_min t + tm_sec t"
proof -
  define D where "D = days_before_month y m + d - 1"
  define L where "L = leaps_before y"
  have p: "0 \<le> D" "0 \<le> L" "1970 \<le> y" and n: "n = 365 * y - 719050 + L + D"
    using v n leaps_before_nonneg [of y] days_before_month_nonneg [of y m] by (auto simp: D_def L_def)
  have nn: "0 \<le> n" "n < 24856" using p n t lt by linarith+
  have y: "i32 (y - 1) = y - 1" by (rule i32_id) (use p n nn in linarith)+
  have L: "(y - 1) sdiv 4 - (y - 1) sdiv 100 + (y - 1) sdiv 400 - (1970 sdiv 4 - 1970 sdiv 100 + 1970 sdiv 400) = L"
    using p by (simp add: L_def leaps_before_def sdiv_nonneg)
  have D: "tm_yday t - 1 = D" using t(2) by (simp add: D_def)
  have "i32 L = L" "i32 D = D" "i32 (y - 1970) = y - 1970" by - (rule i32_id; (use p n nn in linarith))+
  then show ?thesis
    unfolding epoch_seconds_def Let_def D t(1) y L using p n nn t(3-5) lt by (simp add: i32_id)
qed

lemma mktime_epoch_eq:
  assumes v: "valid (y, m, d)" and d: "tm_year t = y" "tm_mon t = m" "tm_mday t = d" "n = day_no (y, m, d)"
    and t: "0 \<le> tm_sec t" "0 \<le> tm_min t" "0 \<le> tm_hour t"
    and N: "N = 86400 * n + 3600 * tm_hour t + 60 * tm_min t + tm_sec t" "N < 2147483648"
  shows "mktime_epoch t = Some (N, t\<lparr>tm_wday := (n + 4) mod 7,
      tm_yday := days_before_month y m + d, tm_year := y - 1900\<rparr>)"
proof -
  have m: "0 \<le> m" "m < 12" "1970 \<le> y" "1 \<le> d" "d \<le> 31" using v mlen_bounds(2) [of y m] by auto
  have "365 * y - 719050 \<le> n"
    using d(4) m leaps_before_nonneg [of y] days_before_month_nonneg [of y m] by simp
  then have y: "y < 100000000" using N t by linarith
  have "yday_loop [0..m - 1] y d = Some (d + days_before_month y m)"
    unfolding days_before_month_def by (rule yday_loop_days) (use m in auto)
  moreover have "get_dow y m d = Some ((n + 4) mod 7)"
    using get_dow_sakamoto [OF v y] sakamoto_day_no [OF m(1,2)] d(4) by (simp del: day_no.simps)
  moreover have "i32 (y - 1900) = y - 1900" using m y by (simp add: i32_id)
  moreover have "epoch_seconds (t\<lparr>tm_wday := w, tm_yday := d + days_before_month y m\<rparr>) = N" for w
    by (subst epoch_seconds_eq [OF v d(4)]) (use N d(1-3) t in auto)
  ultimately show ?thesis using d(1-3) by (simp add: mktime_epoch_def Let_def add.commute [of d])
qed

lemma seconds_split: "86400 * (N div 86400) + 3600 * (N div 3600 mod 24) + 60 * (N div 60 mod 60) + N mod 60 = (N :: int)"
proof -
  define p where "p = N div 60"
  define q where "q = p div 60"
  have "N div 3600 = q" "N div 86400 = q div 24"
    using zdiv_zmult2_eq [of 60 N 60] zdiv_zmult2_eq [of 1440 N 60] zdiv_zmult2_eq [of 24 p 60]
    by (simp_all add: p_def q_def)
  moreover have "60 * (60 * q + p mod 60) + N mod 60 = N" "24 * (q div 24) = q - q mod 24"
    by (simp add: p_def q_def, simp only: minus_mod_eq_mult_div)
  ultimately show ?thesis by (simp add: p_def [symmetric])
qed

lemma mktime_normal_time:
  fixes s mi h n N :: int
  assumes N: "N = 86400 * n + 3600 * h + 60 * mi + s"
  shows "s mod 60 = N mod 60" "(mi + s div 60) mod 60 = N div 60 mod 60"
    "(h + (mi + s div 60) div 60) mod 24 = N div 3600 mod 24" "n + (h + (mi + s div 60) div 60) div 24 = N div 86400"
proof -
  have "N = s + 60 * (1440 * n + 60 * h + mi)" using N by simp
  then have n60: "N div 60 = (mi + s div 60) + 60 * (24 * n + h)" and "N mod 60 = s mod 60"
    by (simp_all only: div_mult_self2 mod_mult_self2) simp
  then show "s mod 60 = N mod 60" "(mi + s div 60) mod 60 = N div 60 mod 60"
    by (simp_all only: mod_mult_self2)
  have "N div 3600 = N div 60 div 60" using zdiv_zmult2_eq [of 60 N 60] by simp
  also have "\<dots> = (h + (mi + s div 60) div 60) + 24 * n" unfolding n60 by (subst div_mult_self2) simp_all
  finally have n3600: "N div 3600 = \<dots>" .
  then show "(h + (mi + s div 60) div 60) mod 24 = N div 3600 mod 24" by (simp only: mod_mult_self2)
  have "N div 86400 = N div 3600 div 24" using zdiv_zmult2_eq [of 24 N 3600] by simp
  then show "n + (h + (mi + s div 60) div 60) div 24 = N div 86400" unfolding n3600 by simp
qed

lemma mktime_eq:
  assumes t: "tm_arg t" and lt: "instant t < 2147483648"
  shows "mktime t = Some (instant t, (broken_down (instant t))\<lparr>tm_isdst := tm_isdst t\<rparr>)"
proof -
  define N where "N = instant t"
  define n where "n = day_no (tm_year t + 1900, tm_mon t, tm_mday t)"
  define mi where "mi = tm_min t + tm_sec t div 60"
  define h where "h = tm_hour t + mi div 60"
  obtain y m d where c: "civil (nat (N div 86400)) = (y, m, d)" by (metis prod_cases3)
  have t': "0 \<le> tm_sec t" "0 \<le> tm_min t" "0 \<le> tm_hour t" "1 \<le> tm_mday t" "0 \<le> tm_mon t" "tm_mon t < 12" "70 \<le> tm_year t"
    using t by (simp_all add: tm_arg_def)
  note N = mktime_normal_time [OF N_def [unfolded instant_def n_def [symmetric]], folded mi_def, folded h_def]
  have dn: "day_no (tm_year t + 1900, tm_mon t, tm_mday t + h div 24) = N div 86400"
    using N(4) by (simp add: n_def)
  have v: "valid (y, m, d)" using valid_civil [of "nat (N div 86400)"] c by simp
  have b: "0 \<le> 365 * tm_year t - 25550" "365 * tm_year t - 25550 + tm_mday t - 1 \<le> n" "N < 2147483648"
    using t' lt leaps_before_nonneg [of "tm_year t + 1900"] days_before_month_nonneg [of "tm_year t + 1900" "tm_mon t"]
    by (simp_all add: n_def N_def)
  have NN: "N = 86400 * n + 3600 * tm_hour t + 60 * tm_min t + tm_sec t" by (simp add: N_def instant_def n_def)
  have N0: "0 \<le> N" using NN b t' by linarith
  have dn': "day_no (y, m, d) = N div 86400"
    using day_no_civil [of "nat (N div 86400)"] c N0 by (simp add: pos_imp_zdiv_nonneg_iff)
  have q: "0 \<le> tm_sec t div 60" "60 * (tm_sec t div 60) \<le> tm_sec t"
    using t' mult_div_le_int [of 60 "tm_sec t"] by (simp_all add: pos_imp_zdiv_nonneg_iff)
  then have mi: "0 \<le> mi" "86400 * n + 3600 * tm_hour t + 60 * mi \<le> N" using NN t' by (simp_all add: mi_def)
  then have "0 \<le> mi div 60" "60 * (mi div 60) \<le> mi"
    using mult_div_le_int [of 60 mi] by (simp_all add: pos_imp_zdiv_nonneg_iff)
  then have h: "0 \<le> h" "86400 * n + 3600 * h \<le> N" using mi t' by (simp_all add: h_def)
  define h' where "h' = h div 24"
  have h24: "0 \<le> h'" "24 * h' \<le> h"
    using h mult_div_le_int [of 24 h] by (simp_all add: h'_def pos_imp_zdiv_nonneg_iff)
  then have md: "1 \<le> tm_mday t + h'" "365 * tm_year t - 25550 + tm_mday t + h' \<le> 24856"
    using h b t' by linarith+
  have n: "0 \<le> n" using b t' by linarith
  have i: "i32 (tm_year t + 1900) = tm_year t + 1900" by (rule i32_id) (use t' md h24 in linarith)+
  have i2: "i32 mi = mi" by (rule i32_id) (use t' mi n b(3) in linarith)+
  have i3: "i32 h = h" by (rule i32_id) (use h n b(3) in linarith)+
  have i4: "i32 (tm_mday t + h') = tm_mday t + h'" by (rule i32_id) (use md h24 t' in linarith)+
  define t1 where "t1 = t\<lparr>tm_year := tm_year t + 1900, tm_sec := N mod 60, tm_min := N div 60 mod 60,
     tm_mday := tm_mday t + h', tm_hour := N div 3600 mod 24\<rparr>"
  have "mday_loop (tm_mon t) t1 = Some (set_date (y, m, d) t1)"
    using mday_loop_civil [of "tm_mon t" t1] c dn t' md b(1) by (simp add: t1_def h'_def [symmetric] del: day_no.simps)
  moreover
  have sd: "tm_sec t sdiv 60 = tm_sec t div 60" "tm_sec t smod 60 = tm_sec t mod 60" "mi sdiv 60 = mi div 60"
    "mi smod 60 = mi mod 60" "h sdiv 24 = h div 24" "h smod 24 = h mod 24"
    using t'(1) mi(1) h(1) by (simp_all add: sdiv_nonneg smod_nonneg)
  have "mktime t = Option.bind (mday_loop (tm_mon t) t1) (\<lambda>t. mktime_epoch (mon_loop t))"
    by (simp add: mktime_def Let_def t1_def sd i i2 i3 i4 N(1-3) del: One_nat_def flip: mi_def h_def h'_def)
  moreover have "mon_loop (set_date (y, m, d) t1) = set_date (y, m, d) t1"
    using v by (subst mon_loop.simps) simp
  ultimately have mk: "mktime t = mktime_epoch (set_date (y, m, d) t1)" by simp
  also have "\<dots> = Some (N, (set_date (y, m, d) t1)\<lparr>tm_wday := (N div 86400 + 4) mod 7,
      tm_yday := days_before_month y m + d, tm_year := y - 1900\<rparr>)"
    
    by (rule mktime_epoch_eq) (simp_all add: v [simplified] dn' [simplified] N0 b(3) t1_def seconds_split)
  finally show ?thesis
    using c by (simp add: broken_down_def N_def t1_def)
qed


section \<open>Theorems\<close>

text \<open>
  C9. \<open>mktime\<close> against the calendar. For every broken-down time from 1970 on with nothing negative and the month in
  range, as long as the instant fits \<open>time_t\<close>, \<open>mktime\<close> returns the seconds since the Epoch counted day by
  day in the Gregorian calendar, and normalises the structure: seconds, minutes and hours in range, the date the
  calendar reaches after that many days, the right day of the week; \<open>tm_yday\<close> counts from 1, not from 0.
\<close>

theorem mktime_counts_days:
  assumes "tm_arg t" "instant t < 2147483648"
  shows "mktime t = Some (instant t, (broken_down (instant t))\<lparr>tm_isdst := tm_isdst t\<rparr>)"
  by (rule mktime_eq [OF assms])

lemma instant_broken_down:
  assumes "0 \<le> n"
  shows "instant ((broken_down n)\<lparr>tm_isdst := z\<rparr>) = n" "tm_arg ((broken_down n)\<lparr>tm_isdst := z\<rparr>)"
proof -
  obtain y m d where c: "civil (nat (n div 86400)) = (y, m, d)" by (metis prod_cases3)
  have v: "valid (y, m, d)" and dn: "day_no (y, m, d) = n div 86400"
    using valid_civil [of "nat (n div 86400)"] day_no_civil [of "nat (n div 86400)"] c assms
    by (simp_all add: pos_imp_zdiv_nonneg_iff)
  show "instant ((broken_down n)\<lparr>tm_isdst := z\<rparr>) = n"
    using seconds_split [of n] dn c by (simp add: instant_def broken_down_def del: day_no.simps)
  show "tm_arg ((broken_down n)\<lparr>tm_isdst := z\<rparr>)" using v c by (simp add: tm_arg_def broken_down_def)
qed

lemma gmtime_eq:
  assumes "0 \<le> k" "0 \<le> n" "k - k mod 60 + n < 2147483648"
  shows "gmtime n ((broken_down k)\<lparr>tm_isdst := z\<rparr>) = Some ((broken_down (k - k mod 60 + n))\<lparr>tm_isdst := z\<rparr>)"
proof -
  let ?t = "(broken_down k)\<lparr>tm_isdst := z, tm_sec := n\<rparr>"
  have s: "tm_sec (broken_down k) = k mod 60" by (simp add: broken_down_def split: prod.splits)
  have "instant ?t = k - k mod 60 + n"
    using instant_broken_down(1) [OF assms(1), of z] s by (simp add: instant_def)
  moreover have "tm_arg ?t" using instant_broken_down(2) [OF assms(1), of z] assms(2) by (simp add: tm_arg_def)
  ultimately show ?thesis using mktime_eq [of ?t] assms(3) by (simp add: gmtime_def)
qed

lemma gmtime_first:
  assumes "0 \<le> n" "n < 2147483648"
  shows "gmtime n gmtime_static = Some ((broken_down n)\<lparr>tm_isdst := - 1\<rparr>)"
proof -
  let ?t = "gmtime_static\<lparr>tm_sec := n\<rparr>"
  have "instant ?t = n" "tm_arg ?t"
    using assms by (simp_all add: instant_def tm_arg_def gmtime_static_def leaps_before_def)
  then show ?thesis using mktime_eq [of ?t] assms by (simp add: gmtime_def gmtime_static_def)
qed

lemma mktime_broken_down:
  assumes "0 \<le> n" "n < 2147483648"
  shows "mktime ((broken_down n)\<lparr>tm_isdst := z\<rparr>) = Some (n, (broken_down n)\<lparr>tm_isdst := z\<rparr>)"
  using mktime_eq [OF instant_broken_down(2) [OF assms(1), of z]] instant_broken_down(1) [OF assms(1), of z] assms by simp

text \<open>
  C30. \<open>gmtime\<close> and \<open>mktime\<close> are inverse: the first call of \<open>gmtime\<close> breaks any time from 0 up to the end of
  \<open>time_t\<close> down into the date of that day, and \<open>mktime\<close> of the result gives the time back and leaves the
  structure as it is.
\<close>

theorem gmtime_mktime_inverse:
  assumes "0 \<le> n" "n < 2147483648"
  shows "gmtime n gmtime_static = Some ((broken_down n)\<lparr>tm_isdst := - 1\<rparr>)
    \<and> mktime ((broken_down n)\<lparr>tm_isdst := - 1\<rparr>) = Some (n, (broken_down n)\<lparr>tm_isdst := - 1\<rparr>)"
  using gmtime_first [OF assms] mktime_broken_down [OF assms] by simp

definition feb_1970 :: tm where
  "feb_1970 = \<lparr>tm_sec = 75, tm_min = 0, tm_hour = 0, tm_mday = 32, tm_mon = 0, tm_year = 70, tm_wday = 0, tm_yday = 0,
     tm_isdst = 0\<rparr>"

lemma civil_31: "civil 31 = (1970, 1, 1)"
  by (simp add: civil_def numeral_eq_Suc mlen_def)

lemma feb_1970: "tm_arg feb_1970" "instant feb_1970 = 2678475"
  by (simp_all add: feb_1970_def tm_arg_def instant_def leaps_before_def)

theorem mktime_counts_days_witness:
  "mktime feb_1970 = Some (2678475, \<lparr>tm_sec = 15, tm_min = 1, tm_hour = 0, tm_mday = 1, tm_mon = 1, tm_year = 70,
     tm_wday = 0, tm_yday = 32, tm_isdst = 0\<rparr>)"
  using mktime_counts_days [of feb_1970]
  by (simp add: feb_1970, simp add: broken_down_def civil_31 days_before_month_def mlen_def feb_1970_def)

theorem gmtime_mktime_inverse_witness:
  "mktime ((broken_down 2678475)\<lparr>tm_isdst := - 1\<rparr>) = Some (2678475, (broken_down 2678475)\<lparr>tm_isdst := - 1\<rparr>)"
  using gmtime_mktime_inverse [of 2678475] by simp

text \<open>
  A later call of \<open>gmtime\<close> starts from the static structure the call before left, not from the Epoch: the
  result is the date of the sum of the two times (less the seconds of the first).
\<close>

theorem gmtime_adds_previous:
  assumes "0 \<le> k" "0 \<le> n" "k + n < 2147483648"
  shows "Option.bind (gmtime k gmtime_static) (gmtime n)
    = Some ((broken_down (k - k mod 60 + n))\<lparr>tm_isdst := - 1\<rparr>)"
proof -
  have "k < 2147483648" "k - k mod 60 + n < 2147483648" using assms pos_mod_sign [of 60 k] by linarith+
  then show ?thesis using gmtime_first [of k] gmtime_eq [of k n "- 1"] assms by simp
qed

theorem gmtime_adds_previous_witness:
  "Option.bind (gmtime 2678400 gmtime_static) (gmtime 75) = Some \<lparr>tm_sec = 15, tm_min = 1, tm_hour = 0, tm_mday = 1,
     tm_mon = 1, tm_year = 70, tm_wday = 0, tm_yday = 32, tm_isdst = - 1\<rparr>"
  using gmtime_adds_previous [of 2678400 75]
  by (simp add: broken_down_def civil_31 days_before_month_def mlen_def)

subsection \<open>The clock\<close>

definition to_bcd :: "int \<Rightarrow> u8" where
  "to_bcd n = word_of_int (16 * (n div 10) + n mod 10)"

lemma bcd_to_bcd: "0 \<le> n \<Longrightarrow> n < 100 \<Longrightarrow> bcd (uint (to_bcd n)) = n"
proof -
  assume n: "0 \<le> n" "n < 100"
  define a where "a = n div 10"
  define r where "r = n mod 10"
  have ar: "n = 10 * a + r" "0 \<le> a" "a < 10" "0 \<le> r" "r < 10" using n by (auto simp: a_def r_def)
  then have u: "uint (to_bcd n) = r + a * 16"
    unfolding to_bcd_def a_def [symmetric] r_def [symmetric] unsigned_of_int by (simp add: take_bit_eq_mod)
  have "(r + a * 16) AND mask 4 = (r + a * 16) mod 16" by (simp add: take_bit_eq_mod flip: take_bit_eq_mask)
  then have "(r + a * 16) AND 15 = r" using ar by (simp add: mask_eq_exp_minus_1)
  moreover have "(r + a * 16) sdiv 16 = a" using ar by (simp add: sdiv_nonneg)
  ultimately show ?thesis using ar u by (simp add: bcd_def)
qed

text \<open>What the clock's loops read from registers that do not change.\<close>

definition regs_tm :: "(u8 \<Rightarrow> u8) \<Rightarrow> tm \<Rightarrow> tm" where
  "regs_tm regs t = t\<lparr>tm_sec := uint (regs 0x00), tm_min := uint (regs 0x02), tm_hour := uint (regs 0x04),
     tm_mday := uint (regs 0x07), tm_mon := uint (regs 0x08), tm_year := uint (regs 0x09)\<rparr>"

lemma rtc_wait_quiet: "(\<And>w. fst (rd 0x0A w) AND 0x80 = 0) \<Longrightarrow> rtc_wait rd w = Some (snd (rd 0x0A w))"
  by (subst rtc_wait.simps) (simp add: case_prod_unfold Let_def)

lemma read_rtc_quiet:
  assumes rd: "\<And>i w. fst (rd i w) = regs i" and "regs 0x0A AND 0x80 = 0"
  shows "map_option fst (read_rtc rd t w) = Some (rtc_decode (regs 0x0B) (regs_tm regs t))"
proof -
  have wait: "rtc_wait rd w = Some (snd (rd 0x0A w))" for w by (rule rtc_wait_quiet) (simp add: assms)
  have reg: "rtc_regs rd t w = (regs_tm regs t, snd (rtc_regs rd t w))" for t w
    by (simp add: rtc_regs_def regs_tm_def case_prod_unfold Let_def rd)
  have "regs_tm regs (regs_tm regs t) = regs_tm regs t" by (simp add: regs_tm_def)
  then have "\<exists>w'. rtc_stable rd (regs_tm regs t) w = Some (regs_tm regs t, w')" for w
    by (subst rtc_stable.simps, subst reg) (simp add: wait Let_def)
  then obtain f where st: "rtc_stable rd (regs_tm regs t) w = Some (regs_tm regs t, f w)" for w by metis
  show ?thesis by (simp add: read_rtc_def wait, subst reg) (simp add: st Let_def case_prod_unfold rd)
qed

text \<open>
  C33. The time of the clock. When the clock's registers hold a date and a time of day between 2000 and 2037 in
  binary-coded decimal and 24-hour mode, and no update is going on, \<open>time\<close> returns the seconds since the Epoch of
  that instant, whatever the static structure held before.
\<close>

theorem time_reads_clock:
  assumes rd: "\<And>i w. fst (cmos_read outb inb i w) = regs i"
    and "regs 0x0A AND 0x80 = 0" "regs 0x0B AND 0x04 = 0" "regs 0x0B AND 0x02 \<noteq> 0"
    and "regs 0x00 = to_bcd s" "regs 0x02 = to_bcd mi" "regs 0x04 = to_bcd h" "regs 0x07 = to_bcd d"
      "regs 0x08 = to_bcd (m + 1)" "regs 0x09 = to_bcd (y - 2000)"
    and "valid (y, m, d)" "2000 \<le> y" "y < 2038" "0 \<le> h" "h < 24" "0 \<le> mi" "mi < 60" "0 \<le> s" "s < 60"
  shows "map_option fst (time outb inb cur_tm w) = Some (86400 * day_no (y, m, d) + 3600 * h + 60 * mi + s)"
proof -
  let ?t = "rtc_decode (regs 0x0B) (regs_tm regs cur_tm)"
  have b: "m + 1 \<le> 12" "0 \<le> m" "1 \<le> d" "d \<le> 31" "70 \<le> y - 1900"
    using assms(11,12) mlen_bounds(2) [of y m] by auto
  have t: "?t = cur_tm\<lparr>tm_sec := s, tm_min := mi, tm_hour := h, tm_mday := d, tm_mon := m, tm_year := y - 1900\<rparr>"
    using assms b by (simp add: rtc_decode_def regs_tm_def Let_def bcd_to_bcd)
  have dn: "day_no (y, m, d) < 24855"
  proof -
    have "(y - 1) div 4 \<le> 2036 div 4" "1999 div 100 \<le> (y - 1) div 100" "(y - 1) div 400 \<le> 2036 div 400"
      by (rule zdiv_mono1; use assms(12,13) in simp)+
    then have "leaps_before y \<le> 18" by (simp add: leaps_before_def)
    moreover have "days_before_month y m \<le> 335"
    proof -
      have m: "0 \<le> m" "m < 12" using b by simp_all
      show ?thesis unfolding days_before_month_table [OF m] by (rule month_cases [OF m]; simp)
    qed
    ultimately show ?thesis using b assms(13) by simp
  qed
  have "instant ?t = 86400 * day_no (y, m, d) + 3600 * h + 60 * mi + s" by (simp add: t instant_def)
  moreover have "tm_arg ?t" using assms b by (simp add: t tm_arg_def)
  ultimately have mk: "map_option fst (mktime ?t) = Some (86400 * day_no (y, m, d) + 3600 * h + 60 * mi + s)"
    using mktime_eq [of ?t] dn assms(15,17,19) by simp
  obtain w' where "read_rtc (cmos_read outb inb) cur_tm w = Some (?t, w')"
    using read_rtc_quiet [of "cmos_read outb inb" regs cur_tm w, OF rd] assms(2) by auto
  then show ?thesis using mk by (auto simp: time_def)
qed

text \<open>
  In the 12-hour mode with binary-coded decimals the mark of the afternoon, bit 7 of the hour, is lost: the
  conversion turns it into eight tens before it is tested, so every afternoon hour is read as 80 plus the hour.
\<close>

theorem rtc_afternoon:
  assumes "b AND 0x04 = 0" "b AND 0x02 = 0" "1 \<le> h" "h \<le> 12" "tm_hour t = 0x80 + uint (to_bcd h)"
  shows "tm_hour (rtc_decode b t) = 80 + h"
proof -
  have "h = 1 \<or> h = 2 \<or> h = 3 \<or> h = 4 \<or> h = 5 \<or> h = 6 \<or> h = 7 \<or> h = 8 \<or> h = 9 \<or> h = 10 \<or> h = 11 \<or> h = 12"
    using assms by presburger
  then show ?thesis using assms
    by (elim disjE) (simp_all add: rtc_decode_def Let_def bcd_def to_bcd_def)
qed


definition sample_regs :: "u8 \<Rightarrow> u8" where
  "sample_regs i = (if i = 0x0A then 0 else if i = 0x0B then 0x02 else if i = 0x04 then 0x12 else if i = 0x07 then 0x29
     else if i = 0x08 then 0x02 else if i = 0x09 then 0x16 else 0)"

theorem time_reads_clock_witness:
  "map_option fst (time (\<lambda>p v w. if p = 0x70 then v else w) (\<lambda>p w. (sample_regs w, w)) gmtime_static 0)
    = Some 1456747200"
  using time_reads_clock [of "\<lambda>p v w. if p = 0x70 then v else w" "\<lambda>p w. (sample_regs w, w)" sample_regs
    0 0 12 29 1 2016 gmtime_static 0]
  by (simp add: cmos_read_def sample_regs_def to_bcd_def mlen_def leap_def leaps_before_def days_before_month_def)

theorem rtc_afternoon_witness: "tm_hour (rtc_decode 0 (feb_1970\<lparr>tm_hour := 0x92\<rparr>)) = 92"
  using rtc_afternoon [of 0 12 "feb_1970\<lparr>tm_hour := 0x92\<rparr>"] by (simp add: to_bcd_def)

end
