(* ===== verification/Syscall.thy ===== *)
theory Syscall
  imports Exec Time
begin

text \<open>
  The system call interface: \<^verbatim>\<open>kernel/src/syscall\<close>. A handler takes the registers the user task entered the kernel with and
  returns the value for \<open>eax\<close>; pointers in the registers are user addresses, read and written through the page directory of the
  running task. A buffer to write is read as a whole before the call; a pointer that is not mapped halts the machine
  (\<open>None\<close>), also where the code would report another error first. The saved registers are kept apart from memory: what a call
  does whose pointer leads to them, on the kernel's stack, is not modelled.
\<close>

section \<open>Registers and state\<close>

record registers_t =
  edi :: u32
  esi :: u32
  ebp :: u32
  esp :: u32
  ebx :: u32
  edx :: u32
  ecx :: u32
  eax :: u32

abbreviation REG_VECTOR :: "registers_t \<Rightarrow> u32" where "REG_VECTOR \<equiv> eax"
abbreviation REG_ARG1 :: "registers_t \<Rightarrow> u32" where "REG_ARG1 \<equiv> ebx"
abbreviation REG_ARG2 :: "registers_t \<Rightarrow> u32" where "REG_ARG2 \<equiv> edi"
abbreviation REG_ARG3 :: "registers_t \<Rightarrow> u32" where "REG_ARG3 \<equiv> esi"

text \<open>
  What the handlers get from outside the C code: the allocators, what other tasks do while this one waits, the contents of
  fresh memory, the stack pointer and return address \<open>task.s\<close> gives a new task, the address of the saved registers, the word in
  memory behind the table of system calls, and the ports of the clock with the device behind them.
\<close>

record 'w kparams =
  kp_fs :: "task_st env"
  kp_pa :: "task_st \<Rightarrow> u32 \<Rightarrow> u32 \<times> task_st"
  kp_sched :: "task_st \<Rightarrow> task_st"
  kp_junk :: "nat \<Rightarrow> u8"
  kp_esp :: u32
  kp_return :: u32
  kp_regs :: u32
  kp_behind :: u32
  kp_outb :: "u16 \<Rightarrow> u8 \<Rightarrow> 'w \<Rightarrow> 'w"
  kp_inb :: "u16 \<Rightarrow> 'w \<Rightarrow> u8 \<times> 'w"

record 'w kernel_st =
  mach :: machine
  cur_tm :: tm
  dev :: 'w

section \<open>Files\<close>

definition int_result :: "(int \<times> machine) option \<Rightarrow> (u32 \<times> machine) option" where
  "int_result x = map_option (\<lambda>(r, s). (word_of_int r, s)) x"

definition sys_read :: "'w kparams \<Rightarrow> registers_t \<Rightarrow> machine \<Rightarrow> (u32 \<times> machine) option" where
  "sys_read k regs s = do {
     let fd = sint (REG_ARG1 regs);
     let buf = REG_ARG2 regs;
     ((r, bs), s) \<leftarrow> on_files (\<lambda>s. map_option (\<lambda>(r, bs, s). ((r, bs), s)) (read_vfs (kp_fs k) fd (buf \<noteq> 0) (REG_ARG3 regs) s)) s;
     s \<leftarrow> mem_wrs buf bs s;
     Some (word_of_int r, s)
   }"

definition sys_write :: "'w kparams \<Rightarrow> registers_t \<Rightarrow> machine \<Rightarrow> (u32 \<times> machine) option" where
  "sys_write k regs s =
     (let fd = sint (REG_ARG1 regs); buf = REG_ARG2 regs in
      if buf = 0 then Some (- 1, s)
      else do {
        bs \<leftarrow> mem_rds buf (unat (REG_ARG3 regs)) s;
        int_result (on_files (write_vfs (kp_fs k) fd (Some bs)) s)
      })"

text \<open>A path name; NULL is \<open>None\<close> inside.\<close>

definition user_name :: "u32 \<Rightarrow> machine \<Rightarrow> u8 list option option" where
  "user_name p s = (if p = 0 then Some None else map_option Some (mem_str p s))"

definition sys_open :: "'w kparams \<Rightarrow> registers_t \<Rightarrow> machine \<Rightarrow> (u32 \<times> machine) option" where
  "sys_open k regs s = do {
     name \<leftarrow> user_name (REG_ARG1 regs) s;
     int_result (on_files (open_vfs (kp_fs k) name (REG_ARG2 regs) (REG_ARG3 regs)) s)
   }"

definition sys_close :: "'w kparams \<Rightarrow> registers_t \<Rightarrow> machine \<Rightarrow> (u32 \<times> machine) option" where
  "sys_close k regs s = int_result (on_files (close_vfs (kp_fs k) (sint (REG_ARG1 regs))) s)"

definition sys_creat :: "'w kparams \<Rightarrow> registers_t \<Rightarrow> machine \<Rightarrow> (u32 \<times> machine) option" where
  "sys_creat k regs s = do {
     name \<leftarrow> mem_str (REG_ARG1 regs) s;
     int_result (on_files (creat_vfs (kp_fs k) name (REG_ARG2 regs)) s)
   }"

definition sys_lseek :: "'w kparams \<Rightarrow> registers_t \<Rightarrow> machine \<Rightarrow> (u32 \<times> machine) option" where
  "sys_lseek k regs s =
     int_result (on_files (lseek_vfs (sint (REG_ARG1 regs)) (REG_ARG2 regs) (sint (REG_ARG3 regs))) s)"

definition sys_fcntl :: "'w kparams \<Rightarrow> registers_t \<Rightarrow> machine \<Rightarrow> (u32 \<times> machine) option" where
  "sys_fcntl k regs s =
     int_result (on_files (do_fcntl (sint (REG_ARG1 regs)) (sint (REG_ARG2 regs)) (REG_ARG3 regs)) s)"

definition stat_words :: "stat_t \<Rightarrow> u32 list" where
  "stat_words b = [st_dev b, st_ino b, st_mode b, st_uid b, st_gid b, st_rdev b, st_size b, st_atime b, st_mtime b, st_ctime b]"

definition sys_fstat :: "'w kparams \<Rightarrow> registers_t \<Rightarrow> machine \<Rightarrow> (u32 \<times> machine) option" where
  "sys_fstat k regs s = do {
     ((r, b), s) \<leftarrow> on_files (\<lambda>s. map_option (\<lambda>(r, b, s). ((r, b), s)) (fstat (sint (REG_ARG1 regs)) s)) s;
     s \<leftarrow> (case b of
            Some b \<Rightarrow> mem_wrs (REG_ARG2 regs) (map Some (concat (map le_bytes (stat_words b)))) s
          | None \<Rightarrow> Some s);
     Some (word_of_int r, s)
   }"

definition sys_pipe :: "'w kparams \<Rightarrow> registers_t \<Rightarrow> machine \<Rightarrow> (u32 \<times> machine) option" where
  "sys_pipe k regs s = do {
     let p = REG_ARG1 regs;
     a \<leftarrow> mem_rd32 p s;
     b \<leftarrow> mem_rd32 (p + 4) s;
     ((r, fd), s) \<leftarrow> on_files (\<lambda>s. map_option (\<lambda>(r, fd, s). ((r, fd), s))
        (creat_pipe (e_km (kp_fs k)) (e_kf (kp_fs k)) (sint a, sint b) s)) s;
     s \<leftarrow> mem_wr32 p (word_of_int (fst fd)) s;
     s \<leftarrow> mem_wr32 (p + 4) (word_of_int (snd fd)) s;
     Some (word_of_int r, s)
   }"

section \<open>Memory, time and setup\<close>

definition sys_brk :: "'w kparams \<Rightarrow> registers_t \<Rightarrow> machine \<Rightarrow> (u32 \<times> machine) option" where
  "sys_brk k regs s = do {
     (r, s) \<leftarrow> on_tasks (uvm_brk (kp_pa k) (REG_ARG1 regs)) s;
     Some (word_of_int r, s)
   }"

definition sys_sbrk :: "'w kparams \<Rightarrow> registers_t \<Rightarrow> machine \<Rightarrow> (u32 \<times> machine) option" where
  "sys_sbrk k regs s = on_tasks (\<lambda>h. Some (uvm_sbrk (kp_pa k) (REG_ARG1 regs) h)) s"

abbreviation (input) SET_ERRNO_LOC :: u32 where "SET_ERRNO_LOC \<equiv> 1"
abbreviation (input) GET_USED_MEM :: u32 where "GET_USED_MEM \<equiv> 2"

definition sys_setup :: "'w kparams \<Rightarrow> registers_t \<Rightarrow> machine \<Rightarrow> (u32 \<times> machine) option" where
  "sys_setup k regs s =
     (if REG_ARG1 regs = SET_ERRNO_LOC then Some (0, set_cur (\<lambda>t. t\<lparr>errno_loc := REG_ARG2 regs\<rparr>) s)
      else if REG_ARG1 regs = GET_USED_MEM then Some (get_used_frames (hs s) * 4096, s)
      else Some (- 1, set_errno ENOSYS s))"

definition sys_time :: "'w kparams \<Rightarrow> registers_t \<Rightarrow> 'w kernel_st \<Rightarrow> (u32 \<times> 'w kernel_st) option" where
  "sys_time k regs z = do {
     (t, tm, w) \<leftarrow> time (kp_outb k) (kp_inb k) (cur_tm z) (dev z);
     Some (word_of_int t, z\<lparr>cur_tm := tm, dev := w\<rparr>)
   }"

section \<open>Tasks\<close>

text \<open>\<open>task_fork\<close> of \<open>task.s\<close> around \<open>task_fork_inner\<close>: the child starts behind the call, with the stack of the parent.\<close>

definition task_fork :: "'w kparams \<Rightarrow> task_st \<Rightarrow> (u32 \<times> task_st) option" where
  "task_fork k h = do {
     (new, h) \<leftarrow> task_fork_inner (e_km (kp_fs k)) (kp_pa k) h;
     Some (new, set_task new (\<lambda>t. t\<lparr>t_esp := kp_esp k, t_eip := kp_return k\<rparr>) h)
   }"

text \<open>What the parent gets.\<close>

definition sys_fork :: "'w kparams \<Rightarrow> registers_t \<Rightarrow> machine \<Rightarrow> (u32 \<times> machine) option" where
  "sys_fork k regs s = on_tasks (\<lambda>h. do {
     (new_task, h) \<leftarrow> task_fork k h;
     Some (if new_task \<noteq> 0 then t_pid (theap h new_task) else 0, h)
   }) s"

definition exit_call :: "'w kparams \<Rightarrow> registers_t \<Rightarrow> machine \<Rightarrow> (u32 \<times> machine) option" where
  "exit_call k regs s = on_tasks (\<lambda>h. do {
     h \<leftarrow> sys_exit (kp_pa k) (e_kf (kp_fs k)) (REG_ARG1 regs) h;
     Some (0, kp_sched k h)
   }) s"

definition wait_call :: "'w kparams \<Rightarrow> registers_t \<Rightarrow> machine \<Rightarrow> (u32 \<times> machine) option" where
  "wait_call k regs s = do {
     ((r, st), s) \<leftarrow> on_tasks (\<lambda>h. map_option (\<lambda>(r, st, h). ((r, st), h))
        (sys_wait (kp_sched k) (kp_pa k) (e_kf (kp_fs k)) (REG_ARG1 regs) h)) s;
     s \<leftarrow> (case st of Some w \<Rightarrow> mem_wr32 (REG_ARG1 regs) w s | None \<Rightarrow> Some s);
     Some (r, s)
   }"

definition sys_sched_yield :: "'w kparams \<Rightarrow> registers_t \<Rightarrow> machine \<Rightarrow> (u32 \<times> machine) option" where
  "sys_sched_yield k regs s = on_tasks (\<lambda>h. Some (0, kp_sched k h)) s"

abbreviation (input) UCODE_BEGIN :: u32 where "UCODE_BEGIN \<equiv> 0x10000000"

definition sys_execve :: "'w kparams \<Rightarrow> registers_t \<Rightarrow> machine \<Rightarrow> (u32 \<times> registers_t \<times> machine) option" where
  "sys_execve k regs s = do {
     (args, s) \<leftarrow> execve (kp_fs k) (kp_pa k) (kp_junk k) (REG_ARG1 regs) (REG_ARG2 regs) (REG_ARG3 regs) s;
     case args of
       None \<Rightarrow> Some (- 1, regs, s)
     | Some (a0, a1, a2) \<Rightarrow> Some (0, regs\<lparr>edi := a1, esi := a0, ecx := a2, edx := UCODE_BEGIN\<rparr>, s)
   }"

section \<open>The dispatcher\<close>

datatype 'w handler =
  Plain "'w kparams \<Rightarrow> registers_t \<Rightarrow> machine \<Rightarrow> (u32 \<times> machine) option"
| Timed "'w kparams \<Rightarrow> registers_t \<Rightarrow> 'w kernel_st \<Rightarrow> (u32 \<times> 'w kernel_st) option"
| Loading "'w kparams \<Rightarrow> registers_t \<Rightarrow> machine \<Rightarrow> (u32 \<times> registers_t \<times> machine) option"

definition syscall_table :: "'w handler list" where
  "syscall_table = [Plain exit_call, Plain sys_sched_yield, Plain sys_fork, Plain wait_call, Plain sys_read, Plain sys_write,
     Plain sys_open, Plain sys_close, Plain sys_creat, Plain sys_lseek, Plain sys_fcntl, Plain sys_fstat, Plain sys_setup,
     Plain sys_pipe, Plain sys_brk, Plain sys_sbrk, Loading sys_execve, Timed sys_time]"

fun call_handler :: "'w handler \<Rightarrow> 'w kparams \<Rightarrow> registers_t \<Rightarrow> 'w kernel_st \<Rightarrow> (u32 \<times> registers_t \<times> 'w kernel_st) option" where
  "call_handler (Plain f) k regs z = map_option (\<lambda>(r, s). (r, regs, z\<lparr>mach := s\<rparr>)) (f k regs (mach z))"
| "call_handler (Timed f) k regs z = map_option (\<lambda>(r, z). (r, regs, z)) (f k regs z)"
| "call_handler (Loading f) k regs z = map_option (\<lambda>(r, regs, s). (r, regs, z\<lparr>mach := s\<rparr>)) (f k regs (mach z))"

text \<open>
  No entry of the table is NULL. The guard lets the number 18 through, one behind the table: the word there is taken for the
  address of a handler; if it is not NULL, what is called is not known (\<open>None\<close>).
\<close>

definition syscall_dispatch :: "'w kparams \<Rightarrow> registers_t \<Rightarrow> 'w kernel_st \<Rightarrow> (registers_t \<times> 'w kernel_st) option" where
  "syscall_dispatch k regs z =
     (let n = length (syscall_table :: 'w handler list);
          fails = Some (regs\<lparr>eax := - 1\<rparr>, z\<lparr>mach := set_errno ENOSYS (mach z)\<rparr>) in
      if REG_VECTOR regs > of_nat n then fails
      else if unat (REG_VECTOR regs) = n then if kp_behind k = 0 then fails else None
      else do {
        let z = z\<lparr>mach := set_cur (\<lambda>t. t\<lparr>syscall_regs := kp_regs k\<rparr>) (mach z)\<rparr>;
        (r, regs, z) \<leftarrow> call_handler (syscall_table ! unat (REG_VECTOR regs)) k regs z;
        Some (regs\<lparr>eax := r\<rparr>, z\<lparr>mach := set_cur (\<lambda>t. t\<lparr>syscall_regs := 0\<rparr>) (mach z)\<rparr>)
      })"

section \<open>A new task\<close>

lemma alloc_empty_task_from_found:
  assumes "i \<le> pid" "pid < 256" "tasks s pid = 0" "\<forall>j. i \<le> j \<and> j < pid \<longrightarrow> tasks s j \<noteq> 0" "km s 948 = (t, s1)" "t \<noteq> 0"
  shows "alloc_empty_task_from km i s = Some (t, set_task t (\<lambda>_. zero_task\<lparr>t_state := TASK_STATE_READY, t_pid := of_nat pid\<rparr>)
    (s1\<lparr>tasks := (tasks s1)(pid := t)\<rparr>))"
  using assms
proof (induction "pid - i" arbitrary: i)
  case 0
  then show ?case by (subst alloc_empty_task_from.simps) simp
next
  case (Suc n)
  then have "tasks s i \<noteq> 0" "i < 256" by auto
  then show ?case using Suc.hyps(1) [of "i + 1"] Suc.hyps(2) Suc.prems
    by (subst alloc_empty_task_from.simps) simp
qed

context task_memory
begin

lemma task_fork_inner_eq:
  assumes pid: "1 \<le> pid" "pid < 256" "tasks s pid = 0" "\<forall>j. 1 \<le> j \<and> j < pid \<longrightarrow> tasks s j \<noteq> 0"
    and new: "km s 948 = (new, s1)" "new \<noteq> 0" "new \<noteq> cur_task s"
    and pd: "\<forall>u th. fst (km_pa (s1\<lparr>tasks := u, theap := th\<rparr>) 8192) \<noteq> 0"
  shows "\<exists>d s'. task_fork_inner km km_pa s = Some (new, s') \<and> d \<noteq> 0 \<and> tasks s' = (tasks s)(pid := new)
    \<and> cur_task s' = cur_task s
    \<and> theap s' = (theap s)(cur_task s := (theap s (cur_task s))\<lparr>children := children (theap s (cur_task s)) + 1\<rparr>,
         new := zero_task\<lparr>t_state := TASK_STATE_READY, t_pid := of_nat pid, t_page_dir := d,
           fpu_state := fpu_state (theap s (cur_task s)), t_files := t_files (theap s (cur_task s)),
           t_ppid := t_pid (theap s (cur_task s)), syscall_regs := syscall_regs (theap s (cur_task s)),
           errno_loc := errno_loc (theap s (cur_task s))\<rparr>)"
proof -
  have r1: "rest s1 = rest s" using km_rest [of s 948] new(1) by simp
  note s1 = rest_eqD [OF r1]
  define t0 where "t0 = zero_task\<lparr>t_state := TASK_STATE_READY, t_pid := of_nat pid\<rparr>"
  define s2 where "s2 = set_task new (\<lambda>_. t0) (s1\<lparr>tasks := (tasks s1)(pid := new)\<rparr>)"
  have a: "alloc_empty_task km s = Some (new, s2)"
    unfolding alloc_empty_task_def s2_def t0_def using pid new by (intro alloc_empty_task_from_found) auto
  obtain d s3 where d: "create_page_dir km_pa s2 = (d, s3)" by force
  have "d \<noteq> 0"
  proof -
    have "fst (km_pa s2 8192) \<noteq> 0" using pd unfolding s2_def set_task_def by simp
    then show ?thesis using d by (auto simp: create_page_dir_def Let_def case_prod_unfold)
  qed
  note s3 = rest_eqD [OF create_page_dir_rest [of s2, unfolded d snd_conv]]
  define s4 where "s4 = set_task new (\<lambda>t. t\<lparr>t_page_dir := d\<rparr>) s3"
  define s5 where "s5 = clone_page_dir km_pa d (t_page_dir (theap s4 (cur_task s4))) s4"
  note s5 = rest_eqD [OF clone_page_dir_rest [of d "t_page_dir (theap s4 (cur_task s4))" s4, folded s5_def]]
  define s6 where "s6 = set_task new (\<lambda>t. t\<lparr>fpu_state := fpu_state (theap s5 (cur_task s4)), t_files := t_files (theap s5 (cur_task s4)),
      t_ppid := t_pid (theap s5 (cur_task s4)), syscall_regs := syscall_regs (theap s5 (cur_task s4)),
      errno_loc := errno_loc (theap s5 (cur_task s4))\<rparr>) s5"
  have f: "task_fork_inner km km_pa s = Some (new, set_task (cur_task s4) (\<lambda>t. t\<lparr>children := children t + 1\<rparr>) s6)"
    unfolding task_fork_inner_def a s6_def s5_def s4_def using \<open>d \<noteq> 0\<close> new(2) by (simp add: d Let_def)
  have "cur_task s4 = cur_task s" "tasks s6 = (tasks s)(pid := new)" "cur_task s6 = cur_task s"
    by (simp_all add: s6_def s5 s4_def s3 s2_def s1 set_task_def)
  moreover have "theap s6 = (theap s)(new := zero_task\<lparr>t_state := TASK_STATE_READY, t_pid := of_nat pid, t_page_dir := d,
           fpu_state := fpu_state (theap s (cur_task s)), t_files := t_files (theap s (cur_task s)),
           t_ppid := t_pid (theap s (cur_task s)), syscall_regs := syscall_regs (theap s (cur_task s)),
           errno_loc := errno_loc (theap s (cur_task s))\<rparr>)"
    using new(3) by (simp add: s6_def s5 s4_def s3 s2_def s1 set_task_def t0_def)
  ultimately show ?thesis using f \<open>d \<noteq> 0\<close> new(3) by (intro exI [of _ d]) (simp add: set_task_def fun_upd_twist)
qed

end

section \<open>Properties\<close>

text \<open>
  C15. \<open>fork\<close> keeps the table of tasks in order: with a free slot and memory for the task and its page directory, the child
  gets the first free number and a ready task in that slot, with the number of the caller as its parent and with its open
  files; the caller counts one child more; every task of the table still carries its number, and the running task is the same.
  The bounds of the heap are not copied: they are 0 in the child.
\<close>

theorem fork_keeps_tasks:
  assumes ok: "tasks_ok s" "cur_task s \<noteq> 0" and heap: "kheap_inv s" "\<forall>i \<in> {1..<256}. tasks s i \<noteq> 0 \<longrightarrow> (\<exists>m. (unat (tasks s i), m) \<in> kheap_used s)"
    and pid: "1 \<le> pid" "pid < 256" "tasks s pid = 0" "\<forall>j. 1 \<le> j \<and> j < pid \<longrightarrow> tasks s j \<noteq> 0"
    and new: "kernel_alloc (Suc d) 16 s 948 = (new, s1)" "new \<noteq> 0"
    and pd: "\<forall>u th. fst (kernel_alloc (Suc d) 4096 (s1\<lparr>tasks := u, theap := th\<rparr>) 8192) \<noteq> 0"
  shows "\<exists>s'. task_fork_inner (kernel_alloc (Suc d) 16) (kernel_alloc (Suc d) 4096) s = Some (new, s')
    \<and> tasks_ok s' \<and> tasks s' = (tasks s)(pid := new) \<and> cur_task s' = cur_task s
    \<and> t_pid (theap s' new) = of_nat pid \<and> t_state (theap s' new) = TASK_STATE_READY
    \<and> t_ppid (theap s' new) = t_pid (theap s (cur_task s)) \<and> t_files (theap s' new) = t_files (theap s (cur_task s))
    \<and> children (theap s' (cur_task s)) = children (theap s (cur_task s)) + 1
    \<and> uheap_begin (theap s' new) = 0 \<and> uheap_end (theap s' new) = 0"
proof -
  have "\<forall>k. (unat new, k) \<notin> kheap_used s"
    using kalloc.alloc_fresh [OF heap(1), of 948 d new] new by simp
  then have other: "tasks s i \<noteq> new" if "i \<in> {1..<256}" for i using heap(2) that new(2) by metis
  have cur: "cur_pid s \<in> {1..<256}" "cur_task s = tasks s (cur_pid s)" using ok by (auto simp: tasks_ok_def)
  have nc: "new \<noteq> cur_task s" using other [OF cur(1)] cur(2) by simp
  obtain pgd s' where s': "task_fork_inner (kernel_alloc (Suc d) 16) (kernel_alloc (Suc d) 4096) s = Some (new, s')"
      "tasks s' = (tasks s)(pid := new)" "cur_task s' = cur_task s"
      "theap s' = (theap s)(cur_task s := (theap s (cur_task s))\<lparr>children := children (theap s (cur_task s)) + 1\<rparr>,
         new := zero_task\<lparr>t_state := TASK_STATE_READY, t_pid := of_nat pid, t_page_dir := pgd,
           fpu_state := fpu_state (theap s (cur_task s)), t_files := t_files (theap s (cur_task s)),
           t_ppid := t_pid (theap s (cur_task s)), syscall_regs := syscall_regs (theap s (cur_task s)),
           errno_loc := errno_loc (theap s (cur_task s))\<rparr>)"
    using kernel_mem.task_fork_inner_eq [OF pid new(1,2) nc pd] by blast
  have cp: "cur_pid s' = cur_pid s" using nc by (simp add: cur_pid_def s')
  have ne: "cur_pid s \<noteq> pid"
  proof
    assume "cur_pid s = pid"
    then have "cur_task s = 0" using cur(2) pid(3) by simp
    then show False using ok(2) by simp
  qed
  have "tasks_ok s'"
    unfolding tasks_ok_def cp s'(2,3)
  proof (intro conjI ballI impI)
    fix i
    assume i: "i \<in> {1..<256}" "((tasks s)(pid := new)) i \<noteq> 0"
    show "t_pid (theap s' (((tasks s)(pid := new)) i)) = of_nat i"
    proof (cases "i = pid")
      case False
      then have "t_pid (theap s (tasks s i)) = of_nat i" using i ok by (simp add: tasks_ok_def)
      then show ?thesis using False other [OF i(1)] by (auto simp: s'(4))
    qed (simp add: s'(4))
  qed (use cur ne in simp_all)
  then show ?thesis using s' nc by (simp add: zero_task_def)
qed

definition sample_fork :: task_st where
  "sample_fork = sample_exec\<lparr>tasks := (\<lambda>_. 0)(1 := 0x400010), cur_task := 0x400010,
     theap := \<lambda>_. zero_task\<lparr>t_pid := 1, t_state := TASK_STATE_READY\<rparr>\<rparr>"

lemma kheap_is_tasks:
  "kheap_is (h\<lparr>tasks := u\<rparr>) bs = kheap_is h bs" "kheap_is (h\<lparr>theap := th\<rparr>) bs = kheap_is h bs"
  "kheap_is (h\<lparr>cur_task := c\<rparr>) bs = kheap_is h bs" for h :: task_st
  by (simp_all add: kheap_is_def kvm_ok_def kheap_top_def dir_inj_def)

lemma kheap_is_sample_fork: "kheap_is sample_fork [(0x20, False), (0x20, False), (0x1F90, True)]"
  by (simp add: sample_fork_def kheap_is_tasks kheap_is_sample_exec)

lemma kheap_start_sample_fork: "kheap_start sample_fork = 0x400000"
  by (simp add: sample_fork_def sample_exec_fields)

lemma sample_fork_alloc:
  "\<exists>s1. kernel_alloc 1 16 sample_fork 948 = (0x400070, s1) \<and> (\<forall>u th. fst (kernel_alloc 1 4096 (s1\<lparr>tasks := u, theap := th\<rparr>) 8192) \<noteq> 0)"
proof -
  let ?bs = "[(0x20, False), (0x20, False), (960, False), (7104, True)] :: kblock list"
  have "alloc_blocks (unat KSTACK_BEGIN) (16 * ((948 + 15) div 16)) 16 (unat (kheap_start sample_fork))
      [(0x20, False), (0x20, False), (0x1F90, True)] = Some (0x400060, ?bs)"
    by (simp add: kheap_start_sample_fork pad_of_def grown_def split_block_def)
  then obtain s1 where s1: "kernel_alloc 1 16 sample_fork 948 = (0x400070, s1)" "kheap_start s1 = 0x400000" "kheap_is s1 ?bs"
    using kernel_alloc_refines [OF kheap_is_sample_fork, of 948 16 0] kheap_start_sample_fork by auto
  have "fst (kernel_alloc 1 4096 (s1\<lparr>tasks := u, theap := th\<rparr>) 8192) \<noteq> 0" for u th
  proof -
    let ?h = "s1\<lparr>tasks := u, theap := th\<rparr>"
    have h: "kheap_is ?h ?bs" "kheap_start ?h = 0x400000" using s1 by (simp_all add: kheap_is_tasks)
    have "\<exists>c bs'. alloc_blocks (unat KSTACK_BEGIN) (16 * ((8192 + 15) div 16)) 4096 (unat (kheap_start ?h)) ?bs = Some (c, bs')
        \<and> c < 0x500000"
      by (simp add: h(2) pad_of_def)
    then obtain c bs' where c: "alloc_blocks (unat KSTACK_BEGIN) (16 * ((8192 + 15) div 16)) 4096 (unat (kheap_start ?h)) ?bs = Some (c, bs')"
        "c < 0x500000" by blast
    have "fst (kernel_alloc 1 4096 ?h 8192) = of_nat (c + 16)"
      using kernel_alloc_refines [OF h(1), of 8192 4096 0] c(1) by (auto simp del: of_nat_add)
    moreover have "unat (of_nat (c + 16) :: u32) = c + 16" by (rule unat_of_nat_u32) (use c(2) in simp)
    ultimately show ?thesis by (metis add_is_0 unat_0 zero_neq_numeral)
  qed
  then show ?thesis using s1(1) by blast
qed

theorem fork_keeps_tasks_witness:
  "\<exists>s'. task_fork_inner (kernel_alloc 1 16) (kernel_alloc 1 4096) sample_fork = Some (0x400070, s')
    \<and> tasks_ok s' \<and> tasks s' = (tasks sample_fork)(2 := 0x400070) \<and> cur_task s' = cur_task sample_fork
    \<and> t_pid (theap s' 0x400070) = of_nat 2 \<and> t_state (theap s' 0x400070) = TASK_STATE_READY
    \<and> t_ppid (theap s' 0x400070) = t_pid (theap sample_fork (cur_task sample_fork))
    \<and> t_files (theap s' 0x400070) = t_files (theap sample_fork (cur_task sample_fork))
    \<and> children (theap s' (cur_task sample_fork)) = children (theap sample_fork (cur_task sample_fork)) + 1
    \<and> uheap_begin (theap s' 0x400070) = 0 \<and> uheap_end (theap s' 0x400070) = 0"
proof -
  obtain s1 where s1: "kernel_alloc 1 16 sample_fork 948 = (0x400070, s1)"
      "\<forall>u th. fst (kernel_alloc 1 4096 (s1\<lparr>tasks := u, theap := th\<rparr>) 8192) \<noteq> 0"
    using sample_fork_alloc by blast
  have "kheap_used sample_fork = {(0x400010, 0x20), (0x400040, 0x20)}"
    using kheap_used_eq [OF kheap_is_sample_fork] by (auto simp: kheap_start_sample_fork)
  moreover have "kheap_inv sample_fork"
    unfolding kheap_inv_def by (rule exI, rule conjI [OF kheap_is_sample_fork]) (simp add: kheap_start_sample_fork)
  ultimately show ?thesis
    using fork_keeps_tasks [of sample_fork 2 0 "0x400070" s1] s1
    by (simp add: tasks_ok_def cur_pid_def) (simp add: sample_fork_def zero_task_def)
qed

section \<open>A call of write\<close>

lemma mem_rds_cong:
  "(\<And>a. mem_rd a s' = mem_rd a s) \<Longrightarrow> mem_rds a n s' = mem_rds a n s"
  by (induction n arbitrary: a) simp_all

lemma mem_rds_length: "mem_rds a n s = Some bs \<Longrightarrow> length bs = n"
  by (induction n arbitrary: a bs) (auto simp: bind_eq_Some_iff)

lemma mem_rd_set_cur [simp]: "mem_rd a (set_cur f s) = mem_rd a s"
  by (simp add: mem_rd_def set_cur_def) (simp add: set_task_def)

lemma mem_rds_set_cur [simp]: "mem_rds a n (set_cur f s) = mem_rds a n s"
  by (rule mem_rds_cong) simp

lemma dispatch_write:
  assumes "REG_VECTOR regs = 5" "REG_ARG2 regs \<noteq> 0" "mem_rds (REG_ARG2 regs) (unat (REG_ARG3 regs)) (mach z) = Some bs"
    "write_vfs (kp_fs k) (sint (REG_ARG1 regs)) (Some bs) (load_files (set_cur (\<lambda>t. t\<lparr>syscall_regs := kp_regs k\<rparr>) (mach z))) = Some (r, s)"
  shows "syscall_dispatch k regs z = Some (regs\<lparr>eax := word_of_int r\<rparr>,
    z\<lparr>mach := set_cur (\<lambda>t. t\<lparr>syscall_regs := 0\<rparr>) (save_files s)\<rparr>)"
  using assms by (simp add: syscall_dispatch_def syscall_table_def Let_def sys_write_def int_result_def on_files_def)

definition sample_kparams :: "unit kparams" where
  "sample_kparams = \<lparr>kp_fs = \<lparr>e_km = kernel_alloc 1 16, e_kf = kernel_free 0, e_sched = id, e_irq = id\<rparr>,
     kp_pa = kernel_alloc 1 4096, kp_sched = id, kp_junk = \<lambda>_. 0, kp_esp = 0x0FFFFF00, kp_return = 0x100100,
     kp_regs = 0x0FFFFFD0, kp_behind = 0, kp_outb = \<lambda>_ _ w. w, kp_inb = \<lambda>_ w. (0, w)\<rparr>"

text \<open>A task with its descriptors open for writing on the standard output, and two bytes of its stack to write.\<close>

definition sample_writer :: "unit kernel_st" where
  "sample_writer = \<lparr>mach = set_cur (\<lambda>t. t\<lparr>t_files := \<lambda>_. \<lparr>vfs_node = 1, at_off = 0, oflag = O_WRONLY\<rparr>\<rparr>)
      ((fs_init sample_exec)\<lparr>vnodes := \<lambda>_. zero_node\<lparr>v_write := Some STDOUT\<rparr>\<rparr>), cur_tm = gmtime_static, dev = ()\<rparr>"

definition sample_bytes :: "u8 list" where
  "sample_bytes = bytes (view 0xFFFFF000 (unat USTACK_END) 0x123000 (fs_init sample_exec)) 0xFFFFF000 2"

lemma mem_rds_sample_writer: "mem_rds 0xFFFFF000 2 (mach sample_writer) = Some sample_bytes"
proof -
  have "mem_rds (of_nat 0xFFFFF000) 2 (fs_init sample_exec) = Some sample_bytes"
    unfolding sample_bytes_def by (rule mem_rds_view [OF stack_page_sample_exec]) simp_all
  moreover have "mem_rds a n (fs_init sample_exec) = mem_rds a n (mach sample_writer)" for a n
    by (rule mem_rds_cong) (simp add: sample_writer_def, simp add: mem_rd_def)
  ultimately show ?thesis by simp
qed

end
