(* ===== verification/Keyboard.thy ===== *)
theory Keyboard
  imports Vfs Ctype
begin

text \<open>
  The keyboard driver: \<^verbatim>\<open>kernel/src/drivers/kb.c\<close> with the codes of \<^verbatim>\<open>kb.h\<close>. The two static variables of the handler are the
  state of a machine whose inputs are the scan codes; the character it produces (0 for none) is written to the file
  \<open>stdin\<close>. The packet the handler computes is not used by the code and left out. A read outside of a table is
  \<open>None\<close>.
\<close>

section \<open>Tables and codes\<close>

definition sc_to_ascii :: "u8 list" where
  "sc_to_ascii = [0, 0,
     0x31, 0x32, 0x33, 0x34, 0x35, 0x36, 0x37, 0x38, 0x39, 0x30, 0x2D, 0x3D, 0x08, 0x09,
     0x71, 0x77, 0x65, 0x72, 0x74, 0x79, 0x75, 0x69, 0x6F, 0x70, 0x5B, 0x5D, 0x0A, 0,
     0x61, 0x73, 0x64, 0x66, 0x67, 0x68, 0x6A, 0x6B, 0x6C, 0x3B, 0x27, 0x60, 0,
     0x5C, 0x7A, 0x78, 0x63, 0x76, 0x62, 0x6E, 0x6D, 0x2C, 0x2E, 0x2F, 0, 0x2A, 0, 0x20]"

definition shift_lookup :: "u8 list" where
  "shift_lookup = [0x22, 0, 0, 0, 0, 0x3C, 0x5F, 0x3E, 0x3F,
     0x29, 0x21, 0x40, 0x23, 0x24, 0x25, 0x5E, 0x26,
     0x2A, 0x28, 0, 0x3A, 0, 0x2B, 0, 0,
     0, 0, 0, 0, 0, 0, 0, 0,
     0, 0, 0, 0, 0, 0, 0, 0,
     0, 0, 0, 0, 0, 0, 0, 0,
     0, 0, 0, 0x7B, 0x7C, 0x7D, 0, 0,
     0x7E, 0x41, 0x42, 0x43, 0x44, 0x45, 0x46, 0x47,
     0x48, 0x49, 0x4A, 0x4B, 0x4C, 0x4D, 0x4E, 0x4F,
     0x50, 0x51, 0x52, 0x53, 0x54, 0x55, 0x56, 0x57,
     0x58, 0x59, 0x5A]"

abbreviation (input) SCROLL_LOCK :: u16 where "SCROLL_LOCK \<equiv> 0x0001"
abbreviation (input) NUM_LOCK :: u16 where "NUM_LOCK \<equiv> 0x0002"
abbreviation (input) CAPS_LOCK :: u16 where "CAPS_LOCK \<equiv> 0x0004"
abbreviation (input) SHIFT :: u16 where "SHIFT \<equiv> 0x0008"
abbreviation (input) ALT :: u16 where "ALT \<equiv> 0x0010"
abbreviation (input) CONTROL :: u16 where "CONTROL \<equiv> 0x0020"
abbreviation (input) LSHIFT :: u16 where "LSHIFT \<equiv> 0x0040"
abbreviation (input) RSHIFT :: u16 where "RSHIFT \<equiv> 0x0080"
abbreviation (input) LALT :: u16 where "LALT \<equiv> 0x0100"
abbreviation (input) RALT :: u16 where "RALT \<equiv> 0x0200"
abbreviation (input) LCONTROL :: u16 where "LCONTROL \<equiv> 0x0400"
abbreviation (input) RCONTROL :: u16 where "RCONTROL \<equiv> 0x0800"
abbreviation (input) RELEASE :: u16 where "RELEASE \<equiv> 0x1000"
abbreviation (input) NUMPAD :: u16 where "NUMPAD \<equiv> 0x2000"

abbreviation (input) TFL_E0 :: u8 where "TFL_E0 \<equiv> 0x01"
abbreviation (input) TFL_E1 :: u8 where "TFL_E1 \<equiv> 0x02"
abbreviation (input) TFL_1D :: u8 where "TFL_1D \<equiv> 0x04"
abbreviation (input) TFL_2A :: u8 where "TFL_2A \<equiv> 0x08"
abbreviation (input) TFL_45 :: u8 where "TFL_45 \<equiv> 0x10"
abbreviation (input) TFL_9D :: u8 where "TFL_9D \<equiv> 0x20"

record kb_st =
  kb_flags :: u16
  tempfl :: u8

section \<open>The handler\<close>

text \<open>
  A branch of the switch over the scan code either returns with new \<open>tempfl\<close> or goes on with flags, key code and character.
\<close>

datatype kb_result = Prefix u8 | Key u16 u8 u8

definition kb_control :: "u8 \<Rightarrow> u8 \<Rightarrow> u16 \<Rightarrow> kb_result option" where
  "kb_control sc tfl fl =
     (if sc = 0x1C \<or> sc = 0x9C then
        let ascii = (if sc = 0x1C then 0x0A else 0) in
        Some (if tfl AND TFL_E0 \<noteq> 0 then Key (fl OR NUMPAD) 0x59 ascii else Key fl 0x1C ascii)
      else if sc = 0x1D then
        Some (if tfl AND TFL_E1 \<noteq> 0 then Prefix (tfl OR TFL_1D)
              else if tfl AND TFL_E0 \<noteq> 0 then Key (fl OR RCONTROL) 0x5A 0
              else Key (fl OR LCONTROL) 0x1D 0)
      else if sc = 0x9D then
        Some (if tfl AND (TFL_E1 OR TFL_1D OR TFL_45) = TFL_E1 OR TFL_1D OR TFL_45 then Prefix (tfl OR TFL_9D)
              else if tfl AND TFL_E0 \<noteq> 0 then Key (fl AND NOT RCONTROL AND NOT CONTROL) 0x5A 0
              else Key (fl AND NOT LCONTROL AND NOT CONTROL) 0x1D 0)
      else None)"

definition kb_shift :: "u8 \<Rightarrow> u8 \<Rightarrow> u16 \<Rightarrow> kb_result option" where
  "kb_shift sc tfl fl =
     (if sc = 0x2A then
        Some (if tfl AND TFL_E0 \<noteq> 0 then Prefix (tfl OR TFL_2A) else Key (fl OR LSHIFT) sc 0)
      else if sc = 0xAA then Some (Key (fl AND NOT LSHIFT AND NOT SHIFT) 0x2A 0)
      else if sc = 0x35 then
        Some (if tfl AND TFL_E0 \<noteq> 0 then Key (fl OR NUMPAD) 0x5B 0x2F else Key fl 0x35 0x2F)
      else if sc = 0x36 then Some (Key (fl OR RSHIFT) 0x36 0)
      else if sc = 0xB6 then Some (Key (fl AND NOT RSHIFT AND NOT SHIFT) 0x36 0)
      else if sc = 0x37 then
        Some (if tfl AND TFL_E0 \<noteq> 0 \<and> tfl AND TFL_2A \<noteq> 0 then Key fl 0x6A 0 else Key (fl OR NUMPAD) 0x37 0x2A)
      else None)"

definition kb_alt_locks :: "u8 \<Rightarrow> u8 \<Rightarrow> u16 \<Rightarrow> kb_result option" where
  "kb_alt_locks sc tfl fl =
     (if sc = 0x38 then
        Some (if tfl AND TFL_E0 \<noteq> 0 then Key (fl OR RALT) 0x5C 0 else Key (fl OR LALT) 0x38 0)
      else if sc = 0xB8 then
        Some (if tfl AND TFL_E0 \<noteq> 0 then Key (fl AND NOT RALT AND NOT ALT) 0x5C 0
              else Key (fl AND NOT LALT AND NOT ALT) 0x38 0)
      else if sc = 0x3A then Some (Key (fl XOR CAPS_LOCK) 0x3A 0)
      else if sc = 0x45 then
        Some (if tfl AND TFL_E1 \<noteq> 0 \<and> tfl AND TFL_1D \<noteq> 0 then Prefix (tfl OR TFL_45)
              else Key (fl XOR NUM_LOCK) 0x45 0)
      else if sc = 0xC5 then
        Some (Key fl (if tfl AND (TFL_E1 OR TFL_1D OR TFL_45 OR TFL_9D) = TFL_E1 OR TFL_1D OR TFL_45 OR TFL_9D
                      then 0x6B else 0) 0)
      else if sc = 0x46 then Some (Key (fl XOR SCROLL_LOCK) 0x46 0)
      else None)"

text \<open>The keys of the number pad: by the lock and the prefix a move key or a digit.\<close>

definition num_key :: "u8 \<Rightarrow> u16 \<Rightarrow> u8 \<Rightarrow> u8 \<Rightarrow> u8 \<Rightarrow> u8 \<Rightarrow> kb_result option" where
  "num_key tfl fl move move_ascii num ascii =
     Some (if tfl AND TFL_E0 \<noteq> 0 \<or> fl AND NUM_LOCK = 0 then Key fl move move_ascii else Key (fl OR NUMPAD) num ascii)"

definition kb_numpad :: "u8 \<Rightarrow> u8 \<Rightarrow> u16 \<Rightarrow> kb_result option" where
  "kb_numpad sc tfl fl =
     (if sc = 0x47 then num_key tfl fl 0x5D 0 0x47 0x37
      else if sc = 0x48 then num_key tfl fl 0x5E 0 0x48 0x38
      else if sc = 0x49 then num_key tfl fl 0x5F 0 0x49 0x39
      else if sc = 0x4A then Some (Key (fl OR NUMPAD) 0x4A 0x2D)
      else if sc = 0x4B then num_key tfl fl 0x60 0 0x4B 0x34
      else if sc = 0x4C then Some (Key (fl OR NUMPAD) 0x4C 0x35)
      else if sc = 0x4D then num_key tfl fl 0x61 0 0x4D 0x36
      else if sc = 0x4E then Some (Key (fl OR NUMPAD) 0x4E 0x2B)
      else if sc = 0x4F then num_key tfl fl 0x62 0 0x4F 0x31
      else if sc = 0x50 then num_key tfl fl 0x63 0 0x50 0x32
      else if sc = 0x51 then num_key tfl fl 0x64 0 0x51 0x33
      else if sc = 0x52 then num_key tfl fl 0x65 0 0x52 0x30
      else if sc = 0x53 then num_key tfl fl 0x66 0x7F 0x53 0x2E
      else None)"

definition kb_default :: "u8 \<Rightarrow> u16 \<Rightarrow> kb_result option" where
  "kb_default sc fl =
     (if sc \<le> 0x39 then
        (if unat sc < length sc_to_ascii then Some (Key fl sc (sc_to_ascii ! unat sc)) else None)
      else Some (Key fl sc 0))"

definition kb_switch :: "u8 \<Rightarrow> u8 \<Rightarrow> u16 \<Rightarrow> kb_result option" where
  "kb_switch sc tfl fl =
     (case kb_control sc tfl fl of Some r \<Rightarrow> Some r | None \<Rightarrow>
      case kb_shift sc tfl fl of Some r \<Rightarrow> Some r | None \<Rightarrow>
      case kb_alt_locks sc tfl fl of Some r \<Rightarrow> Some r | None \<Rightarrow>
      case kb_numpad sc tfl fl of Some r \<Rightarrow> Some r | None \<Rightarrow> kb_default sc fl)"

definition kb_modifiers :: "u16 \<Rightarrow> u16" where
  "kb_modifiers fl =
     (let fl = (if fl AND RSHIFT \<noteq> 0 \<or> fl AND LSHIFT \<noteq> 0 then fl OR SHIFT else fl);
          fl = (if fl AND RALT \<noteq> 0 \<or> fl AND LALT \<noteq> 0 then fl OR ALT else fl) in
      if fl AND RCONTROL \<noteq> 0 \<or> fl AND LCONTROL \<noteq> 0 then fl OR CONTROL else fl)"

definition kb_ascii :: "u16 \<Rightarrow> u8 \<Rightarrow> u8 option" where
  "kb_ascii fl ascii =
     (if 0 < ascii \<and> ascii < 0x7F then do {
        ascii \<leftarrow> (if ascii \<ge> 0x27 \<and> fl AND SHIFT \<noteq> 0 \<and> fl AND NUMPAD = 0 then
                   (if unat (ascii - 0x27) < length shift_lookup then Some (shift_lookup ! unat (ascii - 0x27)) else None)
                 else Some ascii);
        Some (if fl AND CAPS_LOCK \<noteq> 0 then
                if k_islower ascii \<noteq> 0 then word_of_int (k_toupper ascii)
                else if k_isupper ascii \<noteq> 0 then word_of_int (k_tolower ascii)
                else ascii
              else ascii)
      }
      else Some ascii)"

text \<open>One scan code; the character to write is 0 if there is none.\<close>

definition kb_step :: "u8 \<Rightarrow> kb_st \<Rightarrow> (u8 \<times> kb_st) option" where
  "kb_step sc s =
     (if sc = 0xE0 then Some (0, s\<lparr>tempfl := tempfl s OR TFL_E0\<rparr>)
      else if sc = 0xE1 then Some (0, s\<lparr>tempfl := tempfl s OR TFL_E1\<rparr>)
      else do {
        let fl = (if sc AND 0x80 \<noteq> 0 then kb_flags s OR RELEASE else kb_flags s);
        r \<leftarrow> kb_switch sc (tempfl s) fl;
        case r of
          Prefix tfl \<Rightarrow> Some (0, \<lparr>kb_flags = fl, tempfl = tfl\<rparr>)
        | Key fl keycode ascii \<Rightarrow> do {
            let fl = kb_modifiers fl;
            ascii \<leftarrow> kb_ascii fl ascii;
            Some (ascii, \<lparr>kb_flags = fl AND NOT NUMPAD AND NOT RELEASE, tempfl = 0\<rparr>)
          }
      })"

definition kb_handler :: "'h env \<Rightarrow> int \<Rightarrow> u8 \<Rightarrow> kb_st \<times> 'h fs_st \<Rightarrow> (kb_st \<times> 'h fs_st) option" where
  "kb_handler e stdin_fd sc z = do {
     (ascii, kb) \<leftarrow> kb_step sc (fst z);
     (_, s) \<leftarrow> (if ascii > 0 then write_lib e stdin_fd (Some [ascii]) (snd z) else Some (0, snd z));
     Some (kb, s)
   }"

definition init_kb :: "'h env \<Rightarrow> 'h fs_st \<Rightarrow> (int \<times> 'h fs_st) option" where
  "init_kb e s = open_lib e (Some [0x73, 0x74, 0x64, 0x69, 0x6E]) O_WRONLY 0 s"

section \<open>Reachable states\<close>

inductive kb_reach :: "kb_st \<Rightarrow> bool" where
  start: "kb_reach \<lparr>kb_flags = 0, tempfl = 0\<rparr>"
| step: "kb_reach s \<Longrightarrow> kb_step sc s = Some (ascii, s') \<Longrightarrow> kb_reach s'"

text \<open>The flags as bits.\<close>

lemma flag_bit:
  "(w :: u16) AND 0x0002 = 0 \<longleftrightarrow> \<not> bit w 1" "w AND 0x0004 = 0 \<longleftrightarrow> \<not> bit w 2" "w AND 0x0008 = 0 \<longleftrightarrow> \<not> bit w 3"
  "w AND 0x0010 = 0 \<longleftrightarrow> \<not> bit w 4" "w AND 0x0020 = 0 \<longleftrightarrow> \<not> bit w 5" "w AND 0x0040 = 0 \<longleftrightarrow> \<not> bit w 6"
  "w AND 0x0080 = 0 \<longleftrightarrow> \<not> bit w 7" "w AND 0x0100 = 0 \<longleftrightarrow> \<not> bit w 8" "w AND 0x0200 = 0 \<longleftrightarrow> \<not> bit w 9"
  "w AND 0x0400 = 0 \<longleftrightarrow> \<not> bit w 10" "w AND 0x0800 = 0 \<longleftrightarrow> \<not> bit w 11" "w AND 0x2000 = 0 \<longleftrightarrow> \<not> bit w 13"
  using and_exp_eq_0_iff_not_bit [of w 1] and_exp_eq_0_iff_not_bit [of w 2] and_exp_eq_0_iff_not_bit [of w 3]
    and_exp_eq_0_iff_not_bit [of w 4] and_exp_eq_0_iff_not_bit [of w 5] and_exp_eq_0_iff_not_bit [of w 6]
    and_exp_eq_0_iff_not_bit [of w 7] and_exp_eq_0_iff_not_bit [of w 8] and_exp_eq_0_iff_not_bit [of w 9]
    and_exp_eq_0_iff_not_bit [of w 10] and_exp_eq_0_iff_not_bit [of w 11] and_exp_eq_0_iff_not_bit [of w 13]
  by simp_all

lemma or_set_bit: "bit (w :: u16) k \<Longrightarrow> w OR 2 ^ k = w"
  by (intro bit_word_eqI) (auto simp: bit_or_iff bit_exp_iff)

lemma and_clear_bit: "\<not> bit (w :: u16) k \<Longrightarrow> w AND NOT (2 ^ k) = w"
  by (intro bit_word_eqI) (auto simp: bit_and_iff bit_not_iff bit_exp_iff)

text \<open>Each common flag says that one of its two keys is down; before \<open>kb_modifiers\<close> one direction holds.\<close>

definition flags_ok :: "u16 \<Rightarrow> bool" where
  "flags_ok w \<longleftrightarrow> (bit w 3 \<longleftrightarrow> bit w 6 \<or> bit w 7) \<and> (bit w 4 \<longleftrightarrow> bit w 8 \<or> bit w 9) \<and> (bit w 5 \<longleftrightarrow> bit w 10 \<or> bit w 11)"

definition flags_half :: "u16 \<Rightarrow> bool" where
  "flags_half w \<longleftrightarrow> (bit w 3 \<longrightarrow> bit w 6 \<or> bit w 7) \<and> (bit w 4 \<longrightarrow> bit w 8 \<or> bit w 9) \<and> (bit w 5 \<longrightarrow> bit w 10 \<or> bit w 11)"

lemma kb_modifiers_ok: "flags_half w \<Longrightarrow> flags_ok (kb_modifiers w)"
  by (auto simp: kb_modifiers_def flags_half_def flags_ok_def flag_bit bit_simps Let_def)

lemma flags_ok_upd:
  "flags_ok w \<Longrightarrow> flags_ok (w OR RELEASE)" "flags_ok w \<Longrightarrow> flags_ok (w AND NOT NUMPAD AND NOT RELEASE)"
  by (auto simp: flags_ok_def bit_simps)

fun result_ok :: "kb_result \<Rightarrow> bool" where
  "result_ok (Prefix t) = True"
| "result_ok (Key fl kc a) = (flags_half fl \<and> (a \<le> 0x7A \<or> a = 0x7F))"

lemma flags_half_upd:
  assumes "flags_ok w"
  shows "flags_half w" "flags_half (w OR NUMPAD)" "flags_half (w OR RCONTROL)" "flags_half (w OR LCONTROL)"
    "flags_half (w OR RSHIFT)" "flags_half (w OR LSHIFT)" "flags_half (w OR RALT)" "flags_half (w OR LALT)"
    "flags_half (w AND NOT RCONTROL AND NOT CONTROL)" "flags_half (w AND NOT LCONTROL AND NOT CONTROL)"
    "flags_half (w AND NOT RSHIFT AND NOT SHIFT)" "flags_half (w AND NOT LSHIFT AND NOT SHIFT)"
    "flags_half (w AND NOT RALT AND NOT ALT)" "flags_half (w AND NOT LALT AND NOT ALT)"
    "flags_half (w XOR CAPS_LOCK)" "flags_half (w XOR NUM_LOCK)" "flags_half (w XOR SCROLL_LOCK)"
  using assms by (simp_all add: flags_ok_def flags_half_def bit_simps)

lemmas flags_half_simps = flags_half_upd flags_half_upd(9-14) [simplified]

lemma kb_control_ok: "flags_ok fl \<Longrightarrow> kb_control sc tfl fl = Some r \<Longrightarrow> result_ok r"
  by (auto simp: kb_control_def Let_def flags_half_simps split: if_splits)

lemma kb_shift_ok: "flags_ok fl \<Longrightarrow> kb_shift sc tfl fl = Some r \<Longrightarrow> result_ok r"
  by (auto simp: kb_shift_def flags_half_simps split: if_splits)

lemma kb_alt_locks_ok: "flags_ok fl \<Longrightarrow> kb_alt_locks sc tfl fl = Some r \<Longrightarrow> result_ok r"
  by (auto simp: kb_alt_locks_def flags_half_simps split: if_splits)

lemma num_key_ok:
  "flags_ok fl \<Longrightarrow> num_key tfl fl m ma n a = Some r \<Longrightarrow> ma \<le> 0x7A \<or> ma = 0x7F \<Longrightarrow> a \<le> 0x7A \<Longrightarrow> result_ok r"
  by (auto simp: num_key_def flags_half_simps split: if_splits)

lemma kb_numpad_ok: "flags_ok fl \<Longrightarrow> kb_numpad sc tfl fl = Some r \<Longrightarrow> result_ok r"
  by (auto simp: kb_numpad_def flags_half_simps intro: num_key_ok split: if_splits)

lemma kb_default_ok: "flags_ok fl \<Longrightarrow> \<exists>r. kb_default sc fl = Some r \<and> result_ok r"
proof -
  assume fl: "flags_ok fl"
  have "\<forall>a \<in> set sc_to_ascii. a \<le> 0x7A" by (simp add: sc_to_ascii_def)
  moreover have "length sc_to_ascii = 58" by (simp add: sc_to_ascii_def)
  moreover have "unat sc < 58" if "sc \<le> 0x39" using that by (simp add: word_le_nat_alt)
  ultimately show ?thesis using fl by (auto simp: kb_default_def flags_ok_def flags_half_def)
qed

lemma kb_switch_ok: "flags_ok fl \<Longrightarrow> \<exists>r. kb_switch sc tfl fl = Some r \<and> result_ok r"
  using kb_control_ok kb_shift_ok kb_alt_locks_ok kb_numpad_ok kb_default_ok [of fl sc]
  by (auto simp: kb_switch_def split: option.splits)

lemma kb_ascii_total: "a \<le> 0x7A \<or> a = 0x7F \<Longrightarrow> \<exists>c. kb_ascii fl a = Some c"
proof -
  assume "a \<le> 0x7A \<or> a = 0x7F"
  moreover have "length shift_lookup = 84" by (simp add: shift_lookup_def)
  moreover have "unat (a - 0x27) < 84" if "a \<ge> 0x27" "a \<le> 0x7A"
    using that by (simp add: unat_sub word_le_nat_alt)
  ultimately show ?thesis by (auto simp: kb_ascii_def)
qed

text \<open>Between two keys \<open>RELEASE\<close> is clear too.\<close>

definition kb_ok :: "kb_st \<Rightarrow> bool" where
  "kb_ok s \<longleftrightarrow> flags_ok (kb_flags s) \<and> \<not> bit (kb_flags s) 13 \<and> (tempfl s = 0 \<longrightarrow> \<not> bit (kb_flags s) 12)"

lemma kb_prefix_nonzero: "kb_switch sc tfl fl = Some (Prefix t) \<Longrightarrow> t \<noteq> 0"
  by (auto simp: kb_switch_def kb_control_def kb_shift_def kb_alt_locks_def kb_numpad_def kb_default_def num_key_def Let_def
      or_eq_0_iff split: option.splits if_splits)

lemma kb_step_ok:
  assumes "kb_ok s"
  shows "\<exists>a s'. kb_step sc s = Some (a, s') \<and> kb_ok s'"
proof -
  define fl where "fl = (if sc AND 0x80 \<noteq> 0 then kb_flags s OR RELEASE else kb_flags s)"
  have fl: "flags_ok fl" "\<not> bit fl 13" using assms flags_ok_upd(1) by (auto simp: kb_ok_def fl_def bit_simps)
  obtain r where r: "kb_switch sc (tempfl s) fl = Some r" "result_ok r" using kb_switch_ok [OF fl(1)] by blast
  show ?thesis
  proof (cases r)
    case (Prefix t)
    then show ?thesis using assms fl r(1) kb_prefix_nonzero [of sc "tempfl s" fl t]
      by (simp add: kb_step_def fl_def [symmetric] kb_ok_def or_eq_0_iff)
  next
    case (Key fl' kc a)
    obtain c where "kb_ascii (kb_modifiers fl') a = Some c" using kb_ascii_total r(2) Key by force
    moreover have "flags_ok (kb_modifiers fl' AND NOT NUMPAD AND NOT RELEASE)"
      using r(2) Key by (intro flags_ok_upd kb_modifiers_ok) simp
    ultimately show ?thesis using assms r(1) Key
      by (simp add: kb_step_def fl_def [symmetric] Let_def bit_simps kb_ok_def or_eq_0_iff)
  qed
qed

lemma kb_reach_ok: "kb_reach s \<Longrightarrow> kb_ok s"
proof (induction rule: kb_reach.induct)
  case (step s sc a s')
  then show ?case using kb_step_ok [of s sc] by auto
qed (simp add: kb_ok_def flags_ok_def)

section \<open>Letters\<close>

definition letter_keys :: "u8 list" where
  "letter_keys = [0x10, 0x11, 0x12, 0x13, 0x14, 0x15, 0x16, 0x17, 0x18, 0x19, 0x1E, 0x1F, 0x20, 0x21, 0x22, 0x23, 0x24, 0x25, 0x26,
     0x2C, 0x2D, 0x2E, 0x2F, 0x30, 0x31, 0x32]"

lemma letter_keys_plain:
  "\<forall>sc \<in> set letter_keys. sc \<notin> {0xE0, 0xE1, 0x1C, 0x9C, 0x1D, 0x9D, 0x2A, 0xAA, 0x35, 0x36, 0xB6, 0x37, 0x38, 0xB8, 0x3A, 0x45, 0xC5, 0x46,
     0x47, 0x48, 0x49, 0x4A, 0x4B, 0x4C, 0x4D, 0x4E, 0x4F, 0x50, 0x51, 0x52, 0x53} \<and> sc \<le> 0x39 \<and> sc AND 0x80 = 0"
  by (simp add: letter_keys_def)

lemma letter_keys_ascii:
  "\<forall>sc \<in> set letter_keys. 0x61 \<le> sc_to_ascii ! unat sc \<and> sc_to_ascii ! unat sc \<le> 0x7A"
  by (simp add: letter_keys_def sc_to_ascii_def)

lemma letter_switch:
  assumes "sc \<in> set letter_keys"
  shows "kb_switch sc tfl fl = Some (Key fl sc (sc_to_ascii ! unat sc))"
proof -
  note p = bspec [OF letter_keys_plain assms]
  have "length sc_to_ascii = 58" by (simp add: sc_to_ascii_def)
  moreover have "unat sc < 58" using p by (simp add: word_le_nat_alt)
  ultimately have "kb_default sc fl = Some (Key fl sc (sc_to_ascii ! unat sc))" using p by (simp add: kb_default_def)
  moreover have "kb_control sc tfl fl = None" "kb_shift sc tfl fl = None" "kb_alt_locks sc tfl fl = None" "kb_numpad sc tfl fl = None"
    using p by (simp_all add: kb_control_def kb_shift_def kb_alt_locks_def kb_numpad_def)
  ultimately show ?thesis by (simp add: kb_switch_def)
qed

text \<open>The table of shifted characters has the capital at the place of each letter.\<close>

lemma shift_lookup_letter:
  assumes "0x61 \<le> c" "c \<le> 0x7A"
  shows "unat (c - 0x27) < length shift_lookup \<and> shift_lookup ! unat (c - 0x27) = c - 0x20"
proof -
  define n where "n = unat c"
  have n: "97 \<le> n" "n \<le> 122" "c = of_nat n" using assms by (auto simp: n_def word_le_nat_alt)
  have "n \<in> set [97..<123]" unfolding set_upt using n by simp
  moreover have "\<forall>n \<in> set [97..<123]. unat (of_nat n - 0x27 :: u8) < length shift_lookup
      \<and> shift_lookup ! unat (of_nat n - 0x27 :: u8) = of_nat n - 0x20"
    by (simp add: shift_lookup_def upt_rec_numeral)
  ultimately show ?thesis using n(3) by blast
qed

lemma sint_char: "uint (c :: u8) < 128 \<Longrightarrow> sint c = uint c"
  using signed_take_bit_int_eq_self [of 7 "uint c"] uint_ge_0 [of c] by (simp add: sint_uint)

lemma kb_ascii_letter:
  assumes c: "0x61 \<le> c" "c \<le> 0x7A" and np: "fl AND NUMPAD = 0"
  shows "kb_ascii fl c = Some (if (fl AND SHIFT \<noteq> 0) \<noteq> (fl AND CAPS_LOCK \<noteq> 0) then c - 0x20 else c)"
proof -
  have u: "97 \<le> uint c" "uint c \<le> 122" using c by (simp_all add: word_le_def)
  have si: "sint c = uint c" using u by (intro sint_char) simp
  have uc: "uint (c - 0x20) = uint c - 32" using u by (simp add: uint_sub_if')
  have si': "sint (c - 0x20) = uint c - 32" using u uc sint_char [of "c - 0x20"] by simp
  have lower: "k_islower c \<noteq> 0" "word_of_int (k_toupper c) = c - 0x20" "k_islower (c - 0x20) = 0" "k_isupper (c - 0x20) \<noteq> 0"
      "word_of_int (k_tolower (c - 0x20)) = c"
    using u by (simp_all add: k_ctype_defs ctype_defs si si')
  have "0 < c" "c < 0x7F" "0x27 \<le> c" using u by (simp_all add: word_less_def word_le_def)
  then show ?thesis using lower shift_lookup_letter [OF c] np by (simp add: kb_ascii_def)
qed

section \<open>Properties\<close>



text \<open>
  C23. Typing: the scan code of a letter key, in a reachable state of the keyboard that expects no rest of a sequence, with the
  driver's descriptor open for writing on standard input and the writer not before the reader in the buffer of standard input and
  not at its end, appends one character to the unread bytes of standard input: the capital letter if exactly one of shift
  and caps lock is on, else the small one. The state of the keyboard does not change.
\<close>

theorem kb_types_letters:
  assumes "kb_reach s" "tempfl s = 0" "sc \<in> set letter_keys"
    "\<not> bad_fd fd z" "oflag (files z (nat fd)) AND O_WRONLY \<noteq> 0" "v_write (vnodes z (vfs_node (files z (nat fd)))) = Some STDIN"
    "in_read_at z \<le> in_write_at z" "in_write_at z < 1024"
  shows "\<exists>z'. kb_handler e fd sc (s, z) = Some (s, z') \<and> pending z' = pending z
    @ [if (kb_flags s AND SHIFT \<noteq> 0) \<noteq> (kb_flags s AND CAPS_LOCK \<noteq> 0) then sc_to_ascii ! unat sc - 0x20 else sc_to_ascii ! unat sc]"
proof -
  let ?c = "if (kb_flags s AND SHIFT \<noteq> 0) \<noteq> (kb_flags s AND CAPS_LOCK \<noteq> 0) then sc_to_ascii ! unat sc - 0x20 else sc_to_ascii ! unat sc"
  have ok: "flags_ok (kb_flags s)" "\<not> bit (kb_flags s) 13" "\<not> bit (kb_flags s) 12"
    using kb_reach_ok [OF assms(1)] assms(2) by (auto simp: kb_ok_def)
  have m: "kb_modifiers (kb_flags s) = kb_flags s"
  proof -
    have "kb_flags s OR SHIFT = kb_flags s" if "bit (kb_flags s) 3" using or_set_bit [OF that] by simp
    moreover have "kb_flags s OR ALT = kb_flags s" if "bit (kb_flags s) 4" using or_set_bit [OF that] by simp
    moreover have "kb_flags s OR CONTROL = kb_flags s" if "bit (kb_flags s) 5" using or_set_bit [OF that] by simp
    ultimately show ?thesis using ok(1) by (auto simp: kb_modifiers_def flags_ok_def flag_bit Let_def)
  qed
  have clear: "kb_flags s AND NOT NUMPAD AND NOT RELEASE = kb_flags s"
  proof -
    have "kb_flags s AND NOT (2 ^ 13) AND NOT (2 ^ 12) = kb_flags s"
      by (simp only: and.assoc [symmetric] and_clear_bit [OF ok(2)] and_clear_bit [OF ok(3)])
    then show ?thesis by simp
  qed
  note p = bspec [OF letter_keys_plain assms(3)] and c = bspec [OF letter_keys_ascii assms(3)]
  have "kb_ascii (kb_flags s) (sc_to_ascii ! unat sc) = Some ?c" using c ok(2) by (intro kb_ascii_letter) (simp_all add: flag_bit)
  then have step: "kb_step sc s = Some (?c, s)"
    using p letter_switch [OF assms(3)] m clear assms(2) by (simp add: kb_step_def Let_def)
  have "?c > 0"
  proof -
    have "97 \<le> unat (sc_to_ascii ! unat sc)" using c by (simp add: word_le_nat_alt)
    then have "unat (sc_to_ascii ! unat sc - 0x20) = unat (sc_to_ascii ! unat sc) - 32" by (simp add: unat_sub word_le_nat_alt)
    then show ?thesis using \<open>97 \<le> _\<close> by (simp add: word_less_nat_alt)
  qed
  moreover have "pending (snd (write_stdin [?c] z)) = pending z @ [?c]"
    using stdin_write_loop_queue [of z "[?c]"] assms(7,8) by (simp add: write_stdin_def)
  ultimately show ?thesis using step assms(4-6)
    by (simp add: kb_handler_def write_lib_def write_vfs_def call_write_def case_prod_unfold)
qed

definition sample_kb_fs :: "unit fs_st" where
  "sample_kb_fs = (fs_init ())\<lparr>vnodes := \<lambda>_. zero_node\<lparr>v_write := Some STDIN\<rparr>,
     files := \<lambda>_. \<lparr>vfs_node = 0x100, at_off = 0, oflag = O_WRONLY\<rparr>\<rparr>"

theorem kb_types_letters_witness:
  "let s = \<lparr>kb_flags = 0, tempfl = 0\<rparr>; e = \<lparr>e_km = \<lambda>s _. (0, s), e_kf = \<lambda>s _. s, e_sched = id, e_irq = id\<rparr> in
   \<exists>z'. kb_handler e 3 0x1E (s, sample_kb_fs) = Some (s, z') \<and> pending z' = pending sample_kb_fs
    @ [if (kb_flags s AND SHIFT \<noteq> 0) \<noteq> (kb_flags s AND CAPS_LOCK \<noteq> 0) then sc_to_ascii ! unat (0x1E :: u8) - 0x20
       else sc_to_ascii ! unat (0x1E :: u8)]"
  unfolding Let_def
  by (rule kb_types_letters [OF kb_reach.start])
    (simp_all add: letter_keys_def sample_kb_fs_def fs_init_def bad_fd_def zero_node_def)

end
