(* ===== verification/Format.thy ===== *)
theory Format
  imports Time Ctype
begin

text \<open>
  Formatted output: \<^verbatim>\<open>kernel/lib/vsprintf.c\<close>, and \<open>atoi\<close>, \<open>div\<close> and \<open>abs\<close> of \<^verbatim>\<open>kernel/lib/stdlib.c\<close>. Strings are lists of
  bytes without their NUL. The variable arguments are a list; taking one that is not there, or of another kind, and
  reading behind the format are \<open>None\<close>. What a conversion prints is appended to the output; the stores of
  \<open>%n\<close> are recorded with their addresses.
\<close>

section \<open>Numbers\<close>

text \<open>\<open>atoi_ptr\<close> and \<open>atoi\<close> run over the digits; the value wraps around as the 32-bit addition does.\<close>

fun atoi_ptr :: "u8 list \<Rightarrow> int \<Rightarrow> int \<times> u8 list" where
  "atoi_ptr [] i = (i, [])"
| "atoi_ptr (c # cs) i = (if k_isdigit c \<noteq> 0 then atoi_ptr cs (i32 (i * 10 + sint c - 0x30)) else (i, c # cs))"

definition atoi :: "u8 list \<Rightarrow> int" where
  "atoi str = fst (atoi_ptr str 0)"

text \<open>C division truncates; by 0, and of the least number by -1, it traps.\<close>

definition div_c :: "int \<Rightarrow> int \<Rightarrow> (int \<times> int) option" where
  "div_c numer denom =
     (if denom = 0 \<or> (numer = - 2147483648 \<and> denom = - 1) then None else Some (numer sdiv denom, numer smod denom))"

definition abs_c :: "int \<Rightarrow> int" where
  "abs_c n = (if n < 0 then i32 (- n) else n)"

abbreviation (input) FL_SIGN :: u8 where "FL_SIGN \<equiv> 0x01"
abbreviation (input) FL_LEFT_JUSTIFY :: u8 where "FL_LEFT_JUSTIFY \<equiv> 0x02"
abbreviation (input) FL_PLUS :: u8 where "FL_PLUS \<equiv> 0x04"
abbreviation (input) FL_SPACE :: u8 where "FL_SPACE \<equiv> 0x08"
abbreviation (input) FL_SPECIAL :: u8 where "FL_SPECIAL \<equiv> 0x10"
abbreviation (input) FL_ZEROPAD :: u8 where "FL_ZEROPAD \<equiv> 0x20"
abbreviation (input) FL_SMALL :: u8 where "FL_SMALL \<equiv> 0x40"

text \<open>The digit tables: 0 to 9, then the letters from \<open>a\<close> on.\<close>

definition digs :: "u8 \<Rightarrow> u8 list" where
  "digs a = map (\<lambda>i. 0x30 + of_nat i) [0..<10] @ map (\<lambda>i. a + of_nat i) [0..<26]"

function num_loop :: "u8 list \<Rightarrow> nat \<Rightarrow> nat \<Rightarrow> u8 list" where
  "num_loop ds base num = (if num = 0 \<or> base < 2 then [] else ds ! (num mod base) # num_loop ds base (num div base))"
  by pat_completeness auto
termination by (relation "measure (\<lambda>(ds, base, num). num)") auto

declare num_loop.simps [simp del]

text \<open>\<open>while (width-- > 0) *str++ = c\<close>: the padding and \<open>width\<close> afterwards.\<close>

definition pad_loop :: "u8 \<Rightarrow> int \<Rightarrow> u8 list \<times> int" where
  "pad_loop c width = (replicate (nat width) c, min width 0 - 1)"

definition num_sign :: "int \<Rightarrow> u8 \<Rightarrow> u8 \<times> u32" where
  "num_sign number flags =
     (if flags AND FL_SIGN \<noteq> 0 \<and> number < 0 then (0x2D, word_of_int (- number))
      else (if flags AND FL_PLUS \<noteq> 0 then 0x2B else if flags AND FL_SPACE \<noteq> 0 then 0x20 else 0, word_of_int number))"

definition numstr :: "int \<Rightarrow> int \<Rightarrow> int \<Rightarrow> int \<Rightarrow> u8 \<Rightarrow> u8 list option" where
  "numstr number base width prec flags =
     (let width = (if width < 0 then - width else width);
          ds = (if flags AND FL_SMALL \<noteq> 0 then digs 0x61 else digs 0x41) in
      if base < 2 \<or> base > 36 then None
      else
        let c = (if flags AND FL_ZEROPAD \<noteq> 0 then 0x30 else 0x20);
            (sign, num) = num_sign number flags;
            width = (if sign \<noteq> 0 then width - 1 else width);
            width = (if flags AND FL_SPECIAL \<noteq> 0 then if base = 16 then width - 2 else if base = 8 then width - 1 else width
                     else width);
            tmp = (if num = 0 then [0x30] else num_loop ds (nat base) (unat num));
            i = int (length tmp);
            prec = (if i > prec then i else prec);
            width = width - prec;
            (pad1, width) = (if flags AND (FL_LEFT_JUSTIFY + FL_ZEROPAD) = 0 then pad_loop 0x20 width else ([], width));
            prefix = (if flags AND FL_SPECIAL \<noteq> 0 then if base = 8 then [0x30] else if base = 16 then [0x30, ds ! 33] else [] else []);
            (pad2, width) = (if flags AND FL_LEFT_JUSTIFY = 0 then pad_loop c width else ([], width)) in
        Some (pad1 @ (if sign \<noteq> 0 then [sign] else []) @ prefix @ pad2 @ replicate (nat (prec - i)) 0x30 @ rev tmp
              @ fst (pad_loop 0x20 width)))"

section \<open>The format machine\<close>

datatype arg = AInt u32 | AStr "u8 list option" | APtr u32

record vs_st =
  vs_fmt :: "u8 list"
  vs_args :: "arg list"
  vs_state :: nat
  vs_flags :: u8
  vs_width :: int
  vs_prec :: int
  vs_len :: int
  vs_out :: "u8 list"
  vs_stores :: "(u32 \<times> int) list"

definition cur_char :: "vs_st \<Rightarrow> u8" where
  "cur_char s = (case vs_fmt s of [] \<Rightarrow> 0 | c # _ \<Rightarrow> c)"

definition skip_char :: "vs_st \<Rightarrow> vs_st" where
  "skip_char s = s\<lparr>vs_fmt := tl (vs_fmt s)\<rparr>"

definition emit :: "u8 list \<Rightarrow> vs_st \<Rightarrow> vs_st" where
  "emit bs s = s\<lparr>vs_out := vs_out s @ bs\<rparr>"

definition va_int :: "vs_st \<Rightarrow> (int \<times> vs_st) option" where
  "va_int s = (case vs_args s of AInt w # as \<Rightarrow> Some (sint w, s\<lparr>vs_args := as\<rparr>) | _ \<Rightarrow> None)"

text \<open>A number or a star, for width and precision; \<open>None\<close> inside if there is neither.\<close>

definition vs_number :: "vs_st \<Rightarrow> (int option \<times> vs_st) option" where
  "vs_number s =
     (if k_isdigit (cur_char s) \<noteq> 0 then
        let (n, rest) = atoi_ptr (vs_fmt s) 0 in Some (Some n, s\<lparr>vs_fmt := rest\<rparr>)
      else if cur_char s = 0x2A then do { (n, s) \<leftarrow> va_int s; Some (Some n, skip_char s) }
      else Some (None, s))"

text \<open>The integer argument of a conversion, by the length modifier.\<close>

definition vs_value :: "vs_st \<Rightarrow> (int \<times> vs_st) option" where
  "vs_value s = do {
     (n, s) \<leftarrow> va_int s;
     Some (if vs_len s = - 1 then sint (word_of_int n :: 16 word) else n, s)
   }"

definition vs_num :: "int \<Rightarrow> u8 \<Rightarrow> vs_st \<Rightarrow> vs_st option" where
  "vs_num base fl s = do {
     let s = s\<lparr>vs_flags := vs_flags s OR fl\<rparr>;
     (n, s) \<leftarrow> vs_value s;
     str \<leftarrow> numstr n base (vs_width s) (vs_prec s) (vs_flags s);
     Some (emit str s)
   }"

definition vs_char :: "vs_st \<Rightarrow> vs_st option" where
  "vs_char s = do {
     let pad = replicate (nat (vs_width s - 1)) 0x20;
     (n, s) \<leftarrow> va_int s;
     Some (emit (if vs_flags s AND FL_LEFT_JUSTIFY = 0 then pad @ [word_of_int n] else [word_of_int n] @ pad) s)
   }"

definition vs_str :: "vs_st \<Rightarrow> vs_st option" where
  "vs_str s =
     (case vs_args s of
        AStr None # as \<Rightarrow> Some (s\<lparr>vs_args := as\<rparr>)
      | AStr (Some str) # as \<Rightarrow>
          let slen = (if vs_prec s < 0 then int (length str) else min (int (length str)) (vs_prec s));
              pad = replicate (nat (vs_width s - slen)) 0x20;
              str = take (nat slen) str in
          Some (emit (if vs_flags s AND FL_LEFT_JUSTIFY = 0 then pad @ str else str @ pad) (s\<lparr>vs_args := as\<rparr>))
      | _ \<Rightarrow> None)"

definition vs_pointer :: "vs_st \<Rightarrow> vs_st option" where
  "vs_pointer s = do {
     let s = s\<lparr>vs_flags := vs_flags s OR FL_SMALL OR FL_SPECIAL\<rparr>;
     let s = (if vs_width s = - 1 then s\<lparr>vs_flags := vs_flags s OR FL_ZEROPAD, vs_width := 8\<rparr> else s);
     (n, s) \<leftarrow> (case vs_args s of APtr p # as \<Rightarrow> Some (sint p, s\<lparr>vs_args := as\<rparr>) | _ \<Rightarrow> None);
     str \<leftarrow> numstr n 16 (vs_width s) (vs_prec s) (vs_flags s);
     Some (emit str s)
   }"

definition vs_count :: "vs_st \<Rightarrow> vs_st option" where
  "vs_count s =
     (case vs_args s of
        APtr p # as \<Rightarrow> Some (s\<lparr>vs_args := as, vs_stores := vs_stores s @ [(p, int (length (vs_out s)))]\<rparr>)
      | _ \<Rightarrow> None)"

definition vs_convert :: "vs_st \<Rightarrow> vs_st option" where
  "vs_convert s = do {
     let c = cur_char s;
     s \<leftarrow> (if c = 0x64 \<or> c = 0x69 then vs_num 10 FL_SIGN s
           else if c = 0x75 then vs_num 10 0 s
           else if c = 0x6F then vs_num 8 0 s
           else if c = 0x78 then vs_num 16 FL_SMALL s
           else if c = 0x58 then vs_num 16 0 s
           else if c = 0x63 then vs_char s
           else if c = 0x73 then vs_str s
           else if c = 0x70 then vs_pointer s
           else if c = 0x6E then vs_count s
           else Some s);
     if vs_fmt s = [] then None else Some ((skip_char s)\<lparr>vs_state := 6\<rparr>)
   }"

definition vs_length :: "vs_st \<Rightarrow> vs_st option" where
  "vs_length s = vs_convert
     (if cur_char s = 0x6C then skip_char (s\<lparr>vs_len := 1\<rparr>)
      else if cur_char s = 0x68 then skip_char (s\<lparr>vs_len := - 1\<rparr>)
      else s)"

definition vs_precision :: "vs_st \<Rightarrow> vs_st option" where
  "vs_precision s =
     (if cur_char s = 0x2E then do {
        (n, s) \<leftarrow> vs_number (skip_char s);
        vs_length (case n of Some n \<Rightarrow> s\<lparr>vs_prec := n\<rparr> | None \<Rightarrow> s)
      }
      else Some (s\<lparr>vs_state := 4\<rparr>))"

definition vs_field :: "vs_st \<Rightarrow> vs_st option" where
  "vs_field s = do {
     let fl = vs_flags s;
     let fl = (if fl AND FL_PLUS \<noteq> 0 then fl AND NOT FL_SPACE else fl);
     let fl = (if fl AND FL_LEFT_JUSTIFY \<noteq> 0 then fl AND NOT FL_ZEROPAD else fl);
     (n, s) \<leftarrow> vs_number (s\<lparr>vs_flags := fl\<rparr>);
     vs_precision (case n of Some n \<Rightarrow> s\<lparr>vs_width := n\<rparr> | None \<Rightarrow> s)
   }"

definition vs_percent :: "vs_st \<Rightarrow> vs_st option" where
  "vs_percent s =
     (let c = cur_char s; flag = (\<lambda>fl. Some (skip_char (s\<lparr>vs_flags := vs_flags s OR fl\<rparr>))) in
      if c = 0x25 then Some ((skip_char (emit [c] s))\<lparr>vs_state := 0\<rparr>)
      else if c = 0x2D then flag FL_LEFT_JUSTIFY
      else if c = 0x30 then flag FL_ZEROPAD
      else if c = 0x2B then flag (FL_PLUS OR FL_SIGN)
      else if c = 0x20 then flag FL_SPACE
      else if c = 0x23 then flag FL_SPECIAL
      else vs_field s)"

text \<open>One turn of the loop; the code enters it in the states 0, 1, 4 and 6 only.\<close>

definition vs_step :: "vs_st \<Rightarrow> vs_st option" where
  "vs_step s =
     (if vs_state s = 0 then
        if cur_char s \<noteq> 0x25 then Some (skip_char (emit [cur_char s] s))
        else vs_percent ((skip_char s)\<lparr>vs_state := 1\<rparr>)
      else if vs_state s = 1 then vs_percent s
      else if vs_state s = 2 then vs_field s
      else if vs_state s = 3 then vs_precision s
      else if vs_state s = 4 then vs_length s
      else if vs_state s = 5 then vs_convert s
      else Some (s\<lparr>vs_state := 0, vs_flags := 0, vs_width := - 1, vs_prec := - 1, vs_len := 0\<rparr>))"

partial_function (option) vs_run :: "vs_st \<Rightarrow> vs_st option" where
  "vs_run s = (if vs_fmt s = [] then Some s else do { s \<leftarrow> vs_step s; vs_run s })"

text \<open>The number of characters, the buffer up to its NUL, and the stores.\<close>

definition vsprintf :: "u8 list \<Rightarrow> arg list \<Rightarrow> (int \<times> u8 list \<times> (u32 \<times> int) list) option" where
  "vsprintf fmt as = do {
     s \<leftarrow> vs_run \<lparr>vs_fmt = fmt, vs_args = as, vs_state = 0, vs_flags = 0, vs_width = - 1, vs_prec = - 1, vs_len = 0,
                  vs_out = [], vs_stores = []\<rparr>;
     Some (int (length (vs_out s)), vs_out s, vs_stores s)
   }"

section \<open>The reference\<close>

text \<open>A number in a radix, most significant digit first, and the reading of digits.\<close>

fun radix :: "u8 list \<Rightarrow> nat \<Rightarrow> nat \<Rightarrow> u8 list" where
  "radix ds base n = (if n < base \<or> base < 2 then [ds ! n] else radix ds base (n div base) @ [ds ! (n mod base)])"

declare radix.simps [simp del]

definition digit_value :: "u8 \<Rightarrow> nat" where
  "digit_value c = (if c \<le> 0x39 then unat c - 0x30 else if c \<le> 0x5A then unat c - 0x41 + 10 else unat c - 0x61 + 10)"

definition read_digits :: "nat \<Rightarrow> u8 list \<Rightarrow> nat" where
  "read_digits base cs = fold (\<lambda>c n. n * base + digit_value c) cs 0"

lemma num_loop_radix: "2 \<le> base \<Longrightarrow> 0 < n \<Longrightarrow> rev (num_loop ds base n) = radix ds base n"
proof (induction n rule: less_induct)
  case (less n)
  show ?case
  proof (cases "n < base")
    case True
    then show ?thesis using less.prems by (subst num_loop.simps, subst radix.simps) (simp add: num_loop.simps [of _ _ 0])
  next
    case False
    then have "0 < n div base" "n div base < n" using less.prems by (simp_all add: div_greater_zero_iff)
    then show ?thesis using less False by (subst num_loop.simps, subst radix.simps) simp
  qed
qed

lemma digs_length [simp]: "length (digs a) = 36"
  by (simp add: digs_def)

lemma digs_nth: "n < 10 \<Longrightarrow> digs a ! n = 0x30 + of_nat n" "10 \<le> n \<Longrightarrow> n < 36 \<Longrightarrow> digs a ! n = a + of_nat (n - 10)"
proof -
  assume "10 \<le> n" "n < 36"
  then have "n - 10 < 26" "\<not> n < 10" by linarith+
  then show "digs a ! n = a + of_nat (n - 10)" by (simp add: digs_def nth_append del: of_nat_diff)
qed (simp add: digs_def nth_append)

lemma digs_value:
  assumes "n < 36" "a = 0x41 \<or> a = 0x61"
  shows "digit_value (digs a ! n) = n"
proof (cases "n < 10")
  case True
  then have "unat (0x30 + of_nat n :: u8) = 48 + n" by (simp add: unat_word_ariths unat_of_nat)
  then show ?thesis using True by (simp add: digs_nth digit_value_def word_le_nat_alt)
next
  case False
  define k where "k = n - 10"
  have k: "k < 26" "n = k + 10" using False assms(1) by (simp_all add: k_def)
  have "unat (0x41 + of_nat k :: u8) = 65 + k" "unat (0x61 + of_nat k :: u8) = 97 + k"
    using k(1) by (simp_all add: unat_word_ariths unat_of_nat)
  then show ?thesis using assms(2) k digs_nth(2) [of n a] by (auto simp: digit_value_def word_le_nat_alt)
qed

lemma read_digits_append: "read_digits base (xs @ [c]) = read_digits base xs * base + digit_value c"
  by (simp add: read_digits_def)

lemma read_radix: "2 \<le> base \<Longrightarrow> base \<le> 36 \<Longrightarrow> a = 0x41 \<or> a = 0x61 \<Longrightarrow> read_digits base (radix (digs a) base n) = n"
proof (induction n rule: less_induct)
  case (less n)
  show ?case
  proof (cases "n < base")
    case True
    then show ?thesis using less.prems by (subst radix.simps) (simp add: read_digits_def digs_value)
  next
    case False
    then have "n div base < n" using less.prems by simp
    moreover have "digit_value (digs a ! (n mod base)) = n mod base"
      using less.prems mod_less_divisor [of base n] by (intro digs_value) linarith+
    ultimately show ?thesis using less False by (subst radix.simps) (simp add: read_digits_append)
  qed
qed

lemma read_zeros: "read_digits base (replicate k 0x30 @ cs) = read_digits base cs"
  by (induction k) (simp_all add: read_digits_def digit_value_def)

lemma radix_0: "2 \<le> base \<Longrightarrow> radix (digs a) base 0 = [0x30]"
  by (subst radix.simps) (simp add: digs_nth)

lemma numstr_digits:
  assumes "2 \<le> base" "base \<le> 36" "fl \<in> {0, FL_SIGN, FL_SMALL}" "width \<in> {- 1, 0, 1}"
  shows "\<exists>k. numstr n base width prec fl = Some ((if fl = FL_SIGN \<and> n < 0 then [0x2D] else []) @ replicate k 0x30
      @ radix (digs (if fl = FL_SMALL then 0x61 else 0x41)) (nat base)
          (unat (word_of_int (if fl = FL_SIGN \<and> n < 0 then - n else n) :: u32)))
    \<and> (prec \<le> 1 \<longrightarrow> k = 0)"
proof -
  define w where "w = (word_of_int (if fl = FL_SIGN \<and> n < 0 then - n else n) :: u32)"
  define ds where "ds = digs (if fl = FL_SMALL then 0x61 else 0x41)"
  define tmp where "tmp = (if w = 0 then [0x30] else num_loop ds (nat base) (unat w))"
  have r: "rev tmp = radix ds (nat base) (unat w)"
    using assms(1) num_loop_radix [of "nat base" "unat w" ds] radix_0 [of "nat base"]
    by (auto simp: tmp_def ds_def unat_gt_0)
  have len: "1 \<le> int (length tmp)"
  proof -
    have "radix ds (nat base) (unat w) \<noteq> []" by (subst radix.simps) simp
    then show ?thesis unfolding r [symmetric] by (cases tmp) auto
  qed
  have sg: "num_sign n fl = (if fl = FL_SIGN \<and> n < 0 then 0x2D else 0, w)"
    using assms(3) by (auto simp: num_sign_def w_def)
  let ?p = "if int (length tmp) > prec then int (length tmp) else prec"
  have f: "fl AND FL_ZEROPAD = 0" "fl AND FL_SPECIAL = 0" "fl AND (FL_LEFT_JUSTIFY + FL_ZEROPAD) = 0" "fl AND FL_LEFT_JUSTIFY = 0"
      "(if fl AND FL_SMALL \<noteq> 0 then digs 0x61 else digs 0x41) = ds"
    using assms(3) by (auto simp: ds_def)
  have pad: "pad_loop c x = ([], x - 1)" if "x \<le> 0" for c x using that by (simp add: pad_loop_def)
  have b: "\<not> (base < 2 \<or> base > 36)" using assms(1,2) by simp
  define wd where "wd = (if width < 0 then - width else width)"
  have wd: "wd \<le> 1" using assms(4) by (auto simp: wd_def)
  have np: "int (length tmp) \<le> ?p" by simp
  have x: "(if (if fl = FL_SIGN \<and> n < 0 then 0x2D else 0 :: u8) \<noteq> 0 then wd - 1 else wd) - ?p \<le> 0" using wd np len by simp
  have "numstr n base width prec fl
      = Some ((if fl = FL_SIGN \<and> n < 0 then [0x2D] else []) @ replicate (nat (?p - int (length tmp))) 0x30 @ rev tmp)"
    unfolding numstr_def Let_def sg f wd_def [symmetric] prod.case if_not_P [OF b] tmp_def [symmetric]
    using x by (simp add: pad)
  then show ?thesis using len unfolding r ds_def w_def by (intro exI [of _ "nat (?p - int (length tmp))"]) auto
qed

section \<open>Formats piece by piece\<close>

text \<open>A format as a list of pieces: what stands in the format, which argument it takes, and the text it should give.\<close>

datatype piece = Lit u8 | Percent | Dec u32 | Unsigned u32 | Hex u32 | Chr u32 | Str "u8 list"

fun fmt_of :: "piece \<Rightarrow> u8 list" where
  "fmt_of (Lit c) = [c]"
| "fmt_of Percent = [0x25, 0x25]"
| "fmt_of (Dec w) = [0x25, 0x64]"
| "fmt_of (Unsigned w) = [0x25, 0x75]"
| "fmt_of (Hex w) = [0x25, 0x78]"
| "fmt_of (Chr w) = [0x25, 0x63]"
| "fmt_of (Str bs) = [0x25, 0x73]"

fun args_of :: "piece \<Rightarrow> arg list" where
  "args_of (Lit c) = []"
| "args_of Percent = []"
| "args_of (Str bs) = [AStr (Some bs)]"
| "args_of (Dec w) = [AInt w]"
| "args_of (Unsigned w) = [AInt w]"
| "args_of (Hex w) = [AInt w]"
| "args_of (Chr w) = [AInt w]"

definition decimal :: "nat \<Rightarrow> u8 list" where
  "decimal n = radix (digs 0x41) 10 n"

fun text_of :: "piece \<Rightarrow> u8 list" where
  "text_of (Lit c) = [c]"
| "text_of Percent = [0x25]"
| "text_of (Dec w) = (if sint w < 0 then 0x2D # decimal (nat (- sint w)) else decimal (nat (sint w)))"
| "text_of (Unsigned w) = decimal (unat w)"
| "text_of (Hex w) = radix (digs 0x61) 16 (unat w)"
| "text_of (Chr w) = [ucast w]"
| "text_of (Str bs) = bs"

fun plain :: "piece \<Rightarrow> bool" where
  "plain (Lit c) = (c \<noteq> 0x25)"
| "plain _ = True"

text \<open>The machine before a piece and after a conversion.\<close>

abbreviation fresh :: "u8 list \<Rightarrow> arg list \<Rightarrow> u8 list \<Rightarrow> vs_st" where
  "fresh fmt as out \<equiv> \<lparr>vs_fmt = fmt, vs_args = as, vs_state = 0, vs_flags = 0, vs_width = - 1, vs_prec = - 1, vs_len = 0,
     vs_out = out, vs_stores = []\<rparr>"

abbreviation (input) converted :: "u8 \<Rightarrow> u8 list \<Rightarrow> arg list \<Rightarrow> u8 list \<Rightarrow> vs_st" where
  "converted fl fmt as out \<equiv> (fresh fmt as out)\<lparr>vs_state := 6, vs_flags := fl\<rparr>"

definition result :: "vs_st \<Rightarrow> (u8 list \<times> (u32 \<times> int) list) option" where
  "result s = map_option (\<lambda>s. (vs_out s, vs_stores s)) (vs_run s)"

lemma result_step: "vs_fmt s \<noteq> [] \<Longrightarrow> vs_step s = Some s' \<Longrightarrow> result s = result s'"
  unfolding result_def by (subst vs_run.simps) simp

lemma result_converted: "result (converted fl fmt as out) = result (fresh fmt as out)"
proof (cases "fmt = []")
  case False
  then show ?thesis by (intro result_step) (simp_all add: vs_step_def)
qed (simp add: result_def vs_run.simps)

lemmas vs_defs = vs_step_def vs_percent_def vs_field_def vs_number_def vs_precision_def vs_length_def cur_char_def skip_char_def
  emit_def Let_def

text \<open>The percent sign leads to the conversion in two turns.\<close>

abbreviation (input) before_conversion :: "u8 list \<Rightarrow> arg list \<Rightarrow> u8 list \<Rightarrow> vs_st" where
  "before_conversion fmt as out \<equiv> (fresh fmt as out)\<lparr>vs_state := 4\<rparr>"

lemma result_conversion:
  assumes "c \<in> {0x64, 0x75, 0x78, 0x63, 0x73}" "vs_convert (before_conversion (c # fmt) as out) = Some (converted fl fmt as' out')"
  shows "result (fresh (0x25 # c # fmt) as out) = result (fresh fmt as' out')"
proof -
  have c: "k_isdigit c = 0" "c \<notin> {0x25, 0x2A, 0x2D, 0x30, 0x2B, 0x20, 0x23, 0x2E, 0x6C, 0x68}"
    using assms(1) by (auto simp: k_isdigit_def isdigit_def)
  have "vs_step (fresh (0x25 # c # fmt) as out) = Some (before_conversion (c # fmt) as out)"
    using c by (simp add: vs_defs)
  then have "result (fresh (0x25 # c # fmt) as out) = result (before_conversion (c # fmt) as out)"
    by (intro result_step) simp_all
  also have "vs_step (before_conversion (c # fmt) as out) = Some (converted fl fmt as' out')"
    using c assms(2) by (simp add: vs_step_def vs_length_def cur_char_def)
  then have "result (before_conversion (c # fmt) as out) = result (converted fl fmt as' out')"
    by (intro result_step) simp_all
  finally show ?thesis by (simp only: result_converted)
qed

lemma numstr_default:
  assumes "2 \<le> base" "base \<le> 36" "fl \<in> {0, FL_SIGN, FL_SMALL}"
  shows "numstr n base (- 1) (- 1) fl = Some ((if fl = FL_SIGN \<and> n < 0 then [0x2D] else [])
      @ radix (digs (if fl = FL_SMALL then 0x61 else 0x41)) (nat base)
          (unat (word_of_int (if fl = FL_SIGN \<and> n < 0 then - n else n) :: u32)))"
  using numstr_digits [OF assms, of "- 1" n "- 1"] by auto

lemma unat_of_sint: "\<not> sint (w :: u32) < 0 \<Longrightarrow> unat w = nat (sint w)"
  using sint_nonneg_u32 [of w] by simp

lemma unat_word_of_int_u32: "0 \<le> k \<Longrightarrow> k < 4294967296 \<Longrightarrow> unat (word_of_int k :: u32) = nat k"
  by (simp add: unsigned_of_int nat_take_bit_eq take_bit_nat_eq_self_iff nat_less_iff)

lemma unat_neg_sint: "sint (w :: u32) < 0 \<Longrightarrow> unat (- w) = nat (- sint w)"
  using unat_word_of_int_u32 [of "- sint w"] sint_u32_ge [of w] by simp

lemma scast_char: "(scast (w :: u32) :: u8) = ucast w"
  by (intro bit_word_eqI) (auto simp: bit_signed_iff bit_unsigned_iff min_def)

lemma piece_convert:
  assumes "fmt_of p = [0x25, c]" "c \<noteq> 0x25"
  shows "c \<in> {0x64, 0x75, 0x78, 0x63, 0x73}
    \<and> (\<exists>fl. vs_convert (before_conversion (c # fmt) (args_of p @ as) out) = Some (converted fl fmt as (out @ text_of p)))"
proof -
  note d = vs_convert_def vs_num_def vs_value_def va_int_def cur_char_def skip_char_def emit_def Let_def numstr_default
  show ?thesis
  proof (cases p)
    case (Dec w)
    then show ?thesis using assms
      by (intro conjI exI [of _ 1]) (auto simp: d unat_of_sint unat_neg_sint decimal_def)
  next
    case (Unsigned w)
    then show ?thesis using assms by (intro conjI exI [of _ 0]) (auto simp: d decimal_def)
  next
    case (Hex w)
    then show ?thesis using assms by (intro conjI exI [of _ "0x40"]) (auto simp: d)
  next
    case (Chr w)
    then show ?thesis using assms by (intro conjI exI [of _ 0]) (auto simp: d scast_char vs_char_def)
  next
    case (Str bs)
    then show ?thesis using assms by (intro conjI exI [of _ 0]) (auto simp: d vs_str_def)
  qed (use assms in auto)
qed

lemma piece_cases:
  assumes "plain p"
  obtains c where "fmt_of p = [c]" "args_of p = []" "text_of p = [c]" "c \<noteq> 0x25"
  | "fmt_of p = [0x25, 0x25]" "args_of p = []" "text_of p = [0x25]"
  | c where "fmt_of p = [0x25, c]" "c \<noteq> 0x25"
  using assms by (cases p) auto

lemma piece_step:
  assumes "plain p"
  shows "result (fresh (fmt_of p @ fmt) (args_of p @ as) out) = result (fresh fmt as (out @ text_of p))"
  using assms
proof (cases p rule: piece_cases)
  case (3 c)
  show ?thesis unfolding 3(1) using piece_convert [OF 3, of fmt as out] result_conversion by auto
qed (simp_all, (rule result_step, simp_all add: vs_defs)+)

lemma vsprintf_pieces_text:
  assumes "\<forall>p \<in> set ps. plain p"
  shows "vsprintf (concat (map fmt_of ps)) (concat (map args_of ps))
    = Some (int (length (concat (map text_of ps))), concat (map text_of ps), [])"
proof -
  have "result (fresh (concat (map fmt_of ps)) (concat (map args_of ps)) out) = Some (out @ concat (map text_of ps), [])" for out
    using assms
  proof (induction ps arbitrary: out)
    case Nil
    then show ?case by (simp add: result_def vs_run.simps)
  next
    case (Cons p ps)
    then show ?case using piece_step [of p] by simp
  qed
  from this [of "[]"] show ?thesis by (auto simp: vsprintf_def result_def)
qed

section \<open>Properties\<close>

text \<open>
  C31. \<open>numstr\<close> writes numbers that can be read back: in every radix from 2 to 36, with small or capital letters and every
  precision, the characters it gives, read as digits, are the number as an unsigned 32-bit value.
\<close>

theorem numstr_reads_back:
  assumes "2 \<le> base" "base \<le> 36" "fl = 0 \<or> fl = FL_SMALL"
  shows "\<exists>cs. numstr n base (- 1) prec fl = Some cs \<and> read_digits (nat base) cs = unat (word_of_int n :: u32)"
proof -
  have "fl \<in> {0, FL_SIGN, FL_SMALL}" "fl \<noteq> FL_SIGN" using assms(3) by auto
  then obtain k where "numstr n base (- 1) prec fl = Some (replicate k 0x30
      @ radix (digs (if fl = FL_SMALL then 0x61 else 0x41)) (nat base) (unat (word_of_int n :: u32)))"
    using numstr_digits [of base fl "- 1" n prec] assms(1,2) by auto
  then show ?thesis using assms read_radix [of "nat base"] by (auto simp: read_zeros)
qed

theorem numstr_reads_back_witness:
  "\<exists>cs. numstr (- 255) 16 (- 1) 10 0x40 = Some cs \<and> read_digits (nat 16) cs = unat (word_of_int (- 255) :: u32)"
  by (rule numstr_reads_back) simp_all

text \<open>
  C14. \<open>vsprintf\<close> prints what its format says: for a format of plain characters and the conversions \<open>%%\<close>, \<open>%d\<close>, \<open>%u\<close>, \<open>%x\<close>, \<open>%c\<close> and
  \<open>%s\<close>, in any order and number, with the arguments they ask for, it returns, and the output is the concatenation of the
  texts of the pieces: numbers in the reference notation, signed ones with a minus sign if negative, strings and characters as
  they are; its length is the value returned.
\<close>

theorem vsprintf_pieces:
  assumes "\<forall>p \<in> set ps. plain p"
  shows "vsprintf (concat (map fmt_of ps)) (concat (map args_of ps))
    = Some (int (length (concat (map text_of ps))), concat (map text_of ps), [])"
  by (rule vsprintf_pieces_text [OF assms])

theorem vsprintf_pieces_witness:
  "let ps = [Lit 0x78, Lit 0x3D, Dec (- 7), Percent, Str [0x61, 0x62], Hex 0xBEEF] in
   vsprintf (concat (map fmt_of ps)) (concat (map args_of ps))
     = Some (int (length (concat (map text_of ps))), concat (map text_of ps), [])"
  unfolding Let_def by (rule vsprintf_pieces) simp

end
