(* ===== verification/Screen.thy ===== *)
theory Screen
  imports Format
begin

text \<open>
  The text screen: \<^verbatim>\<open>kernel/src/vga.c\<close> and \<^verbatim>\<open>kernel/src/console.c\<close>. The frame buffer is indexed by cell; its first 2000 cells
  are the 25 lines of 80 characters on the screen. The writes to the ports of the display are recorded in their order.
\<close>

section \<open>The display\<close>

record vga_st =
  video_memory :: "nat \<Rightarrow> u16"
  cursor_x :: u8
  cursor_y :: u8
  vga_ports :: "(u16 \<times> u8) list"

abbreviation (input) COLOR_BLACK :: u8 where "COLOR_BLACK \<equiv> 0"
abbreviation (input) COLOR_WHITE :: u8 where "COLOR_WHITE \<equiv> 15"

definition move_cursor :: "'z vga_st_scheme \<Rightarrow> 'z vga_st_scheme" where
  "move_cursor s =
     (let cursor_loc = ucast (cursor_y s) * 80 + ucast (cursor_x s) :: u16 in
      s\<lparr>vga_ports := vga_ports s @ [(0x3D4, 14), (0x3D5, ucast (drop_bit 8 cursor_loc)), (0x3D4, 15), (0x3D5, ucast cursor_loc)]\<rparr>)"

definition scroll :: "'z vga_st_scheme \<Rightarrow> 'z vga_st_scheme" where
  "scroll s =
     (let attrib_byte = push_bit 4 COLOR_BLACK OR (COLOR_WHITE AND 0x0F);
          blank = 0x20 OR push_bit 8 (ucast attrib_byte) :: u16 in
      if cursor_y s \<ge> 25 then
        s\<lparr>video_memory := (\<lambda>i. if i < 24 * 80 then video_memory s (i + 80) else if i < 25 * 80 then blank else video_memory s i),
          cursor_y := 24\<rparr>
      else s)"

text \<open>A character keeps its sign when it is widened.\<close>

definition vga_mkchar :: "u8 \<Rightarrow> u8 \<Rightarrow> u8 \<Rightarrow> u16" where
  "vga_mkchar c bg fg = push_bit 12 (ucast bg) OR push_bit 8 (ucast (fg AND 0x0F)) OR scast c"

text \<open>The effect of the character itself, and the end of a line.\<close>

definition vga_char :: "u16 \<Rightarrow> 'z vga_st_scheme \<Rightarrow> 'z vga_st_scheme" where
  "vga_char chr s =
     (let c = ucast chr :: u8 in
      if c = 0x08 \<and> cursor_x s > 0 then s\<lparr>cursor_x := cursor_x s - 1\<rparr>
      else if c = 0x09 then s\<lparr>cursor_x := (cursor_x s + 8) AND NOT 7\<rparr>
      else if c = 0x0D then s\<lparr>cursor_x := 0\<rparr>
      else if c = 0x0A then s\<lparr>cursor_x := 0, cursor_y := cursor_y s + 1\<rparr>
      else if sint c \<ge> 0x20 then
        s\<lparr>video_memory := (video_memory s)(unat (cursor_y s) * 80 + unat (cursor_x s) := chr), cursor_x := cursor_x s + 1\<rparr>
      else s)"

definition vga_wrap :: "'z vga_st_scheme \<Rightarrow> 'z vga_st_scheme" where
  "vga_wrap s = (if cursor_x s \<ge> 80 then s\<lparr>cursor_x := 0, cursor_y := cursor_y s + 1\<rparr> else s)"

definition vga_putchar :: "u16 \<Rightarrow> 'z vga_st_scheme \<Rightarrow> int \<times> 'z vga_st_scheme" where
  "vga_putchar chr s = (sint (ucast chr :: u8), move_cursor (scroll (vga_wrap (vga_char chr s))))"

definition vga_clear_scr :: "'z vga_st_scheme \<Rightarrow> 'z vga_st_scheme" where
  "vga_clear_scr s =
     (let blank = vga_mkchar 0x20 COLOR_BLACK COLOR_WHITE in
      move_cursor (s\<lparr>video_memory := (\<lambda>i. if i < 80 * 25 then blank else video_memory s i), cursor_x := 0, cursor_y := 0\<rparr>))"

section \<open>The console\<close>

record console_st = vga_st +
  cur_bg :: u8
  cur_fg :: u8

definition set_color :: "int \<Rightarrow> int \<Rightarrow> console_st \<Rightarrow> int \<times> console_st" where
  "set_color bg fg s =
     (int (16 * unat (cur_bg s) + unat (cur_fg s AND 0x0F)),
      s\<lparr>cur_bg := word_of_int bg AND 0x0F, cur_fg := word_of_int fg AND 0x0F\<rparr>)"

definition kputchar_color :: "u8 \<Rightarrow> u8 \<Rightarrow> u8 \<Rightarrow> console_st \<Rightarrow> int \<times> console_st" where
  "kputchar_color c bg fg s = vga_putchar (vga_mkchar c bg fg) s"

definition kputchar :: "u8 \<Rightarrow> console_st \<Rightarrow> int \<times> console_st" where
  "kputchar c s = kputchar_color c (cur_bg s) (cur_fg s) s"

definition clear_scr :: "console_st \<Rightarrow> console_st" where
  "clear_scr s = vga_clear_scr s"

fun kputs_loop :: "u8 list \<Rightarrow> console_st \<Rightarrow> console_st" where
  "kputs_loop [] s = s"
| "kputs_loop (c # cs) s = kputs_loop cs (snd (kputchar c s))"

definition kputs :: "u8 list \<Rightarrow> console_st \<Rightarrow> int \<times> console_st" where
  "kputs str s = (int (length str), snd (kputchar 0x0A (kputs_loop str s)))"

text \<open>The output has to fit in the buffer of \<open>kprintf\<close> with its NUL; a NUL in the output ends what is shown.\<close>

definition kprintf :: "u8 list \<Rightarrow> arg list \<Rightarrow> console_st \<Rightarrow> (int \<times> console_st) option" where
  "kprintf fmt as s = do {
     (ret, out, _) \<leftarrow> vsprintf fmt as;
     if length out < 4096 then Some (ret, kputs_loop (takeWhile (\<lambda>c. c \<noteq> 0) out) s) else None
   }"

section \<open>The cursor stays on the screen\<close>

definition screen_ok :: "'z vga_st_scheme \<Rightarrow> bool" where
  "screen_ok s \<longleftrightarrow> cursor_x s < 80 \<and> cursor_y s < 25"

lemma move_cursor_simps [simp]:
  "video_memory (move_cursor s) = video_memory s" "cursor_x (move_cursor s) = cursor_x s" "cursor_y (move_cursor s) = cursor_y s"
  by (simp_all add: move_cursor_def Let_def)

lemma scroll_ok:
  assumes "cursor_y s < 26"
  shows "cursor_y (scroll s) < 25" "cursor_x (scroll s) = cursor_x s" "2000 \<le> i \<Longrightarrow> video_memory (scroll s) i = video_memory s i"
  using assms by (auto simp: scroll_def Let_def not_le)

text \<open>Only a newline moves the cursor down, and it moves it to the first column.\<close>

lemma vga_char_ok:
  assumes "screen_ok s"
  shows "cursor_y (vga_char chr s) < 25 \<or> cursor_y (vga_char chr s) < 26 \<and> cursor_x (vga_char chr s) = 0"
    "2000 \<le> i \<Longrightarrow> video_memory (vga_char chr s) i = video_memory s i"
proof -
  have y: "unat (cursor_y s) < 25" and x: "unat (cursor_x s) < 80" using assms by (simp_all add: screen_ok_def word_less_nat_alt)
  have "unat (cursor_y s + 1) = unat (cursor_y s) + 1" using y by (simp add: unat_word_ariths)
  then have "cursor_y s + 1 < 26" using y by (simp add: word_less_nat_alt)
  then show "cursor_y (vga_char chr s) < 25 \<or> cursor_y (vga_char chr s) < 26 \<and> cursor_x (vga_char chr s) = 0"
    using assms by (simp add: vga_char_def Let_def screen_ok_def)
  show "video_memory (vga_char chr s) i = video_memory s i" if "2000 \<le> i"
  proof -
    have "i \<noteq> unat (cursor_y s) * 80 + unat (cursor_x s)" using that x y by linarith
    then show ?thesis by (simp add: vga_char_def Let_def)
  qed
qed

lemma vga_wrap_ok:
  assumes "cursor_y s < 25 \<or> cursor_y s < 26 \<and> cursor_x s = 0"
  shows "cursor_y (vga_wrap s) < 26" "cursor_x (vga_wrap s) < 80" "video_memory (vga_wrap s) = video_memory s"
  using assms by (auto simp: vga_wrap_def not_le word_less_nat_alt word_le_nat_alt unat_word_ariths)

section \<open>Text\<close>

definition printable :: "u8 \<Rightarrow> bool" where
  "printable c \<longleftrightarrow> 0x20 \<le> c \<and> c < 0x7F"

lemma vga_mkchar_char: "ucast (vga_mkchar c bg fg) = c"
  by (intro bit_word_eqI) (auto simp: vga_mkchar_def bit_simps)

lemma sint_printable: "printable c \<Longrightarrow> 0x20 \<le> sint c"
proof -
  assume "printable c"
  then have "0x20 \<le> uint c" "uint c < 0x7F" by (auto simp: printable_def word_le_def word_less_def)
  then show ?thesis using signed_take_bit_int_eq_self [of 7 "uint c"] by (simp add: sint_uint)
qed

text \<open>One character inside of a line.\<close>

lemma kputchar_line:
  assumes "printable c" "unat (cursor_x s) < 79" "cursor_y s < 25"
  shows "snd (kputchar c s) = move_cursor (s\<lparr>video_memory := (video_memory s)(unat (cursor_y s) * 80 + unat (cursor_x s)
      := vga_mkchar c (cur_bg s) (cur_fg s)), cursor_x := cursor_x s + 1\<rparr>)"
proof -
  have "c \<notin> {0x08, 0x09, 0x0D, 0x0A}" using assms(1) by (auto simp: printable_def)
  moreover have "\<not> cursor_x s + 1 \<ge> 80" using assms(2) by (simp add: word_le_nat_alt unat_word_ariths)
  ultimately show ?thesis using assms sint_printable
    by (simp add: kputchar_def kputchar_color_def vga_putchar_def vga_char_def vga_wrap_def scroll_def vga_mkchar_char not_le)
qed

lemma kputs_loop_line:
  assumes "\<forall>c \<in> set cs. printable c" "unat (cursor_x s) + length cs < 80" "cursor_y s < 25"
  shows "unat (cursor_x (kputs_loop cs s)) = unat (cursor_x s) + length cs \<and> cursor_y (kputs_loop cs s) = cursor_y s
    \<and> (\<forall>i. video_memory (kputs_loop cs s) i =
          (if unat (cursor_y s) * 80 + unat (cursor_x s) \<le> i \<and> i < unat (cursor_y s) * 80 + unat (cursor_x s) + length cs
           then vga_mkchar (cs ! (i - (unat (cursor_y s) * 80 + unat (cursor_x s)))) (cur_bg s) (cur_fg s)
           else video_memory s i))"
  using assms
proof (induction cs arbitrary: s)
  case (Cons c cs)
  define s1 where "s1 = snd (kputchar c s)"
  have p: "printable c" "unat (cursor_x s) < 79" using Cons.prems(1,2) by simp_all
  have s1: "s1 = move_cursor (s\<lparr>video_memory := (video_memory s)(unat (cursor_y s) * 80 + unat (cursor_x s)
      := vga_mkchar c (cur_bg s) (cur_fg s)), cursor_x := cursor_x s + 1\<rparr>)"
    unfolding s1_def by (rule kputchar_line [OF p Cons.prems(3)])
  have x: "unat (cursor_x s1) = unat (cursor_x s) + 1" using p(2) by (simp add: s1 unat_word_ariths)
  have other: "cursor_y s1 = cursor_y s" "cur_bg s1 = cur_bg s" "cur_fg s1 = cur_fg s"
      "video_memory s1 = (video_memory s)(unat (cursor_y s) * 80 + unat (cursor_x s) := vga_mkchar c (cur_bg s) (cur_fg s))"
    by (simp_all add: s1) (simp_all add: move_cursor_def Let_def)
  have "\<forall>c \<in> set cs. printable c" "unat (cursor_x s1) + length cs < 80" "cursor_y s1 < 25"
    using Cons.prems x other by simp_all
  from Cons.IH [OF this] show ?case unfolding kputs_loop.simps s1_def [symmetric] x other
    by (auto simp: nth_Cons' not_less_eq_eq less_Suc_eq_le)
qed auto

section \<open>Properties\<close>

text \<open>
  C18. The cursor never leaves the screen and no character is written outside of it: from a cursor within the 80 columns and 25
  lines, \<open>vga_putchar\<close> of any character and colour, control characters included, ends with the cursor within them, and
  changes no cell of the frame buffer behind the 2000 of the screen.
\<close>

theorem vga_putchar_in_screen:
  assumes "screen_ok s"
  shows "screen_ok (snd (vga_putchar chr s)) \<and> (\<forall>i. 2000 \<le> i \<longrightarrow> video_memory (snd (vga_putchar chr s)) i = video_memory s i)"
proof -
  note c = vga_char_ok [OF assms]
  note w = vga_wrap_ok [OF c(1)]
  show ?thesis using c(2) w scroll_ok [OF w(1)] by (simp add: vga_putchar_def screen_ok_def)
qed

definition sample_screen :: console_st where
  "sample_screen = \<lparr>video_memory = \<lambda>_. 0, cursor_x = 79, cursor_y = 24, vga_ports = [], cur_bg = 0, cur_fg = 15\<rparr>"

theorem vga_putchar_in_screen_witness:
  "screen_ok (snd (vga_putchar 0x0F41 sample_screen))
    \<and> video_memory (snd (vga_putchar 0x0F41 sample_screen)) 2000 = video_memory sample_screen 2000"
  using vga_putchar_in_screen [of sample_screen "0x0F41"] by (simp add: screen_ok_def sample_screen_def)

text \<open>
  C24. From the format to the screen: \<open>kprintf\<close> of a format of plain characters and conversions whose text is printable and fits on
  the rest of the line returns the length of the text, puts its characters, in the current colours, into the cells from the
  cursor on, moves the cursor behind them and changes no other cell.
\<close>

theorem kprintf_shows:
  assumes "\<forall>p \<in> set ps. plain p" "txt = concat (map text_of ps)" "\<forall>c \<in> set txt. printable c"
    "unat (cursor_x s) + length txt < 80" "cursor_y s < 25"
  shows "\<exists>s'. kprintf (concat (map fmt_of ps)) (concat (map args_of ps)) s = Some (int (length txt), s')
    \<and> unat (cursor_x s') = unat (cursor_x s) + length txt \<and> cursor_y s' = cursor_y s
    \<and> (\<forall>i. video_memory s' i =
          (if unat (cursor_y s) * 80 + unat (cursor_x s) \<le> i \<and> i < unat (cursor_y s) * 80 + unat (cursor_x s) + length txt
           then vga_mkchar (txt ! (i - (unat (cursor_y s) * 80 + unat (cursor_x s)))) (cur_bg s) (cur_fg s)
           else video_memory s i))"
proof -
  have "takeWhile (\<lambda>c. c \<noteq> 0) txt = txt" using assms(3) by (intro takeWhile_eq_all_conv [THEN iffD2]) (auto simp: printable_def)
  moreover have "length txt < 4096" using assms(4) by simp
  ultimately have "kprintf (concat (map fmt_of ps)) (concat (map args_of ps)) s = Some (int (length txt), kputs_loop txt s)"
    using vsprintf_pieces_text [OF assms(1)] by (simp add: kprintf_def assms(2) [symmetric] del: takeWhile_eq_all_conv)
  then show ?thesis using kputs_loop_line [OF assms(3-5)] by blast
qed

theorem kprintf_shows_witness:
  "let ps = [Lit 0x6E, Lit 0x3D, Dec 42]; s = sample_screen\<lparr>cursor_x := 4, cursor_y := 2\<rparr>; txt = [0x6E, 0x3D, 0x34, 0x32] in
   \<exists>s'. kprintf (concat (map fmt_of ps)) (concat (map args_of ps)) s = Some (int (length txt), s')
    \<and> unat (cursor_x s') = unat (cursor_x s) + length txt \<and> cursor_y s' = cursor_y s
    \<and> (\<forall>i. video_memory s' i =
          (if unat (cursor_y s) * 80 + unat (cursor_x s) \<le> i \<and> i < unat (cursor_y s) * 80 + unat (cursor_x s) + length txt
           then vga_mkchar (txt ! (i - (unat (cursor_y s) * 80 + unat (cursor_x s)))) (cur_bg s) (cur_fg s)
           else video_memory s i))"
  unfolding Let_def
  by (rule kprintf_shows) (simp_all add: sample_screen_def printable_def decimal_def radix.simps [of _ _ 42] radix.simps [of _ _ 4] digs_nth)

end
