(* ===== verification/Dprintf.thy ===== *)
theory Dprintf
  imports Format Vfs
begin

text \<open>
  Formatted output of user programs: \<^verbatim>\<open>rlibc/stdio/vdprintf.c\<close> with \<^verbatim>\<open>printf.c\<close>, \<^verbatim>\<open>dprintf.c\<close>, \<^verbatim>\<open>puts.c\<close> and \<^verbatim>\<open>putc.c\<close>. The machine
  is that of the kernel's \<open>vsprintf\<close> (theory \<open>Format\<close>) but for its last conversions, and what it prints passes through a
  buffer of 16 bytes to \<open>write\<close>, a parameter. One turn of the machine leaves what it prints in \<open>vs_out\<close>, from where it
  goes to the buffer byte by byte; no turn reads the buffer but the one of \<open>%n\<close>, which prints nothing. The conversions
  \<open>%f\<close> and \<open>%F\<close>, on floating point numbers, are \<open>None\<close>.
\<close>

section \<open>The buffer\<close>

type_synonym 'w write_fn = "int \<Rightarrow> u8 list \<Rightarrow> 'w \<Rightarrow> (int \<times> 'w) option"

text \<open>
  \<open>wbuf\<close> is the part in use, of \<open>wbuf_size\<close> bytes, of the array of 16; a store behind the array is \<open>None\<close>. \<open>dev\<close> is what \<open>write\<close>
  works on.
\<close>

record 'w wbuf_st =
  wbuf :: "u8 list"
  nprinted :: u32
  dev :: 'w

definition wbuf_flush :: "'w write_fn \<Rightarrow> int \<Rightarrow> 'w wbuf_st \<Rightarrow> (int \<times> 'w wbuf_st) option" where
  "wbuf_flush wr fd b =
     (if length (wbuf b) > 0 then do {
        (ret, d) \<leftarrow> wr fd (wbuf b) (dev b);
        Some (ret, b\<lparr>wbuf := [], dev := d\<rparr>)
      }
      else Some (0, b))"

definition wbuf_write :: "'w write_fn \<Rightarrow> int \<Rightarrow> u8 \<Rightarrow> 'w wbuf_st \<Rightarrow> (int \<times> 'w wbuf_st) option" where
  "wbuf_write wr fd c b =
     (if length (wbuf b) \<ge> 16 then None
      else
        let b = b\<lparr>wbuf := wbuf b @ [c], nprinted := nprinted b + 1\<rparr> in
        if length (wbuf b) = 16 then wbuf_flush wr fd b else Some (0, b))"

fun dp_emit :: "'w write_fn \<Rightarrow> int \<Rightarrow> u8 list \<Rightarrow> 'w wbuf_st \<Rightarrow> 'w wbuf_st option" where
  "dp_emit wr fd [] b = Some b"
| "dp_emit wr fd (c # cs) b = do { (_, b) \<leftarrow> wbuf_write wr fd c b; dp_emit wr fd cs b }"

section \<open>The machine\<close>

definition dp_pointer :: "vs_st \<Rightarrow> vs_st option" where
  "dp_pointer s = do {
     let s = s\<lparr>vs_flags := vs_flags s OR FL_SMALL\<rparr>;
     let s = (if vs_width s = - 1 then s\<lparr>vs_flags := vs_flags s OR FL_ZEROPAD, vs_width := 8\<rparr> else s);
     (n, s) \<leftarrow> (case vs_args s of APtr p # as \<Rightarrow> Some (sint p, s\<lparr>vs_args := as\<rparr>) | _ \<Rightarrow> None);
     str \<leftarrow> numstr n 16 (vs_width s) (vs_prec s) (vs_flags s);
     Some (emit str s)
   }"

definition dp_count :: "u32 \<Rightarrow> vs_st \<Rightarrow> vs_st option" where
  "dp_count printed s =
     (case vs_args s of
        APtr p # as \<Rightarrow>
          Some (s\<lparr>vs_args := as, vs_stores := vs_stores s @ [(p, if vs_len s = - 1 then sint (ucast printed :: 16 word) else sint printed)]\<rparr>)
      | _ \<Rightarrow> None)"

definition dp_convert :: "u32 \<Rightarrow> vs_st \<Rightarrow> vs_st option" where
  "dp_convert printed s = do {
     let c = cur_char s;
     s \<leftarrow> (if c = 0x64 \<or> c = 0x69 then vs_num 10 FL_SIGN s
           else if c = 0x75 then vs_num 10 0 s
           else if c = 0x6F then vs_num 8 0 s
           else if c = 0x78 then vs_num 16 FL_SMALL s
           else if c = 0x58 then vs_num 16 0 s
           else if c = 0x63 then vs_char s
           else if c = 0x73 then vs_str s
           else if c = 0x70 then dp_pointer s
           else if c = 0x6E then dp_count printed s
           else if c = 0x66 \<or> c = 0x46 then None
           else Some s);
     if vs_fmt s = [] then None else Some ((skip_char s)\<lparr>vs_state := 6\<rparr>)
   }"

definition dp_length :: "u32 \<Rightarrow> vs_st \<Rightarrow> vs_st option" where
  "dp_length printed s = dp_convert printed
     (if cur_char s = 0x6C then skip_char (s\<lparr>vs_len := 1\<rparr>)
      else if cur_char s = 0x68 then skip_char (s\<lparr>vs_len := - 1\<rparr>)
      else s)"

definition dp_precision :: "u32 \<Rightarrow> vs_st \<Rightarrow> vs_st option" where
  "dp_precision printed s =
     (if cur_char s = 0x2E then do {
        (n, s) \<leftarrow> vs_number (skip_char s);
        dp_length printed (case n of Some n \<Rightarrow> s\<lparr>vs_prec := n\<rparr> | None \<Rightarrow> s)
      }
      else Some (s\<lparr>vs_state := 4\<rparr>))"

definition dp_field :: "u32 \<Rightarrow> vs_st \<Rightarrow> vs_st option" where
  "dp_field printed s = do {
     let fl = vs_flags s;
     let fl = (if fl AND FL_PLUS \<noteq> 0 then fl AND NOT FL_SPACE else fl);
     let fl = (if fl AND FL_LEFT_JUSTIFY \<noteq> 0 then fl AND NOT FL_ZEROPAD else fl);
     (n, s) \<leftarrow> vs_number (s\<lparr>vs_flags := fl\<rparr>);
     dp_precision printed (case n of Some n \<Rightarrow> s\<lparr>vs_width := n\<rparr> | None \<Rightarrow> s)
   }"

definition dp_percent :: "u32 \<Rightarrow> vs_st \<Rightarrow> vs_st option" where
  "dp_percent printed s =
     (let c = cur_char s; flag = (\<lambda>fl. Some (skip_char (s\<lparr>vs_flags := vs_flags s OR fl\<rparr>))) in
      if c = 0x25 then Some ((skip_char (emit [c] s))\<lparr>vs_state := 0\<rparr>)
      else if c = 0x2D then flag FL_LEFT_JUSTIFY
      else if c = 0x30 then flag FL_ZEROPAD
      else if c = 0x2B then flag (FL_PLUS OR FL_SIGN)
      else if c = 0x20 then flag FL_SPACE
      else if c = 0x23 then flag FL_SPECIAL
      else dp_field printed s)"

text \<open>One turn of the loop; the code enters it in the states 0, 1, 4 and 6 only.\<close>

definition dp_step :: "u32 \<Rightarrow> vs_st \<Rightarrow> vs_st option" where
  "dp_step printed s =
     (if vs_state s = 0 then
        if cur_char s \<noteq> 0x25 then Some (skip_char (emit [cur_char s] s))
        else dp_percent printed ((skip_char s)\<lparr>vs_state := 1\<rparr>)
      else if vs_state s = 1 then dp_percent printed s
      else if vs_state s = 2 then dp_field printed s
      else if vs_state s = 3 then dp_precision printed s
      else if vs_state s = 4 then dp_length printed s
      else if vs_state s = 5 then dp_convert printed s
      else Some (s\<lparr>vs_state := 0, vs_flags := 0, vs_width := - 1, vs_prec := - 1, vs_len := 0\<rparr>))"

partial_function (option) dp_run :: "'w write_fn \<Rightarrow> int \<Rightarrow> vs_st \<Rightarrow> 'w wbuf_st \<Rightarrow> (vs_st \<times> 'w wbuf_st) option" where
  "dp_run wr fd s b =
     (if vs_fmt s = [] then Some (s, b)
      else do {
        s \<leftarrow> dp_step (nprinted b) s;
        b \<leftarrow> dp_emit wr fd (vs_out s) b;
        dp_run wr fd (s\<lparr>vs_out := []\<rparr>) b
      })"

text \<open>The value returned, the stores of \<open>%n\<close>, and the buffer.\<close>

definition vdprintf ::
  "'w write_fn \<Rightarrow> int \<Rightarrow> u8 list \<Rightarrow> arg list \<Rightarrow> 'w wbuf_st \<Rightarrow> (int \<times> (u32 \<times> int) list \<times> 'w wbuf_st) option" where
  "vdprintf wr fd fmt as b = do {
     (s, b) \<leftarrow> dp_run wr fd \<lparr>vs_fmt = fmt, vs_args = as, vs_state = 0, vs_flags = 0, vs_width = - 1, vs_prec = - 1, vs_len = 0,
                            vs_out = [], vs_stores = []\<rparr> (b\<lparr>nprinted := 0\<rparr>);
     (_, b) \<leftarrow> wbuf_write wr fd 0 b;
     (_, b) \<leftarrow> wbuf_flush wr fd b;
     Some (sint (nprinted b), vs_stores s, b)
   }"

definition dprintf ::
  "'w write_fn \<Rightarrow> int \<Rightarrow> u8 list \<Rightarrow> arg list \<Rightarrow> 'w wbuf_st \<Rightarrow> (int \<times> (u32 \<times> int) list \<times> 'w wbuf_st) option" where
  "dprintf = vdprintf"

definition printf ::
  "'w write_fn \<Rightarrow> u8 list \<Rightarrow> arg list \<Rightarrow> 'w wbuf_st \<Rightarrow> (int \<times> (u32 \<times> int) list \<times> 'w wbuf_st) option" where
  "printf wr = vdprintf wr (int STDOUT_FILENO)"

definition puts :: "'w write_fn \<Rightarrow> u8 list \<Rightarrow> 'w \<Rightarrow> (int \<times> 'w) option" where
  "puts wr str d = do {
     (_, d) \<leftarrow> wr (int STDOUT_FILENO) str d;
     wr (int STDOUT_FILENO) [0x0A] d
   }"

definition dputc :: "'w write_fn \<Rightarrow> u32 \<Rightarrow> int \<Rightarrow> 'w \<Rightarrow> (int \<times> 'w) option" where
  "dputc wr chr fd d = wr fd [ucast chr] d"

definition putchar :: "'w write_fn \<Rightarrow> u32 \<Rightarrow> 'w \<Rightarrow> (int \<times> 'w) option" where
  "putchar wr c d = wr (int STDOUT_FILENO) [ucast c] d"

section \<open>Turns\<close>

lemma dp_convert_eq: "cur_char s \<notin> {0x70, 0x6E, 0x66, 0x46} \<Longrightarrow> dp_convert printed s = vs_convert s"
  unfolding dp_convert_def vs_convert_def Let_def by (rule arg_cong [where f = "\<lambda>x. Option.bind x _"]) auto

lemmas dp_defs = dp_step_def dp_percent_def dp_field_def vs_number_def dp_precision_def dp_length_def cur_char_def skip_char_def
  emit_def Let_def

lemma dp_run_step:
  "vs_fmt s \<noteq> [] \<Longrightarrow> dp_step (nprinted b) s = Some s' \<Longrightarrow>
   dp_run wr fd s b = do { b \<leftarrow> dp_emit wr fd (vs_out s') b; dp_run wr fd (s'\<lparr>vs_out := []\<rparr>) b }"
  by (subst dp_run.simps) simp

text \<open>The end of the format is reached from either state alike but for the state itself.\<close>

definition dp_result :: "'w write_fn \<Rightarrow> int \<Rightarrow> vs_st \<Rightarrow> 'w wbuf_st \<Rightarrow> ((u32 \<times> int) list \<times> 'w wbuf_st) option" where
  "dp_result wr fd s b = map_option (\<lambda>(s, b). (vs_stores s, b)) (dp_run wr fd s b)"

lemma dp_result_step:
  "vs_fmt s \<noteq> [] \<Longrightarrow> dp_step (nprinted b) s = Some s' \<Longrightarrow>
   dp_result wr fd s b = do { b \<leftarrow> dp_emit wr fd (vs_out s') b; dp_result wr fd (s'\<lparr>vs_out := []\<rparr>) b }"
  by (auto simp: dp_result_def dp_run_step map_option_bind comp_def)

lemma dp_result_converted: "dp_result wr fd (converted fl fmt as []) b = dp_result wr fd (fresh fmt as []) b"
proof (cases "fmt = []")
  case False
  have "dp_step (nprinted b) (converted fl fmt as []) = Some (fresh fmt as [])" by (simp add: dp_step_def)
  from dp_result_step [OF _ this] show ?thesis using False by simp
qed (simp add: dp_result_def dp_run.simps)

lemma dp_piece_step:
  assumes "plain p"
  shows "dp_result wr fd (fresh (fmt_of p @ fmt) (args_of p @ as) []) b
    = do { b \<leftarrow> dp_emit wr fd (text_of p) b; dp_result wr fd (fresh fmt as []) b }"
  using assms
proof (cases p rule: piece_cases)
  case (3 c)
  from piece_convert [OF 3, of fmt as "[]"] obtain fl where p: "c \<in> {0x64, 0x75, 0x78, 0x63, 0x73}"
      "vs_convert (before_conversion (c # fmt) (args_of p @ as) []) = Some (converted fl fmt as (text_of p))" by auto
  have c: "k_isdigit c = 0" "c \<notin> {0x25, 0x2A, 0x2D, 0x30, 0x2B, 0x20, 0x23, 0x2E, 0x6C, 0x68, 0x70, 0x6E, 0x66, 0x46}"
    using p(1) by (auto simp: k_isdigit_def isdigit_def)
  have 1: "dp_step n (fresh (0x25 # c # fmt) (args_of p @ as) []) = Some (before_conversion (c # fmt) (args_of p @ as) [])" for n
    using c by (simp add: dp_defs)
  have 2: "dp_step n (before_conversion (c # fmt) (args_of p @ as) []) = Some (converted fl fmt as (text_of p))" for n
    using c p(2) dp_convert_eq [of "before_conversion (c # fmt) (args_of p @ as) []"]
    by (simp add: dp_step_def dp_length_def cur_char_def)
  have "dp_result wr fd (before_conversion (c # fmt) (args_of p @ as) []) b
      = do { b \<leftarrow> dp_emit wr fd (text_of p) b; dp_result wr fd (fresh fmt as []) b }" for b
    unfolding dp_result_converted [of wr fd fl, symmetric] using dp_result_step [OF _ 2 [of "nprinted b"]] by simp
  then show ?thesis using dp_result_step [OF _ 1 [of "nprinted b"]] unfolding 3(1) by simp
qed (simp_all add: dp_result_step dp_defs)

lemma dp_pieces:
  "\<forall>p \<in> set ps. plain p \<Longrightarrow>
   dp_result wr fd (fresh (concat (map fmt_of ps)) (concat (map args_of ps)) []) b
     = map_option (Pair []) (dp_emit wr fd (concat (map text_of ps)) b)"
proof (induction ps arbitrary: b)
  case Nil
  then show ?case by (simp add: dp_result_def dp_run.simps)
next
  case (Cons p ps)
  have app: "dp_emit wr fd (xs @ ys) b = do { b \<leftarrow> dp_emit wr fd xs b; dp_emit wr fd ys b }" for xs ys b
    by (induction xs arbitrary: b) (auto intro!: Option.bind_cong)
  show ?case using Cons by (simp add: dp_piece_step app map_option_bind comp_def)
qed

section \<open>Where the bytes go\<close>

text \<open>
  What \<open>vdprintf\<close> needs of \<open>write\<close>: that it puts the bytes behind those written before.
\<close>

locale byte_sink =
  fixes wr :: "'w write_fn" and fd :: int and contents :: "'w \<Rightarrow> u8 list" and ok :: "'w \<Rightarrow> bool"
  assumes wr_appends: "ok d \<Longrightarrow> bs \<noteq> [] \<Longrightarrow> length bs \<le> 16 \<Longrightarrow>
    \<exists>r d'. wr fd bs d = Some (r, d') \<and> ok d' \<and> contents d' = contents d @ bs"
begin

lemma wbuf_flush_text:
  assumes "ok (dev b)" "length (wbuf b) \<le> 16"
  obtains r b' where "wbuf_flush wr fd b = Some (r, b')" "ok (dev b')" "wbuf b' = []" "contents (dev b') = contents (dev b) @ wbuf b"
    "nprinted b' = nprinted b"
  using assms wr_appends [of "dev b" "wbuf b"] by (cases "wbuf b = []") (auto simp: wbuf_flush_def)

lemma wbuf_write_text:
  assumes "ok (dev b)" "length (wbuf b) < 16"
  obtains r b' where "wbuf_write wr fd c b = Some (r, b')" "ok (dev b')" "length (wbuf b') < 16"
    "contents (dev b') @ wbuf b' = contents (dev b) @ wbuf b @ [c]" "nprinted b' = nprinted b + 1"
proof (cases "length (wbuf b) + 1 = 16")
  case True
  define b1 where "b1 = b\<lparr>wbuf := wbuf b @ [c], nprinted := nprinted b + 1\<rparr>"
  have "ok (dev b1)" "length (wbuf b1) \<le> 16" using assms by (simp_all add: b1_def)
  then obtain r b' where b': "wbuf_flush wr fd b1 = Some (r, b')" "ok (dev b')" "wbuf b' = []"
    "contents (dev b') = contents (dev b1) @ wbuf b1" "nprinted b' = nprinted b1" using wbuf_flush_text by blast
  have "wbuf_write wr fd c b = Some (r, b')" using True b'(1) by (auto simp: wbuf_write_def Let_def b1_def)
  then show ?thesis using that b'(2-5) by (simp add: b1_def)
next
  case False
  then show ?thesis using that assms by (simp add: wbuf_write_def Let_def)
qed

lemma dp_emit_text:
  assumes "ok (dev b)" "length (wbuf b) < 16"
  shows "\<exists>b'. dp_emit wr fd bs b = Some b' \<and> ok (dev b') \<and> length (wbuf b') < 16
    \<and> contents (dev b') @ wbuf b' = contents (dev b) @ wbuf b @ bs \<and> nprinted b' = nprinted b + of_nat (length bs)"
  using assms
proof (induction bs arbitrary: b)
  case (Cons c cs)
  obtain r b1 where b1: "wbuf_write wr fd c b = Some (r, b1)" "ok (dev b1)" "length (wbuf b1) < 16"
    "contents (dev b1) @ wbuf b1 = contents (dev b) @ wbuf b @ [c]" "nprinted b1 = nprinted b + 1"
    using wbuf_write_text [OF Cons.prems] .
  from Cons.IH [OF b1(2,3)] obtain b' where "dp_emit wr fd cs b1 = Some b'" "ok (dev b')" "length (wbuf b') < 16"
    "contents (dev b') @ wbuf b' = (contents (dev b1) @ wbuf b1) @ cs" "nprinted b' = nprinted b1 + of_nat (length cs)" by auto
  then show ?case using b1(1,4,5) by auto
qed simp

lemma vdprintf_text:
  assumes "\<forall>p \<in> set ps. plain p" "txt = concat (map text_of ps)" "ok (dev b)" "wbuf b = []" "length txt < 2147483647"
  shows "\<exists>b'. vdprintf wr fd (concat (map fmt_of ps)) (concat (map args_of ps)) b = Some (int (length txt) + 1, [], b')
    \<and> ok (dev b') \<and> wbuf b' = [] \<and> contents (dev b') = contents (dev b) @ txt @ [0]"
proof -
  have "ok (dev (b\<lparr>nprinted := 0\<rparr>))" "length (wbuf (b\<lparr>nprinted := 0\<rparr>)) < 16" using assms(3,4) by simp_all
  from dp_emit_text [OF this, of "txt"] obtain b1 where b1: "dp_emit wr fd txt (b\<lparr>nprinted := 0\<rparr>) = Some b1" "ok (dev b1)"
    "length (wbuf b1) < 16" "contents (dev b1) @ wbuf b1 = contents (dev b) @ txt" "nprinted b1 = of_nat (length txt)"
    using assms(4) by auto
  obtain r b2 where b2: "wbuf_write wr fd 0 b1 = Some (r, b2)" "ok (dev b2)" "length (wbuf b2) < 16"
    "contents (dev b2) @ wbuf b2 = contents (dev b1) @ wbuf b1 @ [0]" "nprinted b2 = nprinted b1 + 1"
    using wbuf_write_text [OF b1(2,3)] .
  obtain r' b3 where b3: "wbuf_flush wr fd b2 = Some (r', b3)" "ok (dev b3)" "wbuf b3 = []"
    "contents (dev b3) = contents (dev b2) @ wbuf b2" "nprinted b3 = nprinted b2"
    using wbuf_flush_text [OF b2(2)] b2(3) by auto
  have "sint (nprinted b3) = int (length txt) + 1"
    using assms(5) sint_of_nat_u32 [of "Suc (length txt)"] by (simp add: b3(5) b2(5) b1(5) add.commute)
  moreover have "contents (dev b3) = contents (dev b) @ txt @ [0]" using b3(4) b2(4) b1(4) by (metis append_assoc)
  moreover obtain s where "dp_run wr fd (fresh (concat (map fmt_of ps)) (concat (map args_of ps)) []) (b\<lparr>nprinted := 0\<rparr>)
      = Some (s, b1)" "vs_stores s = []"
    using dp_pieces [OF assms(1), of wr fd "b\<lparr>nprinted := 0\<rparr>"] b1(1) unfolding assms(2) [symmetric] dp_result_def by auto
  ultimately show ?thesis using b2(1) b3(1-3) by (simp add: vdprintf_def)
qed

end

text \<open>The kernel's console behind a descriptor that is open for writing on \<open>stdout\<close>.\<close>

definition on_stdout :: "int \<Rightarrow> 'h fs_st \<Rightarrow> bool" where
  "on_stdout fd s \<longleftrightarrow> \<not> bad_fd fd s \<and> oflag (files s (nat fd)) AND O_WRONLY \<noteq> 0
     \<and> v_write (vnodes s (vfs_node (files s (nat fd)))) = Some STDOUT"

interpretation stdout_sink: byte_sink "\<lambda>fd bs. write_vfs e fd (Some bs)" fd console "on_stdout fd"
  by unfold_locales (auto simp: on_stdout_def bad_fd_def write_vfs_def call_write_def write_stdout_def)

section \<open>Properties\<close>

text \<open>
  C4. From \<open>printf\<close> of a program to the kernel's console: with descriptor 1 open on \<open>stdout\<close>, an empty buffer and a text of less than
  2 GiB less a byte, \<open>printf\<close> of a format of plain characters and conversions \<open>%%\<close>, \<open>%d\<close>, \<open>%u\<close>, \<open>%x\<close>, \<open>%c\<close> and \<open>%s\<close> returns, without a store behind its
  buffer of 16 bytes, and the console receives, behind what it had, the text the kernel's \<open>vsprintf\<close> gives for the same format
  and arguments, without losing or doubling a byte, and a NUL, which the value returned counts; the buffer is empty again.
  Every write is of at most 16 bytes: it is enough that \<open>write\<close> behaves as the kernel's for those.
\<close>

theorem printf_on_console:
  assumes "\<forall>p \<in> set ps. plain p" "on_stdout 1 (dev b)" "wbuf b = []"
    "vsprintf (concat (map fmt_of ps)) (concat (map args_of ps)) = Some (n, txt, stores)" "length txt < 2147483647"
    "\<forall>bs. length bs \<le> 16 \<longrightarrow> wr 1 bs = write_vfs e 1 (Some bs)"
  shows "\<exists>b'. printf wr (concat (map fmt_of ps)) (concat (map args_of ps)) b = Some (n + 1, [], b')
    \<and> console (dev b') = console (dev b) @ txt @ [0] \<and> wbuf b' = []"
proof -
  have "byte_sink wr 1 console (on_stdout 1)"
    using assms(6) stdout_sink.wr_appends [where fd = 1 and e = e] by (simp add: byte_sink_def)
  moreover have "txt = concat (map text_of ps)" "n = int (length txt)" using vsprintf_pieces_text [OF assms(1)] assms(4) by simp_all
  ultimately show ?thesis using byte_sink.vdprintf_text [of wr 1 console "on_stdout 1", OF _ assms(1) _ assms(2,3,5)] by (auto simp: printf_def)
qed

theorem printf_on_console_witness:
  "let ps = [Lit 0x78, Lit 0x3D, Dec (- 7)]; e = \<lparr>e_km = \<lambda>h n. (0, h), e_kf = \<lambda>h p. h, e_sched = id, e_irq = id\<rparr>;
       s = (fs_init ())\<lparr>files := \<lambda>_. \<lparr>vfs_node = 1, at_off = 0, oflag = O_WRONLY\<rparr>, vnodes := \<lambda>_. zero_node\<lparr>v_write := Some STDOUT\<rparr>\<rparr>;
       b = \<lparr>wbuf = [], nprinted = 0, dev = s\<rparr> in
   \<exists>b'. printf (\<lambda>fd bs. if length bs \<le> 16 then write_vfs e fd (Some bs) else (\<lambda>_. None)) (concat (map fmt_of ps)) (concat (map args_of ps)) b = Some (4 + 1, [], b')
    \<and> console (dev b') = console (dev b) @ [0x78, 0x3D, 0x2D, 0x37] @ [0] \<and> wbuf b' = []"
  unfolding Let_def
  by (rule printf_on_console [where stores = "[]" and e = "\<lparr>e_km = \<lambda>h n. (0, h), e_kf = \<lambda>h p. h, e_sched = id, e_irq = id\<rparr>"])
    (use vsprintf_pieces_text [of "[Lit 0x78, Lit 0x3D, Dec (- 7)]"] in
      \<open>simp_all add: on_stdout_def bad_fd_def fs_init_def decimal_def radix.simps [of _ _ 7] digs_nth\<close>)

end
