(* ===== verification/Umalloc.thy ===== *)
theory Umalloc
  imports Kmalloc Uvm RString
begin

text \<open>
  The heap of a user program: \<^verbatim>\<open>rlibc/stdlib/malloc.c\<close> over the system calls \<open>sbrk\<close> and \<open>brk\<close>. The headers of the nodes are
  kept in \<open>unodes\<close>, apart from the bytes of the blocks in \<open>umem\<close>; they have the layout of the kernel's headers (theory
  \<open>Kmalloc\<close>), whose chains of blocks describe this heap too. \<open>sbrk\<close> and \<open>brk\<close> are parameters; \<open>user_break\<close> is what the
  theorems need of them, and the kernel's \<open>uvm_sbrk\<close> provides it. A copy to or from NULL is \<open>None\<close>.
\<close>

section \<open>State\<close>

record 's umalloc_st =
  heap_start :: u32
  heap_end :: u32
  unodes :: "u32 \<Rightarrow> kheap_node_t"
  umem :: mem
  usys :: 's

type_synonym 's sbrk_fn = "u32 \<Rightarrow> 's \<Rightarrow> u32 \<times> 's"
type_synonym 's brk_fn = "u32 \<Rightarrow> 's \<Rightarrow> int \<times> 's"

abbreviation (input) MALLOC_FREE :: u32 where "MALLOC_FREE \<equiv> 1"
abbreviation (input) MALLOC_RES :: u32 where "MALLOC_RES \<equiv> 0"

definition set_unode :: "u32 \<Rightarrow> (kheap_node_t \<Rightarrow> kheap_node_t) \<Rightarrow> 's umalloc_st \<Rightarrow> 's umalloc_st" where
  "set_unode a f s = s\<lparr>unodes := (unodes s)(a := f (unodes s a))\<rparr>"

definition call_sbrk :: "'s sbrk_fn \<Rightarrow> u32 \<Rightarrow> 's umalloc_st \<Rightarrow> u32 \<times> 's umalloc_st" where
  "call_sbrk sbrk incr s = (let (r, sy) = sbrk incr (usys s) in (r, s\<lparr>usys := sy\<rparr>))"

section \<open>Operations\<close>

definition round_up16 :: "u32 \<Rightarrow> u32" where
  "round_up16 val = (if val AND (16 - 1) \<noteq> 0 then (val + (16 - 1)) AND NOT (16 - 1) else val)"

definition create_heap :: "'s sbrk_fn \<Rightarrow> u32 \<Rightarrow> 's umalloc_st \<Rightarrow> 's umalloc_st" where
  "create_heap sbrk sz s =
     (let (start, s) = call_sbrk sbrk sz s;
          s = s\<lparr>heap_start := start\<rparr> in
      if start = - 1 then s\<lparr>heap_start := 0\<rparr>
      else
        let (en, s) = call_sbrk sbrk 0 s;
            s = s\<lparr>heap_end := en\<rparr> in
        set_unode start (\<lambda>_. \<lparr>n_size = heap_end s - (start + 16), n_status = MALLOC_FREE, n_next = 0, n_prev = 0\<rparr>) s)"

definition create_padding_node :: "u32 \<Rightarrow> u32 \<Rightarrow> 's umalloc_st \<Rightarrow> 's umalloc_st" where
  "create_padding_node curnode sz s =
     (let padding = curnode + 16 + sz;
          s = set_unode padding (\<lambda>n. n\<lparr>n_prev := curnode\<rparr>) s;
          s = set_unode padding (\<lambda>n. n\<lparr>n_next := n_next (unodes s curnode)\<rparr>) s;
          s = (if n_next (unodes s padding) \<noteq> 0 then
                 let s = set_unode padding (\<lambda>n. n\<lparr>n_size := n_next n - (padding + 16)\<rparr>) s in
                 set_unode (n_next (unodes s padding)) (\<lambda>n. n\<lparr>n_prev := padding\<rparr>) s
               else set_unode padding (\<lambda>n. n\<lparr>n_size := heap_end s - (padding + 16)\<rparr>) s);
          s = set_unode padding (\<lambda>n. n\<lparr>n_status := MALLOC_FREE\<rparr>) s;
          s = set_unode curnode (\<lambda>n. n\<lparr>n_next := padding\<rparr>) s in
      set_unode curnode (\<lambda>n. n\<lparr>n_size := sz\<rparr>) s)"

text \<open>The last node is enlarged if it is too small; \<open>False\<close> is the \<open>break\<close> of the loop.\<close>

definition malloc_enlarge :: "'s sbrk_fn \<Rightarrow> u32 \<Rightarrow> u32 \<Rightarrow> 's umalloc_st \<Rightarrow> bool \<times> 's umalloc_st" where
  "malloc_enlarge sbrk sz curnode s =
     (if n_next (unodes s curnode) = 0 \<and> n_size (unodes s curnode) < sz then
        let (r, s) = call_sbrk sbrk (sz - n_size (unodes s curnode)) s in
        if r = - 1 then (False, s)
        else
          let (en, s) = call_sbrk sbrk 0 s;
              s = s\<lparr>heap_end := en\<rparr> in
          (True, set_unode curnode (\<lambda>n. n\<lparr>n_size := heap_end s - (curnode + 16)\<rparr>) s)
      else (True, s))"

definition malloc_take :: "u32 \<Rightarrow> u32 \<Rightarrow> 's umalloc_st \<Rightarrow> u32 \<times> 's umalloc_st" where
  "malloc_take sz curnode s =
     (let s = (if n_size (unodes s curnode) > sz then create_padding_node curnode sz s else s) in
      (curnode + 16, set_unode curnode (\<lambda>n. n\<lparr>n_status := MALLOC_RES\<rparr>) s))"

partial_function (option) malloc_loop :: "'s sbrk_fn \<Rightarrow> u32 \<Rightarrow> u32 \<Rightarrow> 's umalloc_st \<Rightarrow> (u32 \<times> 's umalloc_st) option" where
  "malloc_loop sbrk sz curnode s =
     (if curnode = 0 then Some (0, s)
      else
        let (grown, s) = malloc_enlarge sbrk sz curnode s in
        if \<not> grown then Some (0, s)
        else if n_status (unodes s curnode) = MALLOC_RES \<or> n_size (unodes s curnode) < sz
        then malloc_loop sbrk sz (n_next (unodes s curnode)) s
        else Some (malloc_take sz curnode s))"

definition malloc :: "'s sbrk_fn \<Rightarrow> u32 \<Rightarrow> 's umalloc_st \<Rightarrow> (u32 \<times> 's umalloc_st) option" where
  "malloc sbrk sz s =
     (if sz = 0 then Some (0, s)
      else
        let sz = round_up16 sz;
            s = (if heap_start s = 0 then create_heap sbrk (PAGE_SIZE + sz) s else s) in
        malloc_loop sbrk sz (heap_start s) s)"

definition u_unify_fwd :: "u32 \<Rightarrow> 's umalloc_st \<Rightarrow> 's umalloc_st" where
  "u_unify_fwd ptr s =
     (let nxt = n_next (unodes s ptr);
          s = set_unode ptr (\<lambda>n. n\<lparr>n_size := n_size n + (n_size (unodes s nxt) + 16)\<rparr>) s;
          s = set_unode ptr (\<lambda>n. n\<lparr>n_next := n_next (unodes s nxt)\<rparr>) s in
      if n_next (unodes s ptr) \<noteq> 0
      then set_unode (n_next (unodes s ptr)) (\<lambda>n. n\<lparr>n_prev := ptr\<rparr>) s
      else s)"

text \<open>After the node is joined to its predecessor \<open>nodeptr\<close> still names the node itself.\<close>

definition free :: "'s brk_fn \<Rightarrow> u32 \<Rightarrow> 's umalloc_st \<Rightarrow> 's umalloc_st" where
  "free brk ptr s =
     (if ptr = 0 then s
      else
        let nodeptr = ptr - 16;
            s = set_unode nodeptr (\<lambda>n. n\<lparr>n_status := MALLOC_FREE\<rparr>) s;
            nxt = n_next (unodes s nodeptr);
            s = (if nxt \<noteq> 0 \<and> n_status (unodes s nxt) = MALLOC_FREE then u_unify_fwd nodeptr s else s);
            prv = n_prev (unodes s nodeptr);
            s = (if prv \<noteq> 0 \<and> n_status (unodes s prv) = MALLOC_FREE then u_unify_fwd prv s else s) in
        if n_next (unodes s nodeptr) = 0 then
          let s = set_unode nodeptr (\<lambda>n. n\<lparr>n_size := PAGE_SIZE\<rparr>) s;
              s = s\<lparr>heap_end := nodeptr + 16 + PAGE_SIZE\<rparr> in
          s\<lparr>usys := snd (brk (heap_end s) (usys s))\<rparr>
        else s)"

definition realloc :: "'s sbrk_fn \<Rightarrow> 's brk_fn \<Rightarrow> u32 \<Rightarrow> u32 \<Rightarrow> 's umalloc_st \<Rightarrow> (u32 \<times> 's umalloc_st) option" where
  "realloc sbrk brk ptr sz s =
     (if ptr = 0 then malloc sbrk sz s
      else if sz = 0 then Some (0, s)
      else
        let nodeptr = ptr - 16;
            s = (if sz < n_size (unodes s nodeptr) \<and> round_up16 sz < n_size (unodes s nodeptr)
                 then create_padding_node nodeptr (round_up16 sz) s else s) in
        if sz > n_size (unodes s nodeptr) then do {
          (ret, s) \<leftarrow> malloc sbrk sz s;
          if ret = 0 \<and> n_size (unodes s nodeptr) \<noteq> 0 then None
          else Some (ret, free brk ptr
                 (s\<lparr>umem := fst (rl_memcpy (umem s) (unat ret) (unat ptr) (unat (n_size (unodes s nodeptr))))\<rparr>))
        }
        else Some (ptr, s))"

definition calloc :: "'s sbrk_fn \<Rightarrow> u32 \<Rightarrow> u32 \<Rightarrow> 's umalloc_st \<Rightarrow> (u32 \<times> 's umalloc_st) option" where
  "calloc sbrk nelem elsize s =
     (if nelem = 0 \<or> elsize = 0 then Some (0, s)
      else do {
        (ret, s) \<leftarrow> malloc sbrk (nelem * elsize) s;
        if ret = 0 \<and> sint (nelem * elsize) > 0 then None
        else Some (ret, s\<lparr>umem := fst (rl_memset (umem s) (unat ret) 0 (sint (nelem * elsize)))\<rparr>)
      })"

section \<open>The list of blocks\<close>

lemma set_unode_fields [simp]:
  "unodes (set_unode a f s) = (unodes s)(a := f (unodes s a))" "heap_start (set_unode a f s) = heap_start s"
  "heap_end (set_unode a f s) = heap_end s" "umem (set_unode a f s) = umem s" "usys (set_unode a f s) = usys s"
  by (simp_all add: set_unode_def)

text \<open>
  The two heaps treat their headers alike: a kernel heap with the headers of a user heap relates the operations on headers,
  so that the lemmas on chains carry over.
\<close>

definition as_kernel :: "'s umalloc_st \<Rightarrow> kmalloc_st" where
  "as_kernel s = undefined\<lparr>nodes := unodes s, kh_end := heap_end s\<rparr>"

lemma as_kernel_fields [simp]: "nodes (as_kernel s) = unodes s" "kh_end (as_kernel s) = heap_end s"
  by (simp_all add: as_kernel_def)

lemma padding_as_kernel:
  assumes "n_size (unodes s c) \<noteq> sz"
  shows "create_padding_node c sz s
    = s\<lparr>unodes := nodes (set_node c (\<lambda>n. n\<lparr>n_size := sz\<rparr>) (split_back sz c (as_kernel s)))\<rparr>"
  using assms by (simp add: create_padding_node_def split_back_def set_unode_def Let_def diff_diff_eq)

lemma unify_as_kernel: "u_unify_fwd p s = s\<lparr>unodes := nodes (unify_fwd p (as_kernel s))\<rparr>"
  by (simp add: u_unify_fwd_def unify_fwd_def set_unode_def Let_def)

lemma as_kernel_unify: "as_kernel (u_unify_fwd p s) = unify_fwd p (as_kernel s)"
  by (subst unify_fwd_upd) (simp add: unify_as_kernel as_kernel_def)

lemma as_kernel_set: "as_kernel (set_unode a f s) = set_node a f (as_kernel s)"
  by (simp add: set_unode_def set_node_def as_kernel_def)

lemma u_unify_fwd_fields [simp]:
  "heap_start (u_unify_fwd p s) = heap_start s" "heap_end (u_unify_fwd p s) = heap_end s"
  "umem (u_unify_fwd p s) = umem s" "usys (u_unify_fwd p s) = usys s"
  by (simp_all add: unify_as_kernel)

text \<open>The part of \<open>free\<close> before the end of the heap is considered: the state and the list of blocks.\<close>

definition free_join :: "u32 \<Rightarrow> 's umalloc_st \<Rightarrow> 's umalloc_st" where
  "free_join nodeptr s =
     (let s = set_unode nodeptr (\<lambda>n. n\<lparr>n_status := MALLOC_FREE\<rparr>) s;
          nxt = n_next (unodes s nodeptr);
          s = (if nxt \<noteq> 0 \<and> n_status (unodes s nxt) = MALLOC_FREE then u_unify_fwd nodeptr s else s);
          prv = n_prev (unodes s nodeptr) in
      if prv \<noteq> 0 \<and> n_status (unodes s prv) = MALLOC_FREE then u_unify_fwd prv s else s)"

lemma free_eq:
  "free brk ptr s =
     (if ptr = 0 then s
      else let s = free_join (ptr - 16) s in
        if n_next (unodes s (ptr - 16)) = 0 then
          let s = (set_unode (ptr - 16) (\<lambda>n. n\<lparr>n_size := PAGE_SIZE\<rparr>) s)\<lparr>heap_end := ptr - 16 + 16 + PAGE_SIZE\<rparr> in
          s\<lparr>usys := snd (brk (heap_end s) (usys s))\<rparr>
        else s)"
  by (simp add: free_def free_join_def Let_def)

lemma free_join_fields [simp]:
  "heap_start (free_join p s) = heap_start s" "heap_end (free_join p s) = heap_end s"
  "umem (free_join p s) = umem s" "usys (free_join p s) = usys s"
  by (simp_all add: free_join_def Let_def)

lemma free_join_chain:
  assumes seg: "kseg (unodes s) 0 base us q a" and chain: "kchain (unodes s) q a ((z, False) # vs) e"
    and e: "e < 4294967296" and base: "0 < base" and mn: "merge_next z vs = (m, ws)" and mp: "merge_prev us m = (us', m')"
  shows "kchain (unodes (free_join (of_nat a) s)) 0 base (us' @ (m', True) # ws) e
    \<and> (ws = [] \<longrightarrow> n_next (unodes (free_join (of_nat a) s) (of_nat a)) = 0)
    \<and> (ws \<noteq> [] \<longrightarrow> n_next (unodes (free_join (of_nat a) s) (of_nat a)) \<noteq> 0)"
proof -
  define k0 where "k0 = as_kernel (set_unode (of_nat a) (\<lambda>n. n\<lparr>n_status := 1\<rparr>) s)"
  have k0: "k0 = set_node (of_nat a) (\<lambda>n. n\<lparr>n_status := KMALLOC_FREE\<rparr>) (as_kernel s)" by (simp add: k0_def as_kernel_set)
  have lim: "a + 16 \<le> e" "base \<le> a" using kchain_less [OF chain] kseg_le [OF seg] by auto
  have "kchain (nodes (as_kernel s)) q a ((z, False) # vs) e" using chain by simp
  note status = set_status_chain [OF this e, folded k0]
  have seg0: "kseg (nodes k0) 0 base us q a" by (rule kseg_frame [OF seg]) (use status(2) lim e in auto)
  define joins where "joins \<longleftrightarrow> vs \<noteq> [] \<and> snd (hd vs)"
  define k1 where "k1 = (if joins then unify_fwd (of_nat a) k0 else k0)"
  have nx: "n_next (nodes k0 (of_nat a)) = (if vs = [] then 0 else of_nat (a + 16 + z))" using status(1) by (simp add: mk_node_def)
  have nx0: "(of_nat (a + 16 + z) :: u32) \<noteq> 0" if "vs \<noteq> []"
  proof -
    have "kchain (nodes k0) a (a + 16 + z) vs e" using status(1) that by simp
    then show ?thesis using kchain_less e by (intro of_nat_u32_neq_0) fastforce+
  qed
  have nxs: "n_status (nodes k0 (of_nat (a + 16 + z))) = 1 \<longleftrightarrow> snd (hd vs)" if "vs \<noteq> []"
    using status(1) that by (cases vs) (auto simp: mk_node_def split: if_splits)
  have chain1: "kchain (nodes k1) q a ((m, True) # ws) e \<and> (\<forall>v < a. nodes k1 (of_nat v) = nodes k0 (of_nat v))"
  proof (cases joins)
    case True
    then obtain z2 ws' where vs: "vs = (z2, True) # ws'" by (cases vs) (auto simp: joins_def)
    note uc = unify_fwd_chain [OF status(1) [unfolded vs] e]
    show ?thesis using True uc mn lim base e vs by (auto simp: k1_def merge_next_def)
  next
    case False
    then show ?thesis using status(1) mn by (auto simp: k1_def joins_def merge_next_def)
  qed
  have seg1: "kseg (nodes k1) 0 base us q a" by (rule kseg_frame [OF seg0]) (use chain1 in blast)
  have prv: "n_prev (nodes k1 (of_nat a)) = of_nat q" using chain1 by (simp add: mk_node_def)
  define k2 where "k2 = (if us \<noteq> [] \<and> snd (last us) then unify_fwd (of_nat q) k1 else k1)"
  have join: "as_kernel (free_join (of_nat a) s) = k2"
  proof -
    have 1: "as_kernel (if joins then u_unify_fwd (of_nat a) (set_unode (of_nat a) (\<lambda>n. n\<lparr>n_status := 1\<rparr>) s)
        else set_unode (of_nat a) (\<lambda>n. n\<lparr>n_status := 1\<rparr>) s) = k1"
      by (simp add: k1_def as_kernel_unify k0_def)
    have 2: "(n_next (nodes k0 (of_nat a)) \<noteq> 0 \<and> n_status (nodes k0 (n_next (nodes k0 (of_nat a)))) = 1) = joins"
      using nx nx0 nxs by (auto simp: joins_def)
    have 3: "(n_prev (nodes k1 (of_nat a)) \<noteq> 0 \<and> n_status (nodes k1 (n_prev (nodes k1 (of_nat a)))) = 1) = (us \<noteq> [] \<and> snd (last us))"
      using prev_node [OF seg1 base] lim e prv by simp
    show ?thesis
      unfolding free_join_def Let_def as_kernel_fields(1) [symmetric] k0_def [symmetric] 2 1 3
      by (simp add: as_kernel_unify 1 prv k2_def)
  qed
  have "\<exists>b q'. kseg (nodes k2) 0 base us' q' b \<and> kchain (nodes k2) q' b ((m', True) # ws) e"
    using unify_prev [OF seg1 conjunct1 [OF chain1] e base mp] unfolding k2_def
    by (cases "us \<noteq> [] \<and> snd (last us)") (simp_all only: if_True if_False simp_thms, blast+)
  then have "kchain (nodes k2) 0 base (us' @ (m', True) # ws) e" using kchain_append [of "(m', True) # ws"] by blast
  moreover have "n_next (nodes k2 (of_nat a)) = n_next (nodes k1 (of_nat a))"
  proof (cases "us \<noteq> [] \<and> snd (last us)")
    case True
    then obtain us1 z1 f1 where "us = us1 @ [(z1, f1)]" by (cases us rule: rev_cases) auto
    then have "q < a" using seg kseg_snoc by auto
    then have "(of_nat a :: u32) \<noteq> of_nat q" using lim e by (intro of_nat_u32_neq) auto
    then show ?thesis by (simp add: k2_def unify_fwd_def Let_def)
  qed (auto simp: k2_def)
  moreover have "n_next (nodes k1 (of_nat a)) = (if ws = [] then 0 else of_nat (a + 16 + m))" using chain1 by (simp add: mk_node_def)
  moreover have "(of_nat (a + 16 + m) :: u32) \<noteq> 0" if "ws \<noteq> []"
  proof -
    have "kchain (nodes k1) a (a + 16 + m) ws e" using chain1 that by simp
    then show ?thesis using kchain_less e by (intro of_nat_u32_neq_0) fastforce+
  qed
  ultimately show ?thesis unfolding as_kernel_fields(1) [symmetric] join by auto
qed

lemma malloc_take_chain:
  assumes chain: "kchain (unodes s) q a ((z, True) # vs) e" and e: "heap_end s = of_nat e" "e < 4294967296" and a: "0 < a"
    and fit: "sz \<le> z" "16 dvd sz" "16 dvd z"
  obtains ns where "malloc_take (of_nat sz) (of_nat a) s = (of_nat (a + 16), s\<lparr>unodes := ns\<rparr>)"
    "kchain ns q a (split_block 0 sz z @ vs) e"
    "\<And>v. v < 4294967296 \<Longrightarrow> v < a \<or> e \<le> v \<Longrightarrow> ns (of_nat v) = unodes s (of_nat v)"
proof (cases "z = sz")
  case True
  define ns where "ns = (unodes s)(of_nat a := (unodes s (of_nat a))\<lparr>n_status := MALLOC_RES\<rparr>)"
  have ae: "a + 16 \<le> e" using kchain_less [OF chain] .
  have other: "ns (of_nat v) = unodes s (of_nat v)" if "v < 4294967296" "v \<noteq> a" for v
    using of_nat_u32_neq [of v a] that ae e by (simp add: ns_def)
  have node: "unodes s (of_nat a) = mk_node z True (if vs = [] then 0 else a + 16 + z) q" using chain by simp
  have "kchain ns a (a + 16 + z) vs e" if "vs \<noteq> []"
    by (rule kchain_frame [of "unodes s"]) (use chain that other e in auto)
  then have "kchain ns q a (split_block 0 sz z @ vs) e"
    using chain True by (simp add: split_block_def ns_def mk_node_def)
  moreover have "malloc_take (of_nat sz) (of_nat a) s = (of_nat (a + 16), s\<lparr>unodes := ns\<rparr>)"
    using True by (simp add: malloc_take_def node mk_node_def ns_def set_unode_def)
  ultimately show thesis using that other ae by force
next
  case False
  then have room: "sz + 16 \<le> z" using grain16 [of sz z] fit by auto
  let ?k = "as_kernel s"
  have ez: "a + 16 + z \<le> e" using chain kchain_less by (fastforce split: if_splits)
  then have un: "unat (of_nat z :: u32) = z" "unat (of_nat sz :: u32) = sz" using e room by (auto intro!: unat_of_nat_u32)
  then have ne: "(of_nat z :: u32) \<noteq> of_nat sz" "(of_nat z :: u32) > of_nat sz" using room by (auto simp: word_less_nat_alt)
  have node: "unodes s (of_nat a) = mk_node z True (if vs = [] then 0 else a + 16 + z) q" using chain by simp
  have "nodes ?k (of_nat a) = \<lparr>n_size = of_nat z, n_status = 1, n_next = of_nat (if vs = [] then 0 else a + 16 + z), n_prev = of_nat q\<rparr>"
    using node by (simp add: mk_node_def)
  moreover have "if vs = [] then a + 16 + z = e \<and> unat (kh_end ?k) = e else kchain (nodes ?k) a (a + 16 + z) vs e"
    using chain e by (auto simp: unat_of_nat_u32)
  moreover define ns where "ns = nodes (set_node (of_nat a) (\<lambda>n. n\<lparr>n_size := of_nat sz, n_status := KMALLOC_RES\<rparr>)
      (split_back (of_nat sz) (of_nat a) ?k))"
  ultimately have bk: "kchain ns q a ((sz, False) # (z - sz - 16, True) # vs) e"
      "\<And>v. v < 4294967296 \<Longrightarrow> v < a \<or> e \<le> v \<Longrightarrow> ns (of_nat v) = unodes s (of_nat v)"
    using back_chain [of ?k a "of_nat z" 1 vs z q sz e a] ne(1) room a e(2) ez unfolding ns_def as_kernel_fields by blast+
  have sp: "split_block 0 sz z @ vs = (sz, False) # (z - sz - 16, True) # vs" using False by (simp add: split_block_def)
  have "malloc_take (of_nat sz) (of_nat a) s = (of_nat (a + 16), s\<lparr>unodes := ns\<rparr>)"
    using ne node by (simp add: malloc_take_def padding_as_kernel mk_node_def set_unode_def ns_def)
  then show thesis using that [of ns] bk unfolding sp by blast
qed

lemma word_and_not_15: "unat (w AND NOT 15 :: u32) = 16 * (unat w div 16)"
proof -
  have m: "unat (w AND 15 :: u32) = unat w mod 16" using unat_and_mask [of w 4] by (simp add: mask_eq_exp_minus_1)
  have "w = (w AND NOT 15) OR (w AND 15)" by (simp add: bit.conj_disj_distrib [symmetric])
  moreover have "(w AND NOT 15) OR (w AND 15) = (w AND NOT 15) + (w AND 15)"
    by (rule disjunctive_add [symmetric]) (auto simp: bit_simps)
  ultimately have "w - (w AND 15) = w AND NOT 15" by (metis add_diff_cancel_right')
  moreover have "unat (w - (w AND 15)) = unat w - unat w mod 16"
    by (metis unat_sub_if_size m word_and_le2 word_le_nat_alt)
  ultimately show ?thesis by (metis minus_mod_eq_mult_div)
qed

lemma round_up16_nat:
  assumes "n < 2147483648"
  shows "round_up16 (of_nat n) = of_nat (16 * ((n + 15) div 16))"
proof -
  have m: "unat (of_nat n AND 15 :: u32) = n mod 16"
    using unat_and_mask [of "of_nat n" 4] assms unat_of_nat_u32 [of n] by (simp add: mask_eq_exp_minus_1)
  show ?thesis
  proof (cases "n mod 16 = 0")
    case True
    then have "(of_nat n AND 15 :: u32) = 0" using m by (simp add: unat_eq_0)
    moreover have "16 * ((n + 15) div 16) = n" using True by presburger
    ultimately show ?thesis by (simp add: round_up16_def)
  next
    case False
    then have "(of_nat n AND 15 :: u32) \<noteq> 0" using m by (metis unat_0)
    moreover have "unat (of_nat (n + 15) :: u32) = n + 15" using assms by (intro unat_of_nat_u32) simp
    then have "unat ((of_nat n + 15 :: u32) AND NOT 15) = 16 * ((n + 15) div 16)" unfolding word_and_not_15 by simp
    then have "(of_nat n + 15 :: u32) AND NOT 15 = of_nat (16 * ((n + 15) div 16))" by (metis of_nat_unat ucast_id)
    ultimately show ?thesis by (simp add: round_up16_def)
  qed
qed

section \<open>First fit\<close>

text \<open>
  What \<open>malloc\<close> does to the list of blocks that starts at \<open>a\<close>, with the break at \<open>tp\<close>: the address of the header of the block it
  takes, if any, and the new list. Only a last block that is free is of use; one that is reserved grows in vain.
\<close>

definition last_grown :: "nat \<Rightarrow> nat \<Rightarrow> nat \<Rightarrow> nat \<Rightarrow> nat" where
  "last_grown tp sz a z = (if z < sz then tp + 4096 * ((sz - z + 4095) div 4096) - (a + 16) else z)"

fun first_fit :: "nat \<Rightarrow> nat \<Rightarrow> nat \<Rightarrow> kblock list \<Rightarrow> nat option \<times> kblock list" where
  "first_fit tp sz a [] = (None, [])"
| "first_fit tp sz a ((z, fr) # bs) =
     (if bs = [] then
        if fr then (Some a, split_block 0 sz (last_grown tp sz a z)) else (None, [(last_grown tp sz a z, fr)])
      else if fr \<and> sz \<le> z then (Some a, split_block 0 sz z @ bs)
      else apsnd (Cons (z, fr)) (first_fit tp sz (a + 16 + z) bs))"

text \<open>The heap of \<open>s\<close> from \<open>base\<close> to \<open>e\<close> holds the blocks \<open>bs\<close>; the break \<open>tp\<close> may be higher than \<open>e\<close>.\<close>

definition uheap_is :: "('s \<Rightarrow> nat) \<Rightarrow> 's umalloc_st \<Rightarrow> nat \<Rightarrow> kblock list \<Rightarrow> nat \<Rightarrow> bool" where
  "uheap_is tp s base bs e \<longleftrightarrow> 0 < base \<and> 16 dvd base \<and> heap_start s = of_nat base \<and> heap_end s = of_nat e
     \<and> e \<le> tp (usys s) \<and> kchain (unodes s) 0 base bs e \<and> (\<forall>b \<in> set bs. 16 dvd fst b)"

lemma uheap_isE:
  assumes "uheap_is tp s base (us @ bs) e" "bs \<noteq> []"
  obtains q where "kseg (unodes s) 0 base us q (base + blen us)" "kchain (unodes s) q (base + blen us) bs e"
proof -
  obtain q a where "kseg (unodes s) 0 base us q a" "kchain (unodes s) q a bs e"
    using assms kchain_append [OF assms(2)] unfolding uheap_is_def by blast
  then show thesis using that kseg_blen by blast
qed

text \<open>A free block is large enough, or the break \<open>tp\<close> can still move up by \<open>sz\<close> bytes.\<close>

definition has_room :: "nat \<Rightarrow> nat \<Rightarrow> nat \<Rightarrow> kblock list \<Rightarrow> bool" where
  "has_room tp lim sz bs \<longleftrightarrow> (\<exists>z. (z, True) \<in> set bs \<and> sz \<le> z) \<or> tp + sz \<le> lim"

text \<open>What the heap needs of \<open>sbrk\<close>: the break grows by whole pages as long as it stays below a limit.\<close>

locale user_break =
  fixes sbrk :: "'s sbrk_fn" and top :: "'s \<Rightarrow> nat" and ok :: "'s \<Rightarrow> bool" and limit :: nat
  assumes limit: "limit < 4294963200"
    and bounds: "ok s \<Longrightarrow> 0 < top s \<and> top s \<le> limit \<and> 4096 dvd top s"
    and sbrk_0: "ok s \<Longrightarrow> sbrk 0 s = (of_nat (top s), s)"
    and grow: "ok s \<Longrightarrow> 0 < n \<Longrightarrow> n < 2147483648 \<Longrightarrow> top s + n \<le> limit \<Longrightarrow>
      \<exists>s'. sbrk (of_nat n) s = (of_nat (top s), s') \<and> ok s' \<and> top s' = top s + 4096 * ((n + 4095) div 4096)"
begin

lemma top_u32: "ok s \<Longrightarrow> unat (of_nat (top s) :: u32) = top s" "ok s \<Longrightarrow> (of_nat (top s) :: u32) \<noteq> - 1" "ok s \<Longrightarrow> 16 dvd top s"
proof -
  assume ok: "ok s"
  show t: "unat (of_nat (top s) :: u32) = top s" using bounds [OF ok] limit by (intro unat_of_nat_u32) simp
  have "unat (- 1 :: u32) = 4294967295" by (simp add: unsigned_minus_1_eq_mask mask_eq_exp_minus_1)
  then show "(of_nat (top s) :: u32) \<noteq> - 1" using t bounds [OF ok] limit by auto
  show "16 dvd top s" using bounds [OF ok] by (auto intro: dvd_trans [of _ "4096 :: nat"])
qed

lemma malloc_enlarge_last:
  assumes ok: "ok (usys s)" and node: "unodes s (of_nat a) = mk_node z fr 0 q" and e: "a + 16 + z = e" "heap_end s = of_nat e"
    "e \<le> top (usys s)" and sz: "sz < 2147483648" "z < sz \<longrightarrow> top (usys s) + sz \<le> limit" and dv: "16 dvd a" "16 dvd z" "16 dvd sz"
  shows "\<exists>s' e'. malloc_enlarge sbrk (of_nat sz) (of_nat a) s = (True, s') \<and> ok (usys s') \<and> heap_start s' = heap_start s
    \<and> umem s' = umem s \<and> heap_end s' = of_nat e' \<and> e' \<le> top (usys s') \<and> e' = a + 16 + last_grown (top (usys s)) sz a z
    \<and> unodes s' = (unodes s)(of_nat a := mk_node (last_grown (top (usys s)) sz a z) fr 0 q)
    \<and> sz \<le> last_grown (top (usys s)) sz a z \<and> 16 dvd last_grown (top (usys s)) sz a z"
proof (cases "z < sz")
  case False
  have "unat (of_nat z :: u32) = z" "unat (of_nat sz :: u32) = sz"
    using bounds [OF ok] limit e sz by (auto intro!: unat_of_nat_u32)
  then have "\<not> (of_nat z :: u32) < of_nat sz" using False by (simp add: word_less_nat_alt)
  then have "malloc_enlarge sbrk (of_nat sz) (of_nat a) s = (True, s)" by (simp add: malloc_enlarge_def node mk_node_def)
  then show ?thesis using False assms by (simp add: last_grown_def fun_upd_idem)
next
  case True
  let ?t = "top (usys s)" let ?n = "sz - z"
  have "unat (of_nat z :: u32) = z" "unat (of_nat sz :: u32) = sz"
    using bounds [OF ok] limit e sz by (auto intro!: unat_of_nat_u32)
  then have less: "(of_nat z :: u32) < of_nat sz" using True by (simp add: word_less_nat_alt)
  have arg: "(of_nat sz :: u32) - of_nat z = of_nat ?n" using True by (simp add: of_nat_diff)
  obtain sy where sy: "sbrk (of_nat ?n) (usys s) = (of_nat ?t, sy)" "ok sy" "top sy = ?t + 4096 * ((?n + 4095) div 4096)"
  proof -
    have "0 < ?n" "?n < 2147483648" "?t + ?n \<le> limit" using True sz by linarith+
    from grow [OF ok this] that show thesis by blast
  qed
  define z' where "z' = top sy - (a + 16)"
  have z': "last_grown ?t sz a z = z'" using True by (simp add: last_grown_def z'_def sy(3))
  have n: "?n \<le> 4096 * ((?n + 4095) div 4096)"
    using div_mult_mod_eq [of "?n + 4095" 4096] mod_less_divisor [of 4096 "?n + 4095"] by linarith
  then have ge: "a + 16 + sz \<le> top sy" using e True sy(3) by linarith
  then have "(of_nat (top sy) :: u32) - (of_nat a + 16) = of_nat z'" by (simp add: z'_def of_nat_diff)
  then have "malloc_enlarge sbrk (of_nat sz) (of_nat a) s = (True, s\<lparr>usys := sy, heap_end := of_nat (top sy),
      unodes := (unodes s)(of_nat a := mk_node z' fr 0 q)\<rparr>)"
    using less sy(1) top_u32(2) [OF ok] sbrk_0 [OF sy(2)]
    by (simp add: malloc_enlarge_def node mk_node_def arg call_sbrk_def set_unode_def)
  moreover have "16 dvd z'" using top_u32(3) [OF sy(2)] dv ge by (auto simp: z'_def intro!: dvd_diff_nat)
  moreover have "sz \<le> z'" "top sy = a + 16 + z'" using ge by (simp_all add: z'_def)
  ultimately show ?thesis unfolding z' using sy(2) by (intro exI [of _ "s\<lparr>usys := sy, heap_end := of_nat (top sy),
      unodes := (unodes s)(of_nat a := mk_node z' fr 0 q)\<rparr>"] exI [of _ "top sy"]) simp
qed

lemma split_block_dvd0: "16 dvd sz \<Longrightarrow> 16 dvd z \<Longrightarrow> b \<in> set (split_block 0 sz z) \<Longrightarrow> 16 dvd fst b"
  by (rule split_block_dvd) simp_all

text \<open>The search from the node at \<open>a\<close> on, with the blocks \<open>us\<close> already passed.\<close>

lemma malloc_loop_refines:
  assumes "ok (usys s)" "kseg (unodes s) 0 base us q a" "kchain (unodes s) q a bs e" "0 < base" "16 dvd base"
    and "heap_start s = of_nat base" "heap_end s = of_nat e" "e \<le> top (usys s)"
    and "\<forall>b \<in> set us \<union> set bs. 16 dvd fst b" "16 dvd a" "16 dvd sz" "sz < 2147483648" "has_room (top (usys s)) limit sz bs"
  shows "\<exists>s' e'. malloc_loop sbrk (of_nat sz) (of_nat a) s
        = Some (case fst (first_fit (top (usys s)) sz a bs) of None \<Rightarrow> 0 | Some c \<Rightarrow> of_nat (c + 16), s')
     \<and> uheap_is top s' base (us @ snd (first_fit (top (usys s)) sz a bs)) e' \<and> ok (usys s') \<and> umem s' = umem s"
  using assms
proof (induction bs arbitrary: us q a)
  case (Cons b bs)
  obtain z fr where b: "b = (z, fr)" by force
  have a_e: "a + 16 + z \<le> e" using Cons.prems(3) b kchain_less by (fastforce split: if_splits)
  have lim: "e \<le> limit" "e < 4294967296" using Cons.prems(8) bounds [OF Cons.prems(1)] limit by auto
  have a_pos: "0 < a" using Cons.prems(4) kseg_le [OF Cons.prems(2)] by simp
  have a_nz: "(of_nat a :: u32) \<noteq> 0" using a_pos a_e lim by (intro of_nat_u32_neq_0) auto
  have uz: "unat (of_nat z :: u32) = z" "unat (of_nat sz :: u32) = sz" using a_e lim Cons.prems(12) by (auto intro!: unat_of_nat_u32)
  show ?case
  proof (cases "bs = []")
    case True
    let ?z = "last_grown (top (usys s)) sz a z"
    have node: "unodes s (of_nat a) = mk_node z fr 0 q" and e: "a + 16 + z = e" using Cons.prems(3) b True by simp_all
    have dz: "16 dvd z" using Cons.prems(9) b by simp
    have room: "z < sz \<longrightarrow> top (usys s) + sz \<le> limit" using Cons.prems(13) b True by (auto simp: has_room_def)
    obtain s1 e1 where s1: "malloc_enlarge sbrk (of_nat sz) (of_nat a) s = (True, s1)" "ok (usys s1)" "heap_start s1 = heap_start s"
        "umem s1 = umem s" "heap_end s1 = of_nat e1" "e1 \<le> top (usys s1)" "e1 = a + 16 + ?z"
        "unodes s1 = (unodes s)(of_nat a := mk_node ?z fr 0 q)" "sz \<le> ?z" "16 dvd ?z"
      using malloc_enlarge_last [OF Cons.prems(1) node e Cons.prems(7,8,12) room Cons.prems(10) dz Cons.prems(11)] by blast
    have e1: "e1 < 4294967296" using s1(6) bounds [OF s1(2)] limit by simp
    have old: "unodes s1 (of_nat v) = unodes s (of_nat v)" if "v < a" for v
      using that a_e lim of_nat_u32_neq [of v a] by (simp add: s1(8))
    have seg: "kseg (unodes s1) 0 base us q a" by (rule kseg_frame [OF Cons.prems(2)]) (use old in blast)
    have node1: "unodes s1 (of_nat a) = mk_node ?z fr 0 q" by (simp add: s1(8))
    show ?thesis
    proof (cases fr)
      case free: True
      have chain: "kchain (unodes s1) q a ((?z, True) # []) e1" using node1 s1(7) free by simp
      obtain ns where ns: "malloc_take (of_nat sz) (of_nat a) s1 = (of_nat (a + 16), s1\<lparr>unodes := ns\<rparr>)"
          "kchain ns q a (split_block 0 sz ?z @ []) e1"
          "\<And>v. v < 4294967296 \<Longrightarrow> v < a \<or> e1 \<le> v \<Longrightarrow> ns (of_nat v) = unodes s1 (of_nat v)"
        using malloc_take_chain [OF chain s1(5) e1 a_pos s1(9) Cons.prems(11) s1(10)] by blast
      have "unat (of_nat ?z :: u32) = ?z" using s1(7) e1 by (intro unat_of_nat_u32) simp
      then have "\<not> (of_nat ?z :: u32) < of_nat sz" using uz s1(9) by (simp add: word_less_nat_alt)
      then have "malloc_loop sbrk (of_nat sz) (of_nat a) s = Some (malloc_take (of_nat sz) (of_nat a) s1)"
        using a_nz s1(1) node1 free by (subst malloc_loop.simps) (simp add: mk_node_def)
      moreover have "kseg ns 0 base us q a" by (rule kseg_frame [OF seg]) (use ns(3) a_e lim in auto)
      then have "uheap_is top (s1\<lparr>unodes := ns\<rparr>) base (us @ split_block 0 sz ?z) e1"
        using ns(2) s1 Cons.prems(4-6,9,11) b split_block_dvd0 [of sz ?z]
        by (auto simp: uheap_is_def kchain_append split_block_nonempty)
      ultimately show ?thesis using ns(1) s1(2,4) b True free by auto
    next
      case res: False
      have "malloc_loop sbrk (of_nat sz) (of_nat a) s = Some (0, s1)"
        using a_nz s1(1) node1 res by (subst malloc_loop.simps) (simp add: mk_node_def malloc_loop.simps)
      moreover have "kchain (unodes s1) q a [(?z, False)] e1" using node1 s1(7) res by simp
      then have "uheap_is top s1 base (us @ [(?z, False)]) e1"
        using s1 seg Cons.prems(4-6,9) b by (auto simp: uheap_is_def kchain_append)
      ultimately show ?thesis using s1(2,4) b True res by auto
    qed
  next
    case False
    have node: "unodes s (of_nat a) = mk_node z fr (a + 16 + z) q" and chain: "kchain (unodes s) a (a + 16 + z) bs e"
      using Cons.prems(3) b False by simp_all
    have "a + 16 + z + 16 \<le> e" using kchain_less [OF chain] .
    then have "(of_nat (a + 16 + z) :: u32) \<noteq> 0" using lim by (intro of_nat_u32_neq_0) auto
    then have skip: "malloc_enlarge sbrk (of_nat sz) (of_nat a) s = (True, s)"
      by (simp add: malloc_enlarge_def node mk_node_def)
    show ?thesis
    proof (cases "fr \<and> sz \<le> z")
      case fit: True
      have dz: "16 dvd z" using Cons.prems(9) b by simp
      have chain': "kchain (unodes s) q a ((z, True) # bs) e" using Cons.prems(3) b fit by simp
      obtain ns where ns: "malloc_take (of_nat sz) (of_nat a) s = (of_nat (a + 16), s\<lparr>unodes := ns\<rparr>)"
          "kchain ns q a (split_block 0 sz z @ bs) e"
          "\<And>v. v < 4294967296 \<Longrightarrow> v < a \<or> e \<le> v \<Longrightarrow> ns (of_nat v) = unodes s (of_nat v)"
        using malloc_take_chain [OF chain' Cons.prems(7) lim(2) a_pos _ Cons.prems(11) dz] fit by blast
      have "\<not> (of_nat z :: u32) < of_nat sz" using uz fit by (simp add: word_less_nat_alt)
      then have "malloc_loop sbrk (of_nat sz) (of_nat a) s = Some (malloc_take (of_nat sz) (of_nat a) s)"
        using a_nz skip node fit by (subst malloc_loop.simps) (simp add: mk_node_def)
      moreover have "kseg ns 0 base us q a" by (rule kseg_frame [OF Cons.prems(2)]) (use ns(3) a_e lim in auto)
      then have "uheap_is top (s\<lparr>unodes := ns\<rparr>) base (us @ split_block 0 sz z @ bs) e"
        using ns(2) Cons.prems b split_block_dvd0 [of sz z] False by (auto simp: uheap_is_def kchain_append split_block_nonempty)
      ultimately show ?thesis using ns(1) b fit False Cons.prems(1) by auto
    next
      case nofit: False
      have "fr \<Longrightarrow> (of_nat z :: u32) < of_nat sz" using uz nofit by (simp add: word_less_nat_alt)
      then have "malloc_loop sbrk (of_nat sz) (of_nat a) s = malloc_loop sbrk (of_nat sz) (of_nat (a + 16 + z)) s"
        using a_nz skip node by (subst malloc_loop.simps) (auto simp: mk_node_def)
      moreover have "kseg (unodes s) 0 base (us @ [(z, fr)]) a (a + 16 + z)" using Cons.prems(2) node by (auto simp: kseg_append)
      moreover have "16 dvd a + 16 + z" using Cons.prems(9,10) b by (auto intro!: dvd_add)
      moreover have "has_room (top (usys s)) limit sz bs" using Cons.prems(13) b nofit by (auto simp: has_room_def)
      ultimately show ?thesis
        using Cons.IH [of "us @ [(z, fr)]" a "a + 16 + z"] chain Cons.prems b False nofit by auto
    qed
  qed
qed simp

lemma malloc_refines:
  assumes heap: "uheap_is top s base bs e" and ok: "ok (usys s)" and n: "0 < n" "n < 2147483600" "sz = 16 * ((n + 15) div 16)"
    and room: "has_room (top (usys s)) limit sz bs"
  shows "\<exists>s' e'. malloc sbrk (of_nat n) s
        = Some (case fst (first_fit (top (usys s)) sz base bs) of None \<Rightarrow> 0 | Some c \<Rightarrow> of_nat (c + 16), s')
     \<and> uheap_is top s' base (snd (first_fit (top (usys s)) sz base bs)) e' \<and> ok (usys s') \<and> umem s' = umem s"
proof -
  have h: "0 < base" "16 dvd base" "heap_start s = of_nat base" "heap_end s = of_nat e" "e \<le> top (usys s)"
    "kchain (unodes s) 0 base bs e" "\<forall>b \<in> set bs. 16 dvd fst b"
    using heap by (simp_all add: uheap_is_def)
  have "base < 4294967296" using kchain_less [OF h(6)] h(5) bounds [OF ok] limit by simp
  then have "(of_nat base :: u32) \<noteq> 0" using h(1) by (intro of_nat_u32_neq_0)
  moreover have "(of_nat n :: u32) \<noteq> 0" using n by (intro of_nat_u32_neq_0) auto
  ultimately have "malloc sbrk (of_nat n) s = malloc_loop sbrk (of_nat sz) (of_nat base) s"
    using n h(3) round_up16_nat [of n] by (simp add: malloc_def)
  moreover have "16 dvd sz" "sz < 2147483648" using n by (simp_all add: n(3))
  ultimately show ?thesis
    using malloc_loop_refines [OF ok _ h(6,1,2,3,4,5), of "[]" sz] h room by simp
qed

text \<open>The first call creates the heap: one page more than asked for, rounded up to pages.\<close>

lemma create_heap_is:
  assumes ok: "ok (usys s)" and m: "16 \<le> m" "m < 2147483648" "top (usys s) + m \<le> limit"
  defines "s' \<equiv> create_heap sbrk (of_nat m) s" and "z \<equiv> 4096 * ((m + 4095) div 4096) - 16"
  shows "uheap_is top s' (top (usys s)) [(z, True)] (top (usys s')) \<and> ok (usys s')
    \<and> top (usys s') = top (usys s) + 16 + z \<and> umem s' = umem s"
proof -
  let ?t = "top (usys s)"
  obtain sy where sy: "sbrk (of_nat m) (usys s) = (of_nat ?t, sy)" "ok sy" "top sy = ?t + 4096 * ((m + 4095) div 4096)"
    using grow [OF ok, of m] m by auto
  have "m \<le> 4096 * ((m + 4095) div 4096)"
    using div_mult_mod_eq [of "m + 4095" 4096] mod_less_divisor [of 4096 "m + 4095"] by linarith
  then have z: "top sy = ?t + 16 + z" "16 \<le> 4096 * ((m + 4095) div 4096)" using m sy(3) by (simp_all add: z_def)
  then have "16 dvd z" unfolding z_def by (intro dvd_diff_nat) simp_all
  moreover have "(of_nat (top sy) :: u32) - (of_nat ?t + 16) = of_nat z" by (simp add: z(1))
  then have "s' = s\<lparr>usys := sy, heap_start := of_nat ?t, heap_end := of_nat (top sy),
      unodes := (unodes s)(of_nat ?t := mk_node z True 0 0)\<rparr>"
    using sy(1) sbrk_0 [OF sy(2)] top_u32(2) [OF ok]
    by (simp add: s'_def create_heap_def call_sbrk_def set_unode_def mk_node_def)
  ultimately show ?thesis using sy(2) z(1) bounds [OF ok] top_u32(3) [OF ok] by (simp add: uheap_is_def)
qed

lemma malloc_creates:
  assumes "heap_start s = 0" and ok: "ok (usys s)" and n: "0 < n" "n < 2147479000" "sz = 16 * ((n + 15) div 16)"
    and room: "top (usys s) + 8192 + 2 * sz \<le> limit"
  shows "\<exists>s' e' z. malloc sbrk (of_nat n) s = Some (of_nat (top (usys s) + 16), s') \<and> ok (usys s') \<and> umem s' = umem s
     \<and> 16 dvd z \<and> uheap_is top s' (top (usys s)) [(sz, False), (z, True)] e'"
proof -
  let ?t = "top (usys s)" let ?m = "4096 + sz"
  define s1 where "s1 = create_heap sbrk (of_nat ?m) s"
  define z where "z = 4096 * ((?m + 4095) div 4096) - 16"
  have sz: "16 dvd sz" "sz < 2147479040" using n by (simp_all add: n(3))
  have m: "16 \<le> ?m" "?m < 2147483648" "?t + ?m \<le> limit" using sz room by simp_all
  note ch = create_heap_is [OF ok m, folded s1_def z_def]
  have up: "?m \<le> 4096 * ((?m + 4095) div 4096)" "4096 * ((?m + 4095) div 4096) \<le> ?m + 4095"
    using div_mult_mod_eq [of "?m + 4095" 4096] mod_less_divisor [of 4096 "?m + 4095"] by linarith+
  then have z: "sz + 16 < z" "z + 16 \<le> ?m + 4095" by (simp_all add: z_def)
  have "16 dvd z" unfolding z_def by (intro dvd_diff_nat) simp_all
  then have rest: "16 dvd z - sz - 16" using sz z by (auto intro!: dvd_diff_nat)
  have t: "?t < 4294967296" "0 < ?t" using bounds [OF ok] limit by simp_all
  have ff: "first_fit (top (usys s1)) sz ?t [(z, True)] = (Some ?t, [(sz, False), (z - sz - 16, True)])"
    using z by (simp add: last_grown_def split_block_def)
  have "heap_start s1 = of_nat ?t" using ch by (simp add: uheap_is_def)
  then have "malloc sbrk (of_nat n) s = malloc sbrk (of_nat n) s1"
    using assms(1) n round_up16_nat [of n] of_nat_u32_neq_0 [OF t(2,1)] of_nat_u32_neq_0 [of n] by (simp add: malloc_def s1_def Let_def)
  moreover have "top (usys s1) + sz \<le> limit" using conjunct1 [OF conjunct2 [OF conjunct2 [OF ch]]] z room by simp
  ultimately show ?thesis
    using malloc_refines [of s1 ?t "[(z, True)]" "top (usys s1)" n sz] ch n rest unfolding ff has_room_def by fastforce
qed

text \<open>Freeing a block: it is joined with the free blocks next to it.\<close>

lemma free_refines:
  assumes heap: "uheap_is top s base (us @ (z, False) # vs) e" and e_u32: "e < 4294967296"
    and mn: "merge_next z vs = (m, ws)" and mp: "merge_prev us m = (us', m')"
    and p: "p = of_nat (base + blen us + 16)" and s': "s' = free brk p s"
  shows "ws \<noteq> [] \<Longrightarrow> uheap_is top s' base (us' @ (m', True) # ws) e \<and> usys s' = usys s \<and> umem s' = umem s"
    and "ws = [] \<Longrightarrow> heap_end s' = p + PAGE_SIZE
      \<and> (us' \<noteq> us \<longrightarrow> kchain (unodes s') 0 base (us' @ [(m', True)]) e)"
proof -
  let ?a = "base + blen us"
  have h: "0 < base" "16 dvd base" "heap_start s = of_nat base" "heap_end s = of_nat e" "e \<le> top (usys s)"
    "\<forall>b \<in> set (us @ (z, False) # vs). 16 dvd fst b"
    using heap by (simp_all add: uheap_is_def)
  obtain q where seg: "kseg (unodes s) 0 base us q ?a" and chain: "kchain (unodes s) q ?a ((z, False) # vs) e"
    using uheap_isE [OF heap] by blast
  have e: "e < 4294967296" "?a + 16 \<le> e" using e_u32 kchain_less [OF chain] by auto
  note join = free_join_chain [OF seg chain e(1) h(1) mn mp]
  have p0: "p \<noteq> 0" "p - 16 = of_nat ?a"
    using of_nat_u32_neq_0 [of "?a + 16"] e unfolding p by (auto simp: add.assoc)
  have "16 dvd m" "\<forall>b \<in> set ws. 16 dvd fst b" using mn h(6) by (auto simp: merge_next_def dest: list.set_sel(2) split: if_splits)
  then have dv: "\<forall>b \<in> set (us' @ (m', True) # ws). 16 dvd fst b"
    using mp h(6) by (auto simp: merge_prev_def dest: in_set_butlastD split: if_splits)
  show "uheap_is top s' base (us' @ (m', True) # ws) e \<and> usys s' = usys s \<and> umem s' = umem s" if "ws \<noteq> []"
  proof -
    have "s' = free_join (of_nat ?a) s" using that join p0 by (simp add: s' free_eq)
    then show ?thesis using join h dv by (simp add: uheap_is_def)
  qed
  show "heap_end s' = p + PAGE_SIZE \<and> (us' \<noteq> us \<longrightarrow> kchain (unodes s') 0 base (us' @ [(m', True)]) e)" if nil: "ws = []"
  proof
    have "p - 16 + 16 = p" by simp
    then show "heap_end s' = p + PAGE_SIZE" using nil join p0 by (simp add: s' free_eq Let_def)
    have u: "unodes s' = (unodes (free_join (of_nat ?a) s))(of_nat ?a := (unodes (free_join (of_nat ?a) s) (of_nat ?a))\<lparr>n_size := PAGE_SIZE\<rparr>)"
      using nil join p0 by (simp add: s' free_eq Let_def)
    show "us' \<noteq> us \<longrightarrow> kchain (unodes s') 0 base (us' @ [(m', True)]) e"
    proof
      assume "us' \<noteq> us"
      then obtain z1 where us: "us = us' @ [(z1, True)]" "m' = z1 + 16 + m"
        using mp by (cases us rule: rev_cases) (auto simp: merge_prev_def split: if_splits)
      have kc: "kchain (unodes (free_join (of_nat ?a) s)) 0 base (us' @ [(m', True)]) e" using join nil by simp
      obtain q' b where sb: "kseg (unodes (free_join (of_nat ?a) s)) 0 base us' q' b"
          "kchain (unodes (free_join (of_nat ?a) s)) q' b [(m', True)] e"
        using kc kchain_append [of "[(m', True)]"] by blast
      have b: "b = base + blen us'" using kseg_blen [OF sb(1)] .
      have "blen us = blen us' + 16 + z1" by (simp add: us(1) blen_def)
      then have ba: "b < ?a" using b by simp
      have ne: "(of_nat x :: u32) \<noteq> of_nat ?a" if "x \<le> b" for x using that ba e by (intro of_nat_u32_neq) auto
      have "kseg (unodes s') 0 base us' q' b" by (rule kseg_frame [OF sb(1)]) (use ne u in auto)
      moreover have "kchain (unodes s') q' b [(m', True)] e" using sb(2) ne [of b] u by simp
      ultimately show "kchain (unodes s') 0 base (us' @ [(m', True)]) e" using kchain_append [of "[(m', True)]"] by blast
    qed
  qed
qed

end

text \<open>
  The kernel's \<open>uvm_sbrk\<close>, for a task whose page tables exist from the end of its heap up to page \<open>hi\<close>, for instance to the end of the
  4 MiB that the page table of its last heap page covers. With \<open>hi\<close> the page of the break itself, no table is asked for.
\<close>

definition ubreak :: "'z task_st_scheme \<Rightarrow> nat" where
  "ubreak s = 4096 * upage s"

definition ubreak_ok :: "nat \<Rightarrow> 'z task_st_scheme \<Rightarrow> bool" where
  "ubreak_ok hi s \<longleftrightarrow> uvm_ok (upage s) hi s \<and> upage s \<le> hi"

lemma frame_addr_of_nat: "frame_addr n = of_nat (4096 * n)"
  by (simp add: frame_addr_def push_bit_eq_mult)

lemma ubreak_less: "ubreak s < 4294967296"
  using unat_u32_lt [of "uheap_end (theap s (cur_task s))"] by (simp add: ubreak_def upage_def frame_no_def div_less_iff_less_mult)

lemma ubreak_ok_hi: "ubreak_ok hi s \<Longrightarrow> hi \<le> 1047552"
  by (simp add: ubreak_ok_def uvm_ok_def)

interpretation ubrk: user_break "uvm_sbrk km" ubreak "ubreak_ok hi" "min (4096 * hi) 4290772992"
proof unfold_locales
  fix s :: "'a task_st_scheme" and n :: nat
  assume ok: "ubreak_ok hi s"
  note hi = ubreak_ok_hi [OF ok]
  then have lim: "min (4096 * hi) 4290772992 = 4096 * hi" by simp
  have end': "uheap_end (theap s (cur_task s)) = of_nat (ubreak s)"
    using ok by (simp add: ubreak_ok_def uvm_ok_def ubreak_def frame_addr_of_nat)
  show "uvm_sbrk km 0 s = (of_nat (ubreak s), s)" by (simp add: uvm_sbrk_def Let_def end')
  show "0 < ubreak s \<and> ubreak s \<le> min (4096 * hi) 4290772992 \<and> 4096 dvd ubreak s"
    using ok hi unfolding lim by (auto simp: ubreak_ok_def uvm_ok_def ubreak_def)
  assume n: "0 < n" "n < 2147483648" "ubreak s + n \<le> min (4096 * hi) 4290772992"
  let ?k = "(n + 4095) div 4096"
  have k: "pages_for (int n) = ?k" by (simp add: pages_for_def nat_div_distrib nat_add_distrib)
  have up: "upage s + ?k \<le> hi"
  proof -
    have "4096 * upage s + n \<le> 4096 * hi" using n(3) unfolding lim by (simp add: ubreak_def)
    then have "?k \<le> (4096 * hi - 4096 * upage s + 4095) div 4096" by (intro div_le_mono) simp
    also have "\<dots> = hi - upage s" by (simp add: right_diff_distrib' [symmetric])
    finally have "?k \<le> hi - upage s" .
    moreover have "upage s \<le> hi" using ok by (simp add: ubreak_ok_def)
    ultimately show ?thesis by linarith
  qed
  have i: "sint (of_nat n :: u32) = int n" "unat (of_nat n :: u32) = n" using n by (simp_all add: sint_of_nat_u32 unat_of_nat_u32)
  have "uvm_ok (upage s) (upage s + pages_for (sint (of_nat n :: u32))) s"
    using ok up unfolding i k by (auto simp: ubreak_ok_def uvm_ok_def)
  from uvm_sbrk_grows [OF this] obtain s' where s': "uvm_sbrk km (of_nat n) s = (frame_addr (upage s), s')" "uvm_moved (upage s + ?k) s s'"
    using n unfolding i k by (auto simp: ubreak_def)
  have p: "upage s' = upage s + ?k" using uvm_moved_upage [OF s'(2)] up hi by simp
  have "uvm_ok (upage s) hi s'" using uvm_moved_ok [OF s'(2)] up hi ok by (simp add: ubreak_ok_def)
  then have "ubreak_ok hi s'" using p up by (auto simp: ubreak_ok_def uvm_ok_def)
  then show "\<exists>s'. uvm_sbrk km (of_nat n) s = (of_nat (ubreak s), s') \<and> ubreak_ok hi s' \<and> ubreak s' = ubreak s + 4096 * ?k"
    using s'(1) p by (auto simp: ubreak_def frame_addr_of_nat)
qed simp

section \<open>Properties\<close>

text \<open>
  C7. \<open>malloc\<close> of a user program over the kernel's \<open>sbrk\<close> is first fit on the list \<open>bs\<close> of the blocks of the heap: it returns, and reserves
  and gives the front part of the first free block that is large enough; if there is none and the last block is free, that
  block, after the break was moved up for it; and if the last block is reserved, NULL, with that block enlarged to no use if it
  is smaller than the request. The other blocks and the contents of the memory stay as they are. It asks for a request of 1 to 2147483599 bytes on a heap
  that exists, of a task whose directory is the active one and has no table twice, and, unless a free block is large enough, for room of that size between the break and page \<open>hi\<close>, where \<open>hi\<close> is not above the
  stack and the page tables of the task exist from the break up to \<open>hi\<close>.
\<close>

theorem malloc_first_fit:
  assumes "uheap_is ubreak s base bs e" "ubreak_ok hi (usys s)" "0 < n" "n < 2147483600" "sz = 16 * ((n + 15) div 16)"
    "(\<exists>z. (z, True) \<in> set bs \<and> sz \<le> z) \<or> ubreak (usys s) + sz \<le> 4096 * hi"
  shows "\<exists>s' e'. malloc (uvm_sbrk km) (of_nat n) s
        = Some (case fst (first_fit (ubreak (usys s)) sz base bs) of None \<Rightarrow> 0 | Some c \<Rightarrow> of_nat (c + 16), s')
     \<and> uheap_is ubreak s' base (snd (first_fit (ubreak (usys s)) sz base bs)) e' \<and> umem s' = umem s"
proof -
  have "has_room (ubreak (usys s)) (min (4096 * hi) 4290772992) sz bs" using assms(6) ubreak_ok_hi [OF assms(2)] by (auto simp: has_room_def)
  then show ?thesis using ubrk.malloc_refines [OF assms(1-5)] by blast
qed

text \<open>A user heap of three blocks below the break of the sample task.\<close>

definition sample_uheap :: "kblock list \<Rightarrow> task_st umalloc_st" where
  "sample_uheap bs = \<lparr>heap_start = 0x10000000, heap_end = 0x10002000,
     unodes = (case bs of [(y, f), (z, g), (w, h)] \<Rightarrow>
       (\<lambda>_. mk_node 0 False 0 0)(of_nat 0x10000000 := mk_node y f (0x10000010 + y) 0,
          of_nat (0x10000010 + y) := mk_node z g (0x10000020 + y + z) 0x10000000,
          of_nat (0x10000020 + y + z) := mk_node w h 0 (0x10000010 + y))),
     umem = \<lambda>_. 0, usys = sample_user\<rparr>"

lemma ubreak_sample: "ubreak sample_user = 268443648" "ubreak_ok 66560 sample_user"
proof -
  have u: "upage sample_user = 65538" by (simp add: upage_def sample_user_fields zero_task_def frame_no_def)
  then show "ubreak sample_user = 268443648" by (simp add: ubreak_def)
  have "tables (dirs sample_user 0x5000) (dir_i a) \<noteq> 0" for a
    using table_nonzero [OF dir_i_less [of a]] by (simp add: sample_user_fields del: of_nat_add)
  then have "uvm_ok 65538 66560 sample_user"
    using uvm_ok_sample unfolding uvm_ok_def by (simp add: sample_user_fields zero_task_def)
  then show "ubreak_ok 66560 sample_user" using u by (simp add: ubreak_ok_def)
qed

lemma sample_uheap_is:
  assumes "y + z + w = 8144" "16 dvd y" "16 dvd z" "16 dvd w"
  shows "uheap_is ubreak (sample_uheap [(y, f), (z, g), (w, h)]) 0x10000000 [(y, f), (z, g), (w, h)] 0x10002000"
proof -
  define b c where "b = 0x10000010 + y" and "c = 0x10000020 + y + z"
  have ne: "(of_nat b :: u32) \<noteq> of_nat 0x10000000" "(of_nat c :: u32) \<noteq> of_nat 0x10000000" "(of_nat c :: u32) \<noteq> of_nat b"
    using assms(1) by (intro of_nat_u32_neq; simp add: b_def c_def)+
  have "unodes (sample_uheap [(y, f), (z, g), (w, h)]) = (\<lambda>_. mk_node 0 False 0 0)(of_nat 0x10000000 := mk_node y f b 0,
      of_nat b := mk_node z g c 0x10000000, of_nat c := mk_node w h 0 b)"
    by (simp only: sample_uheap_def b_def c_def umalloc_st.simps list.case prod.case)
  moreover have "0x10000000 + 16 + y = b" "b + 16 + z = c" "c + 16 + w = 0x10002000" using assms(1) by (simp_all add: b_def c_def)
  ultimately have "kchain (unodes (sample_uheap [(y, f), (z, g), (w, h)])) 0 0x10000000 [(y, f), (z, g), (w, h)] 0x10002000"
    using ne by (simp only: kchain.simps fun_upd_apply if_True if_False list.distinct simp_thms not_Cons_self2 list.simps refl ne [symmetric])
  then show ?thesis using assms(2-4) ubreak_sample(1) by (simp add: uheap_is_def sample_uheap_def del: kchain.simps)
qed

lemma usys_sample_uheap [simp]: "usys (sample_uheap bs) = sample_user"
  by (simp add: sample_uheap_def)

theorem malloc_first_fit_witness:
  "let s = sample_uheap [(32, False), (64, True), (8048, False)] in
   \<exists>s' e'. malloc (uvm_sbrk (\<lambda>s n. (0, s))) (of_nat 40) s
        = Some (case fst (first_fit (ubreak (usys s)) 48 0x10000000 [(32, False), (64, True), (8048, False)]) of
            None \<Rightarrow> 0 | Some c \<Rightarrow> of_nat (c + 16), s')
     \<and> uheap_is ubreak s' 0x10000000 (snd (first_fit (ubreak (usys s)) 48 0x10000000 [(32, False), (64, True), (8048, False)])) e'
     \<and> umem s' = umem s"
  unfolding Let_def
  by (rule malloc_first_fit [where e = "0x10002000" and hi = 66560], rule sample_uheap_is) (simp_all add: ubreak_sample)

text \<open>
  A heap without a free block stays one: when the last block is reserved, \<open>malloc\<close> enlarges that block, which is of no use, and
  returns NULL, for every size and although there is room below the stack.
\<close>

theorem malloc_full_heap_fails:
  assumes "uheap_is ubreak s base bs e" "ubreak_ok hi (usys s)" "0 < n" "n < 2147483600" "sz = 16 * ((n + 15) div 16)"
    "ubreak (usys s) + sz \<le> 4096 * hi" "True \<notin> snd ` set bs"
  shows "\<exists>s' bs' e'. malloc (uvm_sbrk km) (of_nat n) s = Some (0, s') \<and> uheap_is ubreak s' base bs' e' \<and> True \<notin> snd ` set bs'"
proof -
  have "fst (first_fit tp sz a bs) = None \<and> True \<notin> snd ` set (snd (first_fit tp sz a bs))" for tp a
    using assms(7) by (induction bs arbitrary: a) (fastforce split: if_splits)+
  moreover have "has_room (ubreak (usys s)) (min (4096 * hi) 4290772992) sz bs" using assms(6) ubreak_ok_hi [OF assms(2)] by (simp add: has_room_def)
  ultimately show ?thesis using ubrk.malloc_refines [OF assms(1-5), of km] by (metis option.simps(4))
qed

theorem malloc_full_heap_fails_witness:
  "\<exists>s' bs' e'. malloc (uvm_sbrk (\<lambda>s n. (0, s))) (of_nat 16) (sample_uheap [(32, False), (64, False), (8048, False)]) = Some (0, s')
    \<and> uheap_is ubreak s' 0x10000000 bs' e' \<and> True \<notin> snd ` set bs'"
  by (rule malloc_full_heap_fails [where e = "0x10002000" and sz = 16 and hi = 66560], rule sample_uheap_is) (simp_all add: ubreak_sample)

text \<open>
  C13. \<open>free\<close> joins: on a heap of any blocks, a reserved block that is followed, after the join with a free successor, by another block
  is marked free and joined with the free blocks before and behind it; nothing else of the heap changes and the break stays.
\<close>

theorem free_joins:
  assumes "uheap_is ubreak s base (us @ (z, False) # vs) e"
    "merge_next z vs = (m, ws)" "merge_prev us m = (us', m')" "ws \<noteq> []"
  shows "uheap_is ubreak (free brk (of_nat (base + blen us + 16)) s) base (us' @ (m', True) # ws) e
    \<and> usys (free brk (of_nat (base + blen us + 16)) s) = usys s \<and> umem (free brk (of_nat (base + blen us + 16)) s) = umem s"
proof -
  have "e < 4294967296" using assms(1) ubreak_less [of "usys s"] by (simp add: uheap_is_def)
  from ubrk.free_refines(1) [OF assms(1) this assms(2,3) refl refl assms(4)] show ?thesis .
qed

theorem free_joins_witness:
  "let s = sample_uheap ([(32, True)] @ (64, False) # [(8048, False)]) in
   uheap_is ubreak (free (\<lambda>a s. (0, s)) (of_nat (0x10000000 + blen [(32, True)] + 16)) s) 0x10000000 ([] @ (112, True) # [(8048, False)]) 0x10002000
    \<and> usys (free (\<lambda>a s. (0, s)) (of_nat (0x10000000 + blen [(32, True)] + 16)) s) = usys s
    \<and> umem (free (\<lambda>a s. (0, s)) (of_nat (0x10000000 + blen [(32, True)] + 16)) s) = umem s"
  unfolding Let_def
  by (rule free_joins [where z = 64 and m = 64 and vs = "[(8048, False)]"]) (simp_all add: sample_uheap_is ubreak_sample merge_next_def merge_prev_def)

text \<open>
  \<open>free\<close> of the last block behind a free one loses track of the end of the heap: the node it was joined to still extends to the old
  end, but \<open>heap_end\<close>, the address that is passed to \<open>brk\<close>, is set to one page behind the start of the freed block. If that block was
  larger than a page, the heap holds a free block that reaches over its end.
\<close>

theorem free_last_overlaps_end:
  assumes "uheap_is ubreak s base (us @ [(y, True), (z, False)]) e" "4096 < z"
  shows "heap_end (free brk (of_nat (base + blen us + y + 32)) s) = of_nat (base + blen us + y + 32 + 4096)
    \<and> base + blen us + y + 32 + 4096 < e
    \<and> kchain (unodes (free brk (of_nat (base + blen us + y + 32)) s)) 0 base (us @ [(y + 16 + z, True)]) e"
proof -
  have heap: "uheap_is ubreak s base ((us @ [(y, True)]) @ (z, False) # []) e" using assms(1) by simp
  have bl: "base + blen (us @ [(y, True)]) + 16 = base + blen us + y + 32" by simp
  have mn: "merge_next z [] = (z, [])" and mp: "merge_prev (us @ [(y, True)]) z = (us, y + 16 + z)"
    by (simp_all add: merge_next_def merge_prev_def)
  have "base + blen us + y + 32 + z = e"
    using heap kchain_blen [of "unodes s" 0 base "us @ [(y, True), (z, False)]" e] by (simp add: uheap_is_def)
  then show ?thesis
    using ubrk.free_refines(2) [OF heap _ mn mp bl [symmetric, THEN arg_cong [where f = "of_nat :: nat \<Rightarrow> u32"]] refl refl] assms(2)
      ubreak_less [of "usys s"] heap by (simp add: uheap_is_def)
qed

theorem free_last_overlaps_end_witness:
  "let s = sample_uheap ([(32, False)] @ [(64, True), (8048, False)]) in
   heap_end (free (\<lambda>a s. (0, s)) (of_nat (0x10000000 + blen [(32, False)] + 64 + 32)) s) = of_nat (0x10000000 + blen [(32, False)] + 64 + 32 + 4096)
    \<and> 0x10000000 + blen [(32, False)] + 64 + 32 + 4096 < 0x10002000
    \<and> kchain (unodes (free (\<lambda>a s. (0, s)) (of_nat (0x10000000 + blen [(32, False)] + 64 + 32)) s)) 0 0x10000000
        ([(32, False)] @ [(64 + 16 + 8048, True)]) 0x10002000"
  unfolding Let_def by (rule free_last_overlaps_end) (simp_all add: sample_uheap_is ubreak_sample)

end
