(* ===== verification/Env.thy ===== *)
theory Env
  imports Prelude
begin

text \<open>
  Environment variables: \<^verbatim>\<open>rlibc/stdlib/env.c\<close>. \<open>environ\<close> is NULL or a list of strings without their NUL; what \<open>strncmp\<close>, \<open>strcmp\<close> and
  \<open>strchr\<close> do on such strings is shown in theories \<open>CString\<close> and \<open>RString\<close>. Parameters are whether an allocation of a given
  size for the list succeeds, and the block that is allocated for the new string, with the bytes it holds from earlier uses
  (\<open>None\<close> if there is none). Blocks are multiples of 16 bytes long (theory \<open>Umalloc\<close>); a store or a search behind the end of
  its block, and a store through NULL, is \<open>None\<close>.
\<close>

section \<open>Model\<close>

record env_st =
  environ :: "u8 list list option"
  env_errno :: "errno option"

abbreviation (input) eq_sign :: u8 where "eq_sign \<equiv> 0x3D"

text \<open>The length of the block that an allocation of \<open>n\<close> bytes gives.\<close>

definition block_for :: "nat \<Rightarrow> nat" where
  "block_for n = 16 * ((n + 15) div 16)"

fun getenv_loop :: "u8 list \<Rightarrow> u8 list list \<Rightarrow> u8 list option" where
  "getenv_loop name [] = None"
| "getenv_loop name (e # es) =
     (if take (length name) e = name then
        if eq_sign \<in> set e then Some (tl (dropWhile (\<lambda>c. c \<noteq> eq_sign) e)) else None
      else getenv_loop name es)"

definition getenv :: "u8 list option \<Rightarrow> env_st \<Rightarrow> u8 list option" where
  "getenv name s =
     (if name = None \<or> name = Some [] then None
      else case environ s of None \<Rightarrow> None | Some es \<Rightarrow> getenv_loop (the name) es)"

definition is_var :: "u8 list \<Rightarrow> u8 list \<Rightarrow> bool" where
  "is_var name e \<longleftrightarrow> take (length name) e = name \<and> length name < length e \<and> e ! length name = eq_sign"

text \<open>The index of the first element with a property, or the number of elements.\<close>

fun index_where :: "('a \<Rightarrow> bool) \<Rightarrow> 'a list \<Rightarrow> nat" where
  "index_where P [] = 0"
| "index_where P (e # es) = (if P e then 0 else Suc (index_where P es))"

text \<open>The two searches: whether a place was found, and the index.\<close>

definition setenv_place :: "u8 list \<Rightarrow> int \<Rightarrow> u8 list list \<Rightarrow> bool \<times> nat" where
  "setenv_place name overwrite es =
     (let i = index_where (is_var name) es in
      if overwrite \<noteq> 0 \<and> i < length es then (True, i)
      else let j = index_where (\<lambda>e. e = []) es in (j < length es, j))"

text \<open>\<open>strcpy\<close> to the start of a block; and \<open>strcat\<close> of the user library, which stores no NUL behind what it appends.\<close>

definition blk_strcpy :: "u8 list \<Rightarrow> u8 list \<Rightarrow> u8 list option" where
  "blk_strcpy b src = (if length src + 1 \<le> length b then Some (src @ [0] @ drop (length src + 1) b) else None)"

definition blk_strcat :: "u8 list \<Rightarrow> u8 list \<Rightarrow> u8 list option" where
  "blk_strcat b src =
     (let p = length (takeWhile (\<lambda>c. c \<noteq> 0) b) in
      if p < length b \<and> p + length src \<le> length b then Some (take p b @ src @ drop (p + length src) b) else None)"

text \<open>
  The last part: the new string at \<open>index\<close>, which may be behind the list. A string that does not end in its block is \<open>None\<close>, as
  whatever reads it would read on behind the block.
\<close>

definition setenv_store ::
  "u8 list option \<Rightarrow> u8 list \<Rightarrow> u8 list \<Rightarrow> nat \<Rightarrow> u8 list list \<Rightarrow> env_st \<Rightarrow> (int \<times> env_st) option" where
  "setenv_store blk name val i es s =
     (case blk of
        None \<Rightarrow> Some (- 1, s\<lparr>environ := Some (take i es), env_errno := Some ENOMEM\<rparr>)
      | Some b \<Rightarrow> do {
          b \<leftarrow> blk_strcpy b name;
          b \<leftarrow> blk_strcat b [eq_sign];
          b \<leftarrow> blk_strcat b val;
          if 0 \<in> set b then Some (0, s\<lparr>environ := Some (take i es @ takeWhile (\<lambda>c. c \<noteq> 0) b # drop (Suc i) es)\<rparr>) else None
        })"

definition setenv ::
  "(nat \<Rightarrow> bool) \<Rightarrow> u8 list option \<Rightarrow> u8 list option \<Rightarrow> u8 list \<Rightarrow> int \<Rightarrow> env_st \<Rightarrow> (int \<times> env_st) option" where
  "setenv avail blk envname envval overwrite s =
     (case envname of
        None \<Rightarrow> Some (- 1, s\<lparr>env_errno := Some EINVAL\<rparr>)
      | Some name \<Rightarrow>
          if name = [] \<or> eq_sign \<in> set name then Some (- 1, s\<lparr>env_errno := Some EINVAL\<rparr>)
          else case environ s of
            None \<Rightarrow>
              if \<not> avail 8 then Some (- 1, s\<lparr>env_errno := Some ENOMEM\<rparr>)
              else setenv_store blk name envval 0 [] s
          | Some es \<Rightarrow>
              let (found, i) = setenv_place name overwrite es in
              if found then setenv_store blk name envval i es s
              else if \<not> avail (4 * (i + 1)) then Some (- 1, s\<lparr>env_errno := Some ENOMEM\<rparr>)
              else if 4 * (i + 2) > block_for (4 * (i + 1)) then None
              else setenv_store blk name envval i es s)"

definition unsetenv :: "(nat \<Rightarrow> bool) \<Rightarrow> u8 list option \<Rightarrow> env_st \<Rightarrow> (int \<times> env_st) option" where
  "unsetenv avail name s =
     (case name of
        None \<Rightarrow> Some (- 1, s\<lparr>env_errno := Some EINVAL\<rparr>)
      | Some n \<Rightarrow>
          if n = [] \<or> eq_sign \<in> set n then Some (- 1, s\<lparr>env_errno := Some EINVAL\<rparr>)
          else case environ s of
            None \<Rightarrow> None
          | Some es \<Rightarrow>
              let i = index_where (\<lambda>e. e = n) es in
              if i < length es then if avail 1 then Some (0, s\<lparr>environ := Some (es[i := []])\<rparr>) else None
              else Some (0, s))"

section \<open>Searching\<close>

lemma index_where_le: "index_where P es \<le> length es"
  by (induction es) auto

lemma index_where_less: "index_where P es < length es \<longleftrightarrow> (\<exists>e \<in> set es. P e)"
  by (induction es) auto

lemma index_where_nth: "index_where P es < length es \<Longrightarrow> P (es ! index_where P es)"
  by (induction es) (auto split: if_splits)

lemma index_where_before: "e \<in> set (take (index_where P es) es) \<Longrightarrow> \<not> P e"
  by (induction es) (auto split: if_splits)

lemma getenv_loop_append:
  "getenv_loop name (xs @ ys) = (if \<exists>e \<in> set xs. take (length name) e = name then getenv_loop name xs else getenv_loop name ys)"
  by (induction xs) auto

lemma getenv_new: "eq_sign \<notin> set name \<Longrightarrow> getenv_loop name ((name @ [eq_sign] @ val) # es) = Some val"
proof -
  assume "eq_sign \<notin> set name"
  then have "dropWhile (\<lambda>c. c \<noteq> eq_sign) (name @ eq_sign # val) = eq_sign # val" by (induction name) auto
  then show ?thesis by simp
qed

text \<open>Where \<open>setenv\<close> puts its string, no earlier entry of the list starts with the name.\<close>

lemma setenv_place_free:
  assumes "setenv_place name 1 es = (found, i)" "name \<noteq> []" "\<forall>e \<in> set es. take (length name) e = name \<longrightarrow> is_var name e"
  shows "i \<le> length es \<and> (\<forall>e \<in> set (take i es). take (length name) e \<noteq> name) \<and> (\<not> found \<longrightarrow> i = length es)
    \<and> (i < length es \<longrightarrow> is_var name (es ! i) \<or> es ! i = [])"
proof (cases "index_where (is_var name) es < length es")
  case True
  then have "i = index_where (is_var name) es" "found" using assms(1) by (simp_all add: setenv_place_def)
  then show ?thesis using True index_where_nth [OF True] index_where_before [of _ "is_var name" es] assms(3)
    by (auto dest: in_set_takeD)
next
  case False
  then have i: "i = index_where (\<lambda>e. e = []) es" "found = (i < length es)" using assms(1) by (auto simp: setenv_place_def Let_def)
  have "\<forall>e \<in> set es. take (length name) e \<noteq> name" using False assms(3) index_where_less [of "is_var name" es] by auto
  then show ?thesis using i index_where_le [of "\<lambda>e. e = []" es] index_where_nth [of "\<lambda>e. e = []" es] by (auto dest: in_set_takeD)
qed

text \<open>
  What the new string is: behind the name and the equals sign it has what the block held there up to the first NUL, then the
  value, then what the block held behind it up to the next NUL.
\<close>

lemma setenv_store_string:
  assumes "0 \<notin> set name" "0 \<notin> set val" "old = takeWhile (\<lambda>c. c \<noteq> 0) (drop (length name + 1) b)"
    "left = drop (length name + 1 + length old + length val) b" "0 \<in> set left"
  shows "setenv_store (Some b) name val i es s = Some (0, s\<lparr>environ :=
    Some (take i es @ (name @ [eq_sign] @ old @ val @ takeWhile (\<lambda>c. c \<noteq> 0) left) # drop (Suc i) es)\<rparr>)"
proof -
  let ?nz = "\<lambda>c :: u8. c \<noteq> 0" and ?n = "length name + 1"
  have left: "?n + length old + length val < length b" using assms(4,5) by (cases "?n + length old + length val < length b") auto
  have rest: "drop ?n b = old @ drop (length old) (drop ?n b)" "length old < length (drop ?n b)"
    using left takeWhile_dropWhile_id [of ?nz "drop ?n b"] unfolding assms(3) by (simp_all add: dropWhile_eq_drop)
  have name: "\<forall>c \<in> set name. c \<noteq> 0" "\<forall>c \<in> set val. c \<noteq> 0" using assms(1,2) by auto
  have old: "\<forall>c \<in> set old. c \<noteq> 0" unfolding assms(3) by (auto dest: set_takeWhileD)
  have 1: "blk_strcpy b name = Some (name @ 0 # drop ?n b)" using left by (simp add: blk_strcpy_def)
  have "takeWhile ?nz (name @ 0 # drop ?n b) = name" using name(1) by (simp add: takeWhile_append)
  then have 2: "blk_strcat (name @ 0 # drop ?n b) [eq_sign] = Some (name @ eq_sign # drop ?n b)" by (simp add: blk_strcat_def)
  have "takeWhile ?nz (name @ eq_sign # drop ?n b) = name @ eq_sign # old" using name(1) by (simp add: takeWhile_append assms(3))
  moreover have "take (?n + length old) (name @ eq_sign # drop ?n b) = name @ eq_sign # old"
    by (subst rest(1)) simp
  moreover have "drop (?n + length old + length val) (name @ eq_sign # drop ?n b) = left"
    using left by (simp add: assms(4) add.commute add.left_commute)
  ultimately have 3: "blk_strcat (name @ eq_sign # drop ?n b) val = Some ((name @ eq_sign # old) @ val @ left)"
    using left by (simp add: blk_strcat_def Let_def) arith
  have "takeWhile ?nz ((name @ eq_sign # old) @ val @ left) = name @ [eq_sign] @ old @ val @ takeWhile ?nz left"
    using name old by (simp add: takeWhile_append)
  then show ?thesis using assms(5) 1 2 3 by (simp add: setenv_store_def)
qed

section \<open>Properties\<close>

text \<open>
  C35. A variable that is set can be read: in an environment that exists, with memory available, \<open>setenv\<close> with \<open>overwrite\<close> of a name without an equals sign returns 0, and \<open>getenv\<close> of the name then
  gives \<open>old\<close>, the value and \<open>stale\<close>, where \<open>old\<close> and \<open>stale\<close> are what the block allocated for the string held, up to the next NUL, behind
  the name and behind the value. Both are empty, and \<open>getenv\<close> gives exactly the value, if the block was clear; if it was in use
  before they need not be, since \<open>strcat\<close> stores no NUL. \<open>getenv\<close> of any other name that is not a beginning of the old or the new entry gives what it gave
  before. It asks that no other variable has a name that starts with the new name, that a NUL follows in the block, and that
  the list does not fill its 16-byte blocks exactly, for which the code allocates one slot too few.
\<close>

theorem setenv_getenv:
  assumes "environ s = Some es" "name \<noteq> []" "eq_sign \<notin> set name" "0 \<notin> set name" "0 \<notin> set val"
    "\<forall>e \<in> set es. take (length name) e = name \<longrightarrow> is_var name e" "(length es + 1) mod 4 \<noteq> 0" "avail = (\<lambda>n. True)"
    "old = takeWhile (\<lambda>c. c \<noteq> 0) (drop (length name + 1) b)" "left = drop (length name + 1 + length old + length val) b"
    "0 \<in> set left" "stale = takeWhile (\<lambda>c. c \<noteq> 0) left"
    "take (length other) (name @ [eq_sign] @ old @ val @ stale) \<noteq> other" "\<forall>e \<in> set es. is_var name e \<longrightarrow> take (length other) e \<noteq> other"
  shows "\<exists>s'. setenv avail (Some b) (Some name) val 1 s = Some (0, s') \<and> getenv (Some name) s' = Some (old @ val @ stale)
    \<and> getenv (Some other) s' = getenv (Some other) s"
proof -
  obtain found i where p: "setenv_place name 1 es = (found, i)" by force
  note place = setenv_place_free [OF p assms(2,6)]
  have b2: "\<not> 4 * (i + 2) > block_for (4 * (i + 1))" if "\<not> found"
  proof -
    have "(i + 1) mod 4 \<noteq> 0" using place that assms(7) by simp
    then have "4 * (i + 2) \<le> 16 * ((4 * (i + 1) + 15) div 16)" by presburger
    then show ?thesis by (simp add: block_for_def)
  qed
  let ?new = "name @ [eq_sign] @ old @ val @ stale"
  define es' where "es' = take i es @ ?new # drop (Suc i) es"
  have "setenv_store (Some b) name val i es s = Some (0, s\<lparr>environ := Some es'\<rparr>)"
    unfolding es'_def assms(12) by (rule setenv_store_string [OF assms(4,5,9,10,11)])
  then have set: "setenv avail (Some b) (Some name) val 1 s = Some (0, s\<lparr>environ := Some es'\<rparr>)"
    using assms(1-3,8) p b2 by (cases found) (auto simp: setenv_def)
  have get: "getenv (Some name) (s\<lparr>environ := Some es'\<rparr>) = Some (old @ val @ stale)"
    using place getenv_new [OF assms(3), of "old @ val @ stale"] assms(2) by (auto simp: getenv_def es'_def getenv_loop_append)
  have other: "getenv_loop other es' = getenv_loop other es" if "other \<noteq> []"
  proof (cases "i < length es")
    case True
    then have es: "es = take i es @ es ! i # drop (Suc i) es" by (rule id_take_nth_drop)
    have "take (length other) (es ! i) \<noteq> other" using place True that nth_mem [OF True] assms(14) by auto
    then show ?thesis using assms(13) unfolding es'_def by (subst (2) es) (simp add: getenv_loop_append)
  next
    case False
    then have "es' = es @ [?new]" using place unfolding es'_def by simp
    then show ?thesis using assms(13) getenv_loop_append [of other es "[]"] by (auto simp: getenv_loop_append)
  qed
  show ?thesis using set get other assms(1) by (intro exI [of _ "s\<lparr>environ := Some es'\<rparr>"]) (auto simp: getenv_def)
qed

theorem setenv_getenv_witness:
  "let s = \<lparr>environ = Some [[0x48, 0x3D, 0x2F], []], env_errno = None\<rparr> in
   \<exists>s'. setenv (\<lambda>n. True) (Some (replicate 16 0)) (Some [0x50]) [0x78, 0x79] 1 s = Some (0, s')
    \<and> getenv (Some [0x50]) s' = Some ([] @ [0x78, 0x79] @ []) \<and> getenv (Some [0x48]) s' = getenv (Some [0x48]) s"
  unfolding Let_def
  by (rule setenv_getenv [where es = "[[0x48, 0x3D, 0x2F], []]" and left = "replicate 12 0"]) (simp_all add: is_var_def)

text \<open>
  A value that is set again in the block of the old one, as the allocator gives it back, comes out behind the old one: after
  \<open>A=hello\<close>, setting \<open>A\<close> to \<open>x\<close> makes it \<open>hellox\<close>.
\<close>

theorem setenv_again_appends:
  "let blk = [0x41, 0x3D, 0x68, 0x65, 0x6C, 0x6C, 0x6F, 0, 0, 0, 0, 0, 0, 0, 0, 0];
       s = \<lparr>environ = Some [[0x41, 0x3D, 0x68, 0x65, 0x6C, 0x6C, 0x6F]], env_errno = None\<rparr> in
   \<exists>s'. setenv (\<lambda>n. True) (Some blk) (Some [0x41]) [0x78] 1 s = Some (0, s')
    \<and> getenv (Some [0x41]) s' = Some [0x68, 0x65, 0x6C, 0x6C, 0x6F, 0x78]"
  by (simp add: setenv_def setenv_place_def is_var_def setenv_store_def blk_strcpy_def blk_strcat_def getenv_def)

text \<open>
  \<open>unsetenv\<close> removes nothing: it compares the name with whole entries, and as every entry contains an equals sign and no name
  does, it returns 0 and leaves the environment as it is.
\<close>

theorem unsetenv_removes_nothing:
  assumes "environ s = Some es" "\<forall>e \<in> set es. eq_sign \<in> set e \<or> e = []" "name \<noteq> []" "eq_sign \<notin> set name"
  shows "unsetenv avail (Some name) s = Some (0, s)"
proof -
  have "\<not> (\<exists>e \<in> set es. e = name)" using assms(2-4) by auto
  then have "\<not> index_where (\<lambda>e. e = name) es < length es" by (simp add: index_where_less)
  then show ?thesis using assms(1,3,4) by (simp add: unsetenv_def)
qed

theorem unsetenv_removes_nothing_witness:
  "let s = \<lparr>environ = Some [[0x48, 0x3D, 0x2F], [0x50, 0x3D]], env_errno = None\<rparr> in unsetenv (\<lambda>n. True) (Some [0x48]) s = Some (0, s)"
  unfolding Let_def by (rule unsetenv_removes_nothing [where es = "[[0x48, 0x3D, 0x2F], [0x50, 0x3D]]"]) simp_all

end
