(* ===== verification/Gdt.thy ===== *)
theory Gdt
  imports Prelude
begin

text \<open>
  Segment and interrupt descriptors: \<^verbatim>\<open>kernel/src/gdt.c\<close> and \<^verbatim>\<open>kernel/src/drivers/idt.c\<close>. The tables are functions of the index; a selector
  behind the table, for which the code panics, is \<open>None\<close>. The addresses of the interrupt entries of \<^verbatim>\<open>isr.s\<close> are a parameter, and
  the writes to the ports of the interrupt controllers are recorded in their order. The loading of the two tables is assembly.
\<close>

section \<open>Segments\<close>

record gdt_entry_t =
  low_lim :: u16
  low_base :: u16
  mid_base :: u8
  access :: u8
  granularity :: u8
  high_base :: u8

abbreviation (input) GDT_KERNEL_CODE :: u32 where "GDT_KERNEL_CODE \<equiv> 0x08"
abbreviation (input) GDT_KERNEL_DATA :: u32 where "GDT_KERNEL_DATA \<equiv> 0x10"
abbreviation (input) GDT_USER_CODE :: u32 where "GDT_USER_CODE \<equiv> 0x18"
abbreviation (input) GDT_USER_DATA :: u32 where "GDT_USER_DATA \<equiv> 0x20"
abbreviation (input) GDT_KERNEL :: u32 where "GDT_KERNEL \<equiv> 0"
abbreviation (input) GDT_USER :: u32 where "GDT_USER \<equiv> 3"
abbreviation (input) GDT_DATA :: u32 where "GDT_DATA \<equiv> 0"
abbreviation (input) GDT_CODE :: u32 where "GDT_CODE \<equiv> 1"

text \<open>The table: six entries of eight bytes.\<close>

type_synonym gdt_t = "nat \<Rightarrow> gdt_entry_t"

definition do_gdt_set_entry :: "u32 \<Rightarrow> u32 \<Rightarrow> u32 \<Rightarrow> u8 \<Rightarrow> gdt_t \<Rightarrow> gdt_t option" where
  "do_gdt_set_entry sel base lim acc gdt =
     (if sel \<ge> 48 then None
      else
        let flags = push_bit 6 1 :: u8;
            (flags, lim) = (if lim \<ge> push_bit 20 1 then (flags OR push_bit 7 1, lim div 4096) else (flags, lim));
            entry = \<lparr>low_lim = ucast (lim AND 0xFFFF), low_base = ucast (base AND 0xFFFF),
                     mid_base = ucast (drop_bit 16 base AND 0xFF), access = acc,
                     granularity = ucast (drop_bit 16 lim AND 0x0F) OR flags, high_base = ucast (drop_bit 24 base AND 0xFF)\<rparr> in
        Some (gdt(unat (sel div 8) := entry)))"

definition gdt_set_entry :: "u32 \<Rightarrow> u32 \<Rightarrow> u32 \<Rightarrow> u32 \<Rightarrow> u32 \<Rightarrow> gdt_t \<Rightarrow> gdt_t option" where
  "gdt_set_entry sel base lim priv typ gdt =
     (let acc = push_bit 7 1 :: u32;
          acc = acc OR push_bit 5 (priv AND 3);
          acc = acc OR push_bit 4 1;
          acc = acc OR push_bit 3 (typ AND 1);
          acc = acc OR push_bit 1 1 in
      do_gdt_set_entry sel base lim (ucast acc) gdt)"

definition gdt_set_tss :: "u32 \<Rightarrow> u32 \<Rightarrow> u32 \<Rightarrow> gdt_t \<Rightarrow> gdt_t option" where
  "gdt_set_tss sel base lim gdt = do_gdt_set_entry sel base lim 0x89 gdt"

definition gdt_init :: "gdt_t \<Rightarrow> gdt_t option" where
  "gdt_init gdt = do {
     gdt \<leftarrow> gdt_set_entry GDT_KERNEL_CODE 0 0xFFFFFFFF GDT_KERNEL GDT_CODE gdt;
     gdt \<leftarrow> gdt_set_entry GDT_KERNEL_DATA 0 0xFFFFFFFF GDT_KERNEL GDT_DATA gdt;
     gdt \<leftarrow> gdt_set_entry GDT_USER_CODE 0 0xFFFFFFFF GDT_USER GDT_CODE gdt;
     gdt_set_entry GDT_USER_DATA 0 0xFFFFFFFF GDT_USER GDT_DATA gdt
   }"

section \<open>Interrupts\<close>

record idt_entry_t =
  i_low_base :: u16
  i_selector :: u16
  i_zero :: u8
  i_flags :: u8
  i_high_base :: u16

type_synonym idt_t = "u8 \<Rightarrow> idt_entry_t"

definition register_isr :: "u8 \<Rightarrow> u32 \<Rightarrow> idt_t \<Rightarrow> idt_t" where
  "register_isr int_no handler idt =
     idt(int_no := \<lparr>i_low_base = ucast (handler AND 0xFFFF), i_selector = 0x08, i_zero = 0, i_flags = 0xEE,
                    i_high_base = ucast (drop_bit 16 handler AND 0xFFFF)\<rparr>)"

definition irq_remap :: "(u16 \<times> u8) list" where
  "irq_remap = [(0x20, 0x11), (0xA0, 0x11), (0x21, 0x20), (0xA1, 0x28), (0x21, 0x04), (0xA1, 0x02), (0x21, 0x01), (0xA1, 0x01),
     (0x21, 0x0), (0xA1, 0x0)]"

definition isr_numbers :: "u8 list" where
  "isr_numbers = [0, 1, 2, 3, 4, 5, 6, 7, 8, 9, 10, 11, 12, 13, 14, 16, 17, 18, 19, 20, 30, 32, 33, 39]"

text \<open>The port writes and the table, for the addresses \<open>isr\<close> of the entries.\<close>

definition idt_init :: "(u8 \<Rightarrow> u32) \<Rightarrow> idt_t \<Rightarrow> (u16 \<times> u8) list \<times> idt_t" where
  "idt_init isr idt = (irq_remap, fold (\<lambda>n. register_isr n (isr n)) isr_numbers idt)"

section \<open>What the processor reads\<close>

text \<open>The base, the last valid offset and the privilege of a segment, and the address of an interrupt entry, as the x86 decodes them.\<close>

definition seg_base :: "gdt_entry_t \<Rightarrow> u32" where
  "seg_base e = ucast (low_base e) OR push_bit 16 (ucast (mid_base e)) OR push_bit 24 (ucast (high_base e))"

definition seg_limit :: "gdt_entry_t \<Rightarrow> u32" where
  "seg_limit e =
     (let lim = ucast (low_lim e) OR push_bit 16 (ucast (granularity e AND 0x0F)) in
      if bit (granularity e) 7 then push_bit 12 lim OR 0xFFF else lim)"

definition seg_dpl :: "gdt_entry_t \<Rightarrow> u8" where
  "seg_dpl e = drop_bit 5 (access e) AND 3"

definition gate_address :: "idt_entry_t \<Rightarrow> u32" where
  "gate_address e = ucast (i_low_base e) OR push_bit 16 (ucast (i_high_base e))"

lemma base_bytes: "(ucast (ucast (b AND 0xFFFF :: u32) :: u16) :: u32) OR push_bit 16 (ucast (ucast (drop_bit 16 b AND 0xFF) :: u8))
    OR push_bit 24 (ucast (ucast (drop_bit 24 b AND 0xFF) :: u8)) = b"
proof (rule bit_word_eqI)
  fix n assume "n < LENGTH(32)"
  then have n: "n < 32" by simp
  have m: "(0xFFFF :: u32) = mask 16" "(0xFF :: u32) = mask 8" by (simp_all add: mask_eq_exp_minus_1)
  show "bit ((ucast (ucast (b AND 0xFFFF) :: u16) :: u32) OR push_bit 16 (ucast (ucast (drop_bit 16 b AND 0xFF) :: u8))
      OR push_bit 24 (ucast (ucast (drop_bit 24 b AND 0xFF) :: u8))) n = bit b n"
    unfolding m using n by (cases "n < 16"; cases "n < 24") (auto simp: bit_simps)
qed

lemma limit_bytes:
  assumes "l < 2 ^ 20" "fl AND 0x0F = 0"
  shows "(ucast (ucast (l AND 0xFFFF :: u32) :: u16) :: u32)
      OR push_bit 16 (ucast ((ucast (drop_bit 16 l AND 0x0F) OR fl :: u8) AND 0x0F)) = l"
proof -
  have "take_bit 20 l = l"
    using assms(1) by (simp add: word_unat_eq_iff take_bit_eq_mod word_less_nat_alt unat_mod_distrib)
  then have "n < 20" if "bit l n" for n using that by (metis bit_take_bit_iff)
  then have high: "n - 16 < 4" "n - 16 < 8" if "bit l n" for n using that by force+
  have m: "(0xFFFF :: u32) = mask 16" "(0x0F :: u32) = mask 4" "(0x0F :: u8) = mask 4" by (simp_all add: mask_eq_exp_minus_1)
  have "(ucast (drop_bit 16 l AND 0x0F) OR fl :: u8) AND 0x0F = ucast (drop_bit 16 l AND 0x0F) AND 0x0F"
    by (simp add: bit.conj_disj_distrib2 assms(2))
  moreover have "(ucast (ucast (l AND 0xFFFF :: u32) :: u16) :: u32) OR push_bit 16 (ucast (ucast (drop_bit 16 l AND 0x0F) AND 0x0F :: u8)) = l"
    unfolding m by (rule bit_word_eqI) (auto simp: bit_simps high)
  ultimately show ?thesis by simp
qed

lemma granularity_bit: "bit (ucast (drop_bit 16 l AND 0x0F :: u32) OR fl :: u8) 7 = bit fl 7"
proof -
  have m: "(0x0F :: u32) = mask 4" by (simp add: mask_eq_exp_minus_1)
  show ?thesis unfolding m by (simp add: bit_simps)
qed

lemma page_end: "push_bit 12 (l div 4096) OR 0xFFF = (l OR 0xFFF :: u32)"
proof -
  have m: "(0xFFF :: u32) = mask 12" by (simp add: mask_eq_exp_minus_1)
  have d: "l div 4096 = drop_bit 12 l" by (simp add: drop_bit_eq_div)
  show ?thesis unfolding m d by (rule bit_word_eqI) (auto simp: bit_simps)
qed

lemma do_gdt_set_entry_decodes:
  assumes "sel < 48"
  shows "\<exists>g. do_gdt_set_entry sel base lim acc gdt = Some (gdt(unat (sel div 8) := g)) \<and> seg_base g = base
    \<and> seg_limit g = (if lim < 2 ^ 20 then lim else lim OR 0xFFF) \<and> access g = acc"
proof -
  define small where "small \<longleftrightarrow> lim < 2 ^ 20"
  define l where "l = (if small then lim else lim div 4096)"
  define fl where "fl = (if small then 64 else 192 :: u8)"
  define g where "g = \<lparr>low_lim = ucast (l AND 0xFFFF), low_base = ucast (base AND 0xFFFF),
      mid_base = ucast (drop_bit 16 base AND 0xFF), access = acc,
      granularity = ucast (drop_bit 16 l AND 0x0F) OR fl, high_base = ucast (drop_bit 24 base AND 0xFF)\<rparr>"
  have "do_gdt_set_entry sel base lim acc gdt = Some (gdt(unat (sel div 8) := g))"
    using assms by (simp add: do_gdt_set_entry_def g_def l_def fl_def small_def not_le [symmetric])
  moreover have "seg_base g = base" using base_bytes by (simp add: seg_base_def g_def)
  moreover have "seg_limit g = (if lim < 2 ^ 20 then lim else lim OR 0xFFF)"
  proof -
    have "l < 2 ^ 20"
    proof (cases small)
      case False
      have "unat lim div 4096 < 2 ^ 20" using unat_u32_lt [of lim] by (simp add: less_mult_imp_div_less)
      then show ?thesis using False by (simp add: l_def word_less_nat_alt unat_div_distrib)
    qed (simp add: l_def small_def)
    moreover have "fl AND 0x0F = 0" "bit fl 7 = (\<not> small)" by (simp_all add: fl_def bit_iff_odd)
    ultimately show ?thesis using limit_bytes [of l fl] granularity_bit [of l fl] page_end [of lim]
      by (auto simp: seg_limit_def g_def Let_def l_def small_def)
  qed
  ultimately show ?thesis by (auto simp: g_def)
qed

lemma access_dpl: "drop_bit 5 (ucast (push_bit 7 1 OR push_bit 5 (priv AND 3) OR push_bit 4 1 OR push_bit 3 (typ AND 1) OR push_bit 1 1 :: u32) :: u8) AND 3
    = ucast (priv AND 3)"
proof -
  have m: "(3 :: u32) = mask 2" "(3 :: u8) = mask 2" "typ AND 1 = typ AND mask 1" by (simp_all add: mask_eq_exp_minus_1)
  have "\<not> bit (128 :: u32) 5" "\<not> bit (128 :: u32) 6" "\<not> bit (16 :: u32) 5" "\<not> bit (16 :: u32) 6" "\<not> bit (8 :: u32) 5" "\<not> bit (8 :: u32) 6"
    by (simp_all add: bit_iff_odd)
  then show ?thesis unfolding m by (intro bit_word_eqI) (auto simp: bit_simps less_2_cases_iff)
qed

section \<open>Properties\<close>

text \<open>
  C32. A segment is what \<open>gdt_set_entry\<close> was asked for: for a selector within the table, the processor decodes from the entry it
  stores the base address, the privilege and the limit, exactly if that is below 1 MiB and otherwise up to the end of
  its 4 KiB page; no other entry changes.
\<close>

theorem gdt_set_entry_decodes:
  assumes "sel < 48"
  shows "\<exists>g. gdt_set_entry sel base lim priv typ gdt = Some (gdt(unat (sel div 8) := g)) \<and> seg_base g = base
    \<and> seg_limit g = (if lim < 2 ^ 20 then lim else lim OR 0xFFF) \<and> seg_dpl g = ucast (priv AND 3)"
proof -
  let ?acc = "ucast (push_bit 7 1 OR push_bit 5 (priv AND 3) OR push_bit 4 1 OR push_bit 3 (typ AND 1) OR push_bit 1 1 :: u32) :: u8"
  have "gdt_set_entry sel base lim priv typ gdt = do_gdt_set_entry sel base lim ?acc gdt"
    by (simp add: gdt_set_entry_def Let_def or.assoc)
  moreover obtain g where g: "do_gdt_set_entry sel base lim ?acc gdt = Some (gdt(unat (sel div 8) := g))" "seg_base g = base"
    "seg_limit g = (if lim < 2 ^ 20 then lim else lim OR 0xFFF)" "access g = ?acc"
    using do_gdt_set_entry_decodes [OF assms, of base lim ?acc gdt] by blast
  moreover have "seg_dpl g = ucast (priv AND 3)" unfolding seg_dpl_def g(4) by (rule access_dpl)
  ultimately show ?thesis by auto
qed

theorem gdt_set_entry_decodes_witness:
  "\<exists>g. gdt_set_entry 0x18 0x12345678 0x00654321 3 1 (\<lambda>_. undefined) = Some ((\<lambda>_. undefined)(unat (0x18 div 8 :: u32) := g)) \<and> seg_base g = 0x12345678
    \<and> seg_limit g = (if (0x00654321 :: u32) < 2 ^ 20 then 0x00654321 else 0x00654321 OR 0xFFF) \<and> seg_dpl g = ucast (3 AND 3 :: u32)"
  by (rule gdt_set_entry_decodes) simp

text \<open>
  Interrupts reach their handlers: after \<open>idt_init\<close> the processor finds for each of the registered interrupt numbers the address
  of its entry, in a gate of the kernel's code segment, and no other gate has changed.
\<close>

theorem idt_init_gates:
  "gate_address (snd (idt_init isr idt) n) = (if n \<in> set isr_numbers then isr n else gate_address (idt n))
    \<and> (n \<notin> set isr_numbers \<or> i_selector (snd (idt_init isr idt) n) = 0x08)"
proof -
  have gate: "gate_address (register_isr k h idt k) = h" for k h idt
  proof -
    have m: "(0xFFFF :: u32) = mask 16" by (simp add: mask_eq_exp_minus_1)
    show ?thesis unfolding gate_address_def register_isr_def m by (simp, rule bit_word_eqI) (auto simp: bit_simps)
  qed
  have other: "j \<noteq> k \<Longrightarrow> register_isr k h idt j = idt j" for j k h idt by (simp add: register_isr_def)
  have "fold (\<lambda>n. register_isr n (isr n)) ns idt n = (if n \<in> set ns then register_isr n (isr n) idt n else idt n)" for ns
    by (induction ns arbitrary: idt) (auto simp: register_isr_def)
  then show ?thesis using gate by (auto simp: idt_init_def register_isr_def)
qed

end
