(* ===== verification/Shell.thy ===== *)
theory Shell
  imports Prelude
begin

text \<open>
  The shell's reading of commands: \<open>rash_read_line\<close>, \<open>rash_split_line\<close>, \<open>rash_execute\<close> and the parsing part of \<open>rash_launch\<close> of
  \<^verbatim>\<open>rlibc/rash.c\<close>. Strings are lists of bytes without their NUL. Allocations succeed; the sizes of the two arrays of the
  splitter are kept, and a store behind the end of one is \<open>None\<close>, as is the use of a NULL string. What \<open>do_commands\<close>
  does with the parsed command line, a sequence of \<open>fork\<close>, \<open>pipe\<close>, \<open>dup2\<close> and \<open>execv\<close>, is not modelled.
\<close>

section \<open>Reading a line\<close>

text \<open>
  The values of \<open>getchar\<close> are a list; its end is a read that does not return. The result is the line, what was echoed, and
  the rest of the input.
\<close>

fun rash_read_line :: "int list \<Rightarrow> u8 list \<Rightarrow> u8 list list \<Rightarrow> (u8 list \<times> u8 list list \<times> int list) option" where
  "rash_read_line [] buffer out = None"
| "rash_read_line (c # cs) buffer out =
     (if c = 127 \<or> c = 8 then
        if buffer \<noteq> [] then rash_read_line cs (butlast buffer) (out @ [[8, 0x20, 8]]) else rash_read_line cs buffer out
      else if c = - 1 \<or> c = 0x0A then Some (buffer, out @ [[0x0A]], cs)
      else rash_read_line cs (buffer @ [word_of_int c]) (out @ [[word_of_int c]]))"

section \<open>Splitting a line into tokens\<close>

abbreviation (input) IN_MARK :: u8 where "IN_MARK \<equiv> 7"
abbreviation (input) OUT_MARK :: u8 where "OUT_MARK \<equiv> 8"
abbreviation (input) PIPE_MARK :: u8 where "PIPE_MARK \<equiv> 12"

datatype lex_state = DEFAULT | QUOTED | ESCAPED

record split_st =
  sp_state :: lex_state
  sp_token :: "u8 list"
  sp_tokbuf :: nat
  sp_tokens :: "u8 list list"
  sp_argbuf :: nat

definition add_char :: "u8 \<Rightarrow> split_st \<Rightarrow> split_st option" where
  "add_char c s = (if length (sp_token s) < sp_tokbuf s then Some (s\<lparr>sp_token := sp_token s @ [c]\<rparr>) else None)"

definition add_token :: "u8 list \<Rightarrow> split_st \<Rightarrow> split_st option" where
  "add_token t s = (if length (sp_tokens s) < sp_argbuf s then Some (s\<lparr>sp_tokens := sp_tokens s @ [t]\<rparr>) else None)"

definition split_default :: "u8 \<Rightarrow> split_st \<Rightarrow> split_st option" where
  "split_default c s =
     (if c \<in> {0x20, 0x0A, 0x09, 0x7C, 0x3C, 0x3E, 0} then do {
        s \<leftarrow> (if length (sp_token s) > 0 then
                if length (sp_token s) < sp_tokbuf s then map_option (\<lambda>s. s\<lparr>sp_token := []\<rparr>) (add_token (sp_token s) s) else None
              else Some s);
        if c = 0x7C \<or> c = 0x3C \<or> c = 0x3E
        then add_token [if c = 0x7C then PIPE_MARK else if c = 0x3C then IN_MARK else OUT_MARK] s
        else Some s
      }
      else if c = 0x27 then Some (s\<lparr>sp_state := QUOTED\<rparr>)
      else if c = 0x5C then Some (s\<lparr>sp_state := ESCAPED\<rparr>)
      else add_char c s)"

definition split_grow :: "split_st \<Rightarrow> split_st" where
  "split_grow s =
     (let s = (if length (sp_tokens s) \<ge> sp_argbuf s then s\<lparr>sp_argbuf := sp_argbuf s * 2\<rparr> else s) in
      if length (sp_token s) \<ge> sp_tokbuf s then s\<lparr>sp_tokbuf := sp_tokbuf s * 2\<rparr> else s)"

definition split_step :: "u8 \<Rightarrow> split_st \<Rightarrow> split_st option" where
  "split_step c s = map_option split_grow
     (case sp_state s of
        DEFAULT \<Rightarrow> split_default c s
      | QUOTED \<Rightarrow> if c = 0x27 then Some (s\<lparr>sp_state := DEFAULT\<rparr>) else add_char c s
      | ESCAPED \<Rightarrow> map_option (\<lambda>s. s\<lparr>sp_state := DEFAULT\<rparr>) (add_char c s))"

fun split_loop :: "u8 list \<Rightarrow> split_st \<Rightarrow> split_st option" where
  "split_loop [] s = Some s"
| "split_loop (c # cs) s = do { s \<leftarrow> split_step c s; split_loop cs s }"

text \<open>The loop sees the NUL of the line too.\<close>

definition rash_split_line :: "u8 list \<Rightarrow> u8 list list option" where
  "rash_split_line line =
     map_option sp_tokens (split_loop (line @ [0]) \<lparr>sp_state = DEFAULT, sp_token = [], sp_tokbuf = 16, sp_tokens = [], sp_argbuf = 16\<rparr>)"

section \<open>Commands\<close>

text \<open>\<open>args\<close> after the marks have been replaced by NULL, the indices where the commands start, and the names of the redirections.\<close>

record launch_st =
  l_args :: "u8 list option list"
  commandStarts :: "nat list"
  pipes :: nat
  input_name :: "u8 list option"
  output_name :: "u8 list option"

fun launch_scan :: "nat \<Rightarrow> u8 list list \<Rightarrow> launch_st \<Rightarrow> launch_st option" where
  "launch_scan i [] s = Some s"
| "launch_scan i (a # as) s =
     (if PIPE_MARK \<in> set a then
        launch_scan (i + 1) as
          (s\<lparr>l_args := l_args s @ [None], commandStarts := commandStarts s @ [i + 1], pipes := pipes s + 1\<rparr>)
      else if IN_MARK \<in> set a then
        (case as of [] \<Rightarrow> None
         | n # as' \<Rightarrow> launch_scan (i + 2) as' (s\<lparr>l_args := l_args s @ [None, Some n], input_name := Some n\<rparr>))
      else if OUT_MARK \<in> set a then
        (case as of [] \<Rightarrow> None
         | n # as' \<Rightarrow> launch_scan (i + 2) as' (s\<lparr>l_args := l_args s @ [None, Some n], output_name := Some n\<rparr>))
      else launch_scan (i + 1) as (s\<lparr>l_args := l_args s @ [Some a]\<rparr>))"

definition rash_launch :: "u8 list list \<Rightarrow> launch_st option" where
  "rash_launch args = launch_scan 0 args \<lparr>l_args = [], commandStarts = [0], pipes = 0, input_name = None, output_name = None\<rparr>"

text \<open>The argument vector \<open>execv\<close> gets for command \<open>k\<close>: from its start up to the next NULL.\<close>

definition command_args :: "launch_st \<Rightarrow> nat \<Rightarrow> u8 list list" where
  "command_args s k = map the (takeWhile (\<lambda>a. a \<noteq> None) (drop (commandStarts s ! k) (l_args s)))"

datatype shell_act = Empty | Help | Exit | Launch launch_st

definition rash_execute :: "u8 list list \<Rightarrow> shell_act option" where
  "rash_execute args =
     (case args of
        [] \<Rightarrow> Some Empty
      | a # _ \<Rightarrow>
          if a = [0x68, 0x65, 0x6C, 0x70] then Some Help
          else if a = [0x65, 0x78, 0x69, 0x74] then Some Exit
          else map_option Launch (rash_launch args))"

section \<open>The reference: how a command line is written\<close>

text \<open>A word is written as plain characters, characters behind a backslash, and quoted parts.\<close>

datatype wpiece = Plain u8 | Esc u8 | Quot "u8 list"

fun written :: "wpiece \<Rightarrow> u8 list" where
  "written (Plain c) = [c]"
| "written (Esc c) = [0x5C, c]"
| "written (Quot cs) = 0x27 # cs @ [0x27]"

fun meant :: "wpiece \<Rightarrow> u8 list" where
  "meant (Plain c) = [c]"
| "meant (Esc c) = [c]"
| "meant (Quot cs) = cs"

fun well_written :: "wpiece \<Rightarrow> bool" where
  "well_written (Plain c) \<longleftrightarrow> c \<notin> {0x20, 0x0A, 0x09, 0x7C, 0x3C, 0x3E, 0, 0x27, 0x5C}"
| "well_written (Esc c) \<longleftrightarrow> c \<noteq> 0"
| "well_written (Quot cs) \<longleftrightarrow> 0 \<notin> set cs \<and> 0x27 \<notin> set cs"

definition word_text :: "wpiece list \<Rightarrow> u8 list" where
  "word_text w = concat (map meant w)"

definition word_ok :: "wpiece list \<Rightarrow> bool" where
  "word_ok w \<longleftrightarrow> list_all well_written w \<and> word_text w \<noteq> [] \<and> set (word_text w) \<inter> {IN_MARK, OUT_MARK, PIPE_MARK} = {}"

definition command_line :: "wpiece list list \<Rightarrow> u8 list" where
  "command_line cmd = concat (map (\<lambda>w. concat (map written w) @ [0x20]) cmd)"

fun pipeline_line :: "wpiece list list list \<Rightarrow> u8 list" where
  "pipeline_line [] = []"
| "pipeline_line (cmd # cmds) = command_line cmd @ (if cmds = [] then [] else 0x7C # pipeline_line cmds)"

fun pipeline_tokens :: "u8 list list list \<Rightarrow> u8 list list" where
  "pipeline_tokens [] = []"
| "pipeline_tokens (cmd # cmds) = cmd @ (if cmds = [] then [] else [PIPE_MARK] # pipeline_tokens cmds)"

section \<open>The splitter\<close>

definition split_inv :: "split_st \<Rightarrow> bool" where
  "split_inv s \<longleftrightarrow> length (sp_token s) < sp_tokbuf s \<and> length (sp_tokens s) < sp_argbuf s"

text \<open>The splitter holds the tokens \<open>ts\<close> and, in state \<open>q\<close>, the beginning \<open>t\<close> of another one, within its arrays.\<close>

definition holds :: "lex_state \<Rightarrow> u8 list \<Rightarrow> u8 list list \<Rightarrow> split_st \<Rightarrow> bool" where
  "holds q t ts s \<longleftrightarrow> sp_state s = q \<and> sp_token s = t \<and> sp_tokens s = ts \<and> split_inv s"

lemma split_loop_append: "split_loop (xs @ ys) s = do { s \<leftarrow> split_loop xs s; split_loop ys s }"
  by (induction xs arbitrary: s) (auto intro!: Option.bind_cong)

lemma step_char:
  assumes "holds q t ts s" "q \<noteq> DEFAULT \<or> c \<notin> {0x20, 0x0A, 0x09, 0x7C, 0x3C, 0x3E, 0, 0x5C}" "q \<noteq> ESCAPED \<longrightarrow> c \<noteq> 0x27"
  shows "\<exists>s'. split_step c s = Some s' \<and> holds (if q = ESCAPED then DEFAULT else q) (t @ [c]) ts s'"
  using assms by (cases q) (auto simp: holds_def split_inv_def split_step_def split_default_def split_grow_def add_char_def Let_def)

lemma step_mode:
  "holds DEFAULT t ts s \<Longrightarrow> \<exists>s'. split_step 0x27 s = Some s' \<and> holds QUOTED t ts s'"
  "holds DEFAULT t ts s \<Longrightarrow> \<exists>s'. split_step 0x5C s = Some s' \<and> holds ESCAPED t ts s'"
  "holds QUOTED t ts s \<Longrightarrow> \<exists>s'. split_step 0x27 s = Some s' \<and> holds DEFAULT t ts s'"
  by (auto simp: holds_def split_inv_def split_step_def split_default_def split_grow_def Let_def)

lemma step_space:
  "holds DEFAULT t ts s \<Longrightarrow> \<exists>s'. split_step 0x20 s = Some s' \<and> holds DEFAULT [] (if t = [] then ts else ts @ [t]) s'"
  "holds DEFAULT [] ts s \<Longrightarrow> \<exists>s'. split_step 0x7C s = Some s' \<and> holds DEFAULT [] (ts @ [[PIPE_MARK]]) s'"
  "holds DEFAULT [] ts s \<Longrightarrow> \<exists>s'. split_step 0 s = Some s' \<and> holds DEFAULT [] ts s'"
  by (auto simp: holds_def split_inv_def split_step_def split_default_def split_grow_def add_token_def Let_def)

lemma loop_quoted:
  "holds QUOTED t ts s \<Longrightarrow> 0x27 \<notin> set cs \<Longrightarrow> \<exists>s'. split_loop cs s = Some s' \<and> holds QUOTED (t @ cs) ts s'"
proof (induction cs arbitrary: t s)
  case (Cons c cs)
  then obtain s1 where "split_step c s = Some s1" "holds QUOTED (t @ [c]) ts s1" using step_char [of QUOTED t ts s c] by auto
  then show ?case using Cons.IH [of "t @ [c]" s1] Cons.prems(2) by auto
qed auto

lemma loop_piece:
  assumes "holds DEFAULT t ts s" "well_written p"
  shows "\<exists>s'. split_loop (written p) s = Some s' \<and> holds DEFAULT (t @ meant p) ts s'"
proof (cases p)
  case (Plain c)
  then show ?thesis using step_char [OF assms(1), of c] assms(2) by auto
next
  case (Esc c)
  obtain s1 where "split_step 0x5C s = Some s1" "holds ESCAPED t ts s1" using step_mode(2) [OF assms(1)] by blast
  then show ?thesis using Esc step_char [of ESCAPED t ts s1 c] by auto
next
  case (Quot cs)
  obtain s1 where s1: "split_step 0x27 s = Some s1" "holds QUOTED t ts s1" using step_mode(1) [OF assms(1)] by blast
  then obtain s2 where s2: "split_loop cs s1 = Some s2" "holds QUOTED (t @ cs) ts s2" using loop_quoted [of t ts s1 cs] assms(2) Quot by auto
  then show ?thesis using Quot s1 step_mode(3) [OF s2(2)] by (auto simp: split_loop_append)
qed

lemma loop_word:
  "holds DEFAULT t ts s \<Longrightarrow> list_all well_written w \<Longrightarrow>
   \<exists>s'. split_loop (concat (map written w)) s = Some s' \<and> holds DEFAULT (t @ word_text w) ts s'"
proof (induction w arbitrary: t s)
  case (Cons p w)
  then obtain s1 where "split_loop (written p) s = Some s1" "holds DEFAULT (t @ meant p) ts s1" using loop_piece [of t ts s p] by auto
  then show ?case using Cons.IH [of "t @ meant p" s1] Cons.prems(2) by (auto simp: split_loop_append word_text_def)
qed (auto simp: word_text_def)

lemma loop_command:
  "holds DEFAULT [] ts s \<Longrightarrow> list_all word_ok cmd \<Longrightarrow>
   \<exists>s'. split_loop (command_line cmd) s = Some s' \<and> holds DEFAULT [] (ts @ map word_text cmd) s'"
proof (induction cmd arbitrary: ts s)
  case (Cons w cmd)
  then obtain s1 where s1: "split_loop (concat (map written w)) s = Some s1" "holds DEFAULT (word_text w) ts s1"
    using loop_word [of "[]" ts s w] by (auto simp: word_ok_def)
  obtain s2 where "split_step 0x20 s1 = Some s2" "holds DEFAULT [] (ts @ [word_text w]) s2"
    using step_space(1) [OF s1(2)] Cons.prems(2) by (auto simp: word_ok_def)
  then show ?case using s1(1) Cons.IH [of "ts @ [word_text w]" s2] Cons.prems(2) by (auto simp: split_loop_append command_line_def)
qed (auto simp: command_line_def)

lemma loop_pipeline:
  "holds DEFAULT [] ts s \<Longrightarrow> list_all (list_all word_ok) cmds \<Longrightarrow>
   \<exists>s'. split_loop (pipeline_line cmds) s = Some s' \<and> holds DEFAULT [] (ts @ pipeline_tokens (map (map word_text) cmds)) s'"
proof (induction cmds arbitrary: ts s)
  case (Cons cmd cmds)
  then obtain s1 where s1: "split_loop (command_line cmd) s = Some s1" "holds DEFAULT [] (ts @ map word_text cmd) s1"
    using loop_command [of ts s cmd] by auto
  show ?case
  proof (cases "cmds = []")
    case False
    obtain s2 where "split_step 0x7C s1 = Some s2" "holds DEFAULT [] ((ts @ map word_text cmd) @ [[PIPE_MARK]]) s2"
      using step_space(2) [OF s1(2)] by blast
    then show ?thesis using s1(1) False Cons.IH [of "(ts @ map word_text cmd) @ [[PIPE_MARK]]" s2] Cons.prems(2)
      by (auto simp: split_loop_append)
  qed (use s1 in auto)
qed auto

lemma split_pipeline:
  assumes "list_all (list_all word_ok) cmds"
  shows "rash_split_line (pipeline_line cmds) = Some (pipeline_tokens (map (map word_text) cmds))"
proof -
  let ?s = "\<lparr>sp_state = DEFAULT, sp_token = [], sp_tokbuf = 16, sp_tokens = [], sp_argbuf = 16\<rparr>"
  have "holds DEFAULT [] [] ?s" by (simp add: holds_def split_inv_def)
  from loop_pipeline [OF this assms] obtain s1 where s1: "split_loop (pipeline_line cmds) ?s = Some s1"
    "holds DEFAULT [] (pipeline_tokens (map (map word_text) cmds)) s1" by auto
  then show ?thesis using step_space(3) [OF s1(2)] by (auto simp: rash_split_line_def split_loop_append holds_def)
qed

section \<open>The commands of a pipeline\<close>

definition unmarked :: "u8 list \<Rightarrow> bool" where
  "unmarked a \<longleftrightarrow> set a \<inter> {IN_MARK, OUT_MARK, PIPE_MARK} = {}"

fun with_nulls :: "u8 list list list \<Rightarrow> u8 list option list" where
  "with_nulls [] = []"
| "with_nulls (cmd # cmds) = map Some cmd @ (if cmds = [] then [] else None # with_nulls cmds)"

fun next_starts :: "nat \<Rightarrow> u8 list list list \<Rightarrow> nat list" where
  "next_starts a [] = []"
| "next_starts a (cmd # cmds) = (if cmds = [] then [] else (a + length cmd + 1) # next_starts (a + length cmd + 1) cmds)"

lemma launch_words:
  "list_all unmarked cmd \<Longrightarrow> launch_scan i (cmd @ as) s = launch_scan (i + length cmd) as (s\<lparr>l_args := l_args s @ map Some cmd\<rparr>)"
  by (induction cmd arbitrary: i s) (auto simp: unmarked_def)

lemma launch_pipeline:
  "list_all (list_all unmarked) cmds \<Longrightarrow> i = length (l_args s) \<Longrightarrow>
   launch_scan i (pipeline_tokens cmds) s = Some (s\<lparr>l_args := l_args s @ with_nulls cmds,
     commandStarts := commandStarts s @ next_starts i cmds, pipes := pipes s + (length cmds - 1)\<rparr>)"
proof (induction cmds arbitrary: i s)
  case (Cons cmd cmds)
  show ?case
  proof (cases "cmds = []")
    case True
    then show ?thesis using Cons.prems launch_words [of cmd i "[]" s] by simp
  next
    case False
    let ?s = "s\<lparr>l_args := l_args s @ map Some cmd @ [None], commandStarts := commandStarts s @ [i + length cmd + 1], pipes := pipes s + 1\<rparr>"
    have "launch_scan i (pipeline_tokens (cmd # cmds)) s = launch_scan (i + length cmd + 1) (pipeline_tokens cmds) ?s"
      using False Cons.prems launch_words [of cmd i "[PIPE_MARK] # pipeline_tokens cmds" s] by simp
    also have "\<dots> = Some (?s\<lparr>l_args := l_args ?s @ with_nulls cmds, commandStarts := commandStarts ?s @ next_starts (i + length cmd + 1) cmds,
        pipes := pipes ?s + (length cmds - 1)\<rparr>)"
      using Cons.prems by (intro Cons.IH) simp_all
    finally show ?thesis using False by (cases cmds) simp_all
  qed
qed simp

lemma command_at:
  "k < length cmds \<Longrightarrow> length pre = a \<Longrightarrow>
   takeWhile (\<lambda>x. x \<noteq> None) (drop ((a # next_starts a cmds) ! k) (pre @ with_nulls cmds)) = map Some (cmds ! k)"
proof (induction cmds arbitrary: k a pre)
  case (Cons cmd cmds)
  have tw: "takeWhile (\<lambda>x. x \<noteq> None) (map Some cmd @ ys) = map Some cmd @ takeWhile (\<lambda>x. x \<noteq> None) ys" for ys
    by (induction cmd) auto
  show ?case
  proof (cases k)
    case 0
    then show ?thesis using Cons.prems(2) tw [of "[]"] tw by auto
  next
    case (Suc j)
    then have ne: "cmds \<noteq> []" "j < length cmds" using Cons.prems(1) by auto
    then show ?thesis using Suc Cons.prems(2) Cons.IH [of j "pre @ map Some cmd @ [None]" "a + length cmd + 1"] by simp
  qed
qed simp

lemma length_next_starts: "cmds \<noteq> [] \<Longrightarrow> length (next_starts a cmds) = length cmds - 1"
  by (induction cmds arbitrary: a) (auto simp: Suc_diff_le Suc_leI)

section \<open>Properties\<close>

text \<open>
  C2. The shell runs the pipeline that was typed: for a line of at least one command, separated by \<open>|\<close>, the first of them not empty,
  each a sequence of words, each word followed by a space, also before a \<open>|\<close> and at the end of the line, meant to be not empty, written with plain characters, backslashes and quotes in
  any mixture, and meant to contain none of the bytes 7, 8 and 12, which are the shell's marks of its operators, splitting
  returns, if its allocations succeed, without a store outside of its arrays however many of these words there are, and \<open>rash_execute\<close>, unless the first word
  is a builtin's name, launches as many commands as were typed, with one pipe less, no redirection, and for each command
  exactly the words that were meant as its arguments.
\<close>

theorem shell_runs_pipeline:
  assumes "cmds \<noteq> []" "hd cmds \<noteq> []" "\<forall>cmd \<in> set cmds. list_all word_ok cmd"
    "word_text (hd (hd cmds)) \<notin> {[0x68, 0x65, 0x6C, 0x70], [0x65, 0x78, 0x69, 0x74]}"
  shows "\<exists>st. Option.bind (rash_split_line (pipeline_line cmds)) rash_execute = Some (Launch st) \<and> pipes st + 1 = length cmds
    \<and> map (command_args st) [0..<length cmds] = map (map word_text) cmds \<and> input_name st = None \<and> output_name st = None"
proof -
  let ?cs = "map (map word_text) cmds"
  have ok: "list_all (list_all word_ok) cmds" using assms(3) by (simp add: list_all_iff)
  then have um: "list_all (list_all unmarked) ?cs" by (auto simp: list_all_iff word_ok_def unmarked_def)
  define st where "st = \<lparr>l_args = with_nulls ?cs, commandStarts = 0 # next_starts 0 ?cs, pipes = length cmds - 1,
      input_name = None, output_name = None\<rparr>"
  have "rash_launch (pipeline_tokens ?cs) = Some st"
    using launch_pipeline [OF um, of 0 "\<lparr>l_args = [], commandStarts = [0], pipes = 0, input_name = None, output_name = None\<rparr>"]
    by (simp add: rash_launch_def st_def)
  moreover obtain w cmd rest' where "cmds = (w # cmd) # rest'" using assms(1,2) by (cases cmds; cases "hd cmds") auto
  ultimately have "rash_execute (pipeline_tokens ?cs) = Some (Launch st)" using assms(4) by (simp add: rash_execute_def)
  moreover have "command_args st k = ?cs ! k" if "k < length cmds" for k
    using command_at [of k ?cs "[]" 0] that by (simp add: command_args_def st_def comp_def)
  then have "map (command_args st) [0..<length cmds] = ?cs" by (intro nth_equalityI) simp_all
  ultimately show ?thesis using split_pipeline [OF ok] assms(1) by (auto simp: st_def)
qed

theorem shell_runs_pipeline_witness:
  "let cmds = [[[Plain 0x6C, Plain 0x73], [Quot [0x61, 0x20, 0x7C]]], [[Plain 0x77, Esc 0x5C]]] in
   \<exists>st. Option.bind (rash_split_line (pipeline_line cmds)) rash_execute = Some (Launch st) \<and> pipes st + 1 = length cmds
    \<and> map (command_args st) [0..<length cmds] = map (map word_text) cmds \<and> input_name st = None \<and> output_name st = None"
  unfolding Let_def by (rule shell_runs_pipeline) (simp_all add: word_ok_def word_text_def)

text \<open>
  An operator right behind a word can be stored outside of the array: after 15 tokens, a word that is followed by an operator
  without a space gives two tokens in one turn, and the second is written behind the sixteenth slot.
\<close>

theorem split_overflows:
  assumes "holds DEFAULT t ts s" "t \<noteq> []" "length ts = 15" "sp_argbuf s = 16"
  shows "split_step 0x7C s = None"
  using assms by (simp add: holds_def split_inv_def split_step_def split_default_def add_token_def)

theorem split_overflows_witness:
  "split_step 0x7C \<lparr>sp_state = DEFAULT, sp_token = [0x61], sp_tokbuf = 16, sp_tokens = replicate 15 [0x61], sp_argbuf = 16\<rparr> = None"
  by (rule split_overflows [where t = "[0x61]" and ts = "replicate 15 [0x61]"]) (simp_all add: holds_def split_inv_def)

end
