(* ===== verification/Spec2Isabelle.thy ===== *)
theory Spec2Isabelle
  imports Ctype RString Fs Sort Syscall Keyboard Screen Dprintf Umalloc Env Gdt Shell
begin

text \<open>
  A verification development of RazOS, a small 32-bit x86 operating system in C: the kernel under \<^verbatim>\<open>src/kernel\<close>, the C library
  and the programs of its users under \<^verbatim>\<open>src/rlibc\<close>.

  \<^bold>\<open>The system.\<close> The kernel counts physical memory in frames, maps them through page tables, and builds from these its own heap and
  the heap of each user task. On the kernel heap stand the file systems (files in memory, pipes, named FIFOs, the standard
  streams), which one interface of descriptors and nodes joins, and the tasks. Drivers feed this from outside: the keyboard
  writes to the standard input, the screen shows what the kernel and the standard output print, the clock is read from
  CMOS. Programs enter the kernel by system calls and are started by the loader; the user library adds formatted output, a
  heap, strings, sorting and environment variables, and the shell turns lines of text into commands.

  \<^bold>\<open>Theories and sources.\<close> Every theory opens with what it holds. In the order of the layers:
  \<^item> \<open>Prelude\<close>: machine types, error numbers, lemmas on words, lists and options that all others share.
  \<^item> \<open>CString\<close>, \<open>RString\<close>, \<open>Ctype\<close>: \<^verbatim>\<open>kernel/lib/string.c\<close>, \<^verbatim>\<open>rlibc/string\<close>, both copies of \<^verbatim>\<open>ctype.c\<close>, over byte memory.
  \<^item> \<open>Frames\<close>, \<open>Paging\<close>, \<open>Kvm\<close>: \<^verbatim>\<open>kernel/src/mm/paging.c\<close> and \<^verbatim>\<open>kvm.c\<close>: the bitmap of frames, directories and tables, the
    kernel's \<open>brk\<close> and \<open>sbrk\<close>, the start of paging.
  \<^item> \<open>Alloc\<close>, \<open>Kmalloc\<close>: the contract of an allocator, and \<^verbatim>\<open>kernel/src/mm/kmalloc.c\<close>, which satisfies it.
  \<^item> \<open>VfsBase\<close>, \<open>Blocks\<close>, \<open>Ramfs\<close>, \<open>Pipe\<close>, \<open>Fifofs\<close>, \<open>Stdio\<close>, \<open>Vfs\<close>, \<open>Fs\<close>: \<^verbatim>\<open>kernel/src/fs\<close>, the last one over the kernel's
    allocator.
  \<^item> \<open>Task\<close>, \<open>MemFrame\<close>, \<open>Uvm\<close>, \<open>Machine\<close>, \<open>Exec\<close>, \<open>Syscall\<close>: \<^verbatim>\<open>kernel/src/mm/task.c\<close> and \<^verbatim>\<open>uvm.c\<close>, the kernel as a whole with user
    memory seen through the active page directory, \<^verbatim>\<open>kernel/src/loader\<close>, \<^verbatim>\<open>kernel/src/syscall\<close>.
  \<^item> \<open>Time\<close>, \<open>Keyboard\<close>, \<open>Screen\<close>, \<open>Gdt\<close>: \<^verbatim>\<open>kernel/lib/mktime.c\<close> and \<^verbatim>\<open>kernel/src/drivers/time.c\<close>, \<^verbatim>\<open>drivers/kb.c\<close>, \<^verbatim>\<open>vga.c\<close> and \<^verbatim>\<open>console.c\<close>,
    \<^verbatim>\<open>gdt.c\<close> and \<^verbatim>\<open>drivers/idt.c\<close>.
  \<^item> \<open>Format\<close>, \<open>Dprintf\<close>, \<open>Umalloc\<close>, \<open>Env\<close>, \<open>Sort\<close>, \<open>Shell\<close>: \<^verbatim>\<open>kernel/lib/vsprintf.c\<close>, \<^verbatim>\<open>rlibc/stdio/vdprintf.c\<close>, \<^verbatim>\<open>rlibc/stdlib/malloc.c\<close>,
    \<^verbatim>\<open>env.c\<close>, \<^verbatim>\<open>qsort.c\<close> and \<^verbatim>\<open>bsearch.c\<close>, \<^verbatim>\<open>rlibc/rash.c\<close>.

  \<^bold>\<open>How the code is modelled.\<close> A structure is a record and keeps its field names, up to a prefix; an integer of the C code is a word of
  its width, or an \<open>int\<close> with its wrap-around written out (\<open>i32\<close>). A routine with effects takes and returns the state it works
  on; the states of the memory layers extend one another as records (\<open>paging_st\<close>, \<open>kvm_st\<close>, \<open>kmalloc_st\<close>, \<open>task_st\<close>), and
  \<open>fs_st\<close> carries the state of the memory below it. Structures in the kernel heap are kept in maps from their address. The
  heap's own headers and these structures are apart from each other and from the bytes of physical memory: that an access to
  one changes the other, as when memory is exhausted and frame 0 is mapped twice, is not part of the model. The
  outer \<open>None\<close> of an option stands for what C leaves undefined or what does not return: a NULL that is followed, an access
  outside an array, a panic, an endless loop; errors the code reports are ordinary values, \<open>-1\<close> with \<open>errno\<close> set.
  \<open>errno\<close> is a field of the state, not the memory at \<open>errno_loc\<close>.

  \<^bold>\<open>Parameters.\<close> What is not C code of the repository, or is left open, is an argument: what other tasks do during a task switch
  (\<open>sched\<close>) and interrupts during a wait (\<open>irq\<close>), the reads of ports, the contents of fresh memory, the addresses that
  assembly provides, the comparison function of \<open>qsort\<close>, \<open>write\<close> under \<open>vdprintf\<close>, \<open>sbrk\<close> and \<open>brk\<close> under \<open>malloc\<close>, whether
  the allocations of \<open>setenv\<close> succeed and what the block for its string held, and the word behind the table of system calls.

  \<^bold>\<open>Interfaces.\<close> \<open>allocator\<close> (blocks handed out are disjoint, aligned, and stay until freed) is interpreted on \<open>kmalloc\<close> and \<open>kfree\<close>, which
  use \<open>sbrk_provider\<close>, interpreted on \<open>ksbrk\<close>; \<open>fs_allocator\<close>, \<open>block_writer\<close>, \<open>ramfs_files\<close>, \<open>pipe_files\<close>, \<open>fifo_files\<close> and
  \<open>vfs_files\<close> build the file systems on it, and theory \<open>Fs\<close> interprets them on the kernel's allocator. \<open>user_break\<close>, what
  \<open>malloc\<close> needs of \<open>sbrk\<close>, is interpreted on \<open>uvm_sbrk\<close>; \<open>byte_sink\<close>, what \<open>vdprintf\<close> needs of \<open>write\<close>, on a descriptor that is
  open on \<open>stdout\<close>; \<open>string_library\<close> on both string libraries.

  \<^bold>\<open>Bounds and fuel.\<close> \<open>kmalloc\<close> and \<open>ksbrk\<close> call each other, for a new page table; \<open>kernel_alloc d\<close> bounds that nesting by \<open>d\<close>, and its
  theorems hold for every depth from 1 on. Loops whose end depends on the data (lists of nodes, waiting) are partial
  functions; the theorems about them state that they return. The allocator theorems ask for requests below 1 GiB (2 GiB in
  user space), where the sizes of the code do not wrap around.

  \<^bold>\<open>What is shown.\<close> For the allocators, refinement of first fit on a list of blocks, disjointness, and that freeing joins and restores;
  for files, pipes, FIFOs and the standard input, that what was written is read, through the whole of \<open>creat\<close>, \<open>write\<close>,
  \<open>close\<close>, \<open>open\<close> and \<open>read\<close>; for paging, that a mapping translates and a break moves exactly the pages between; for
  tasks, that fork keeps the table well formed, every ready task is chosen in turn, and a parent gets the status of its
  child; for the loader, the layout of a new program's stack; that a \<open>write\<close> takes the bytes of the caller to the console; for the calendar,
  agreement with a count of days; for sorting, order and permutation; for the keyboard, an invariant of its flags and the
  characters typed; for the screen and formatted output, the text that appears and that the cursor stays on the screen;
  for the shell, that the commands meant are the commands run. Where the code does not do what it means to, a lemma
  states what it does instead.

  \<^bold>\<open>Not modelled.\<close> Assembly (entry points, stack switches, loading of tables) and inline assembly (control registers, ports, the user side of
  a system call); floating point (\<^verbatim>\<open>strtod.c\<close>, \<^verbatim>\<open>rlibc/math\<close>, \<open>%f\<close> of \<open>vdprintf\<close>), as there is no theory of IEEE numbers to build
  on; \<open>do_commands\<close> of the shell, \<^verbatim>\<open>term.c\<close> and \<open>kmain\<close>, sequences of calls without logic of their own; routines that only print
  or hold tables of messages; the tools of the build host.
\<close>

section \<open>From a program to the screen\<close>

text \<open>\<open>write_stdout\<close> hands its bytes to \<open>kputchar\<close>: the screen after them is that of \<open>kputs_loop\<close>.\<close>

lemma kputs_loop_append: "kputs_loop (xs @ ys) s = kputs_loop ys (kputs_loop xs s)"
  by (induction xs arbitrary: s) simp_all

lemma kputs_loop_nul:
  assumes "screen_ok s"
  shows "kputs_loop [0] s = move_cursor s"
proof -
  have "\<not> 80 \<le> cursor_x s" "\<not> 25 \<le> cursor_y s" using assms by (simp_all add: screen_ok_def not_le)
  then show ?thesis
    by (simp add: kputchar_def kputchar_color_def vga_putchar_def vga_char_def vga_wrap_def scroll_def vga_mkchar_char)
qed

text \<open>
  C5. What a program prints is what the user sees: with descriptor 1 open on \<open>stdout\<close>, \<open>printf\<close> of a format of plain characters and
  conversions whose text is printable and fits on the rest of the line hands bytes to the console that show, in the current
  colours and from the cursor on, exactly that text; the cursor ends behind it and no other cell of the screen changes.
\<close>

theorem printf_on_screen:
  assumes "\<forall>p \<in> set ps. plain p" "txt = concat (map text_of ps)" "\<forall>c \<in> set txt. printable c" "on_stdout 1 (dev b)" "wbuf b = []"
    "unat (cursor_x scr) + length txt < 80" "cursor_y scr < 25"
  shows "\<exists>b' new. printf (\<lambda>fd bs. write_vfs e fd (Some bs)) (concat (map fmt_of ps)) (concat (map args_of ps)) b
        = Some (int (length txt) + 1, [], b') \<and> console (dev b') = console (dev b) @ new
    \<and> unat (cursor_x (kputs_loop new scr)) = unat (cursor_x scr) + length txt \<and> cursor_y (kputs_loop new scr) = cursor_y scr
    \<and> (\<forall>i. video_memory (kputs_loop new scr) i =
          (if unat (cursor_y scr) * 80 + unat (cursor_x scr) \<le> i \<and> i < unat (cursor_y scr) * 80 + unat (cursor_x scr) + length txt
           then vga_mkchar (txt ! (i - (unat (cursor_y scr) * 80 + unat (cursor_x scr)))) (cur_bg scr) (cur_fg scr)
           else video_memory scr i))"
proof -
  note line = kputs_loop_line [OF assms(3,6,7)]
  have "screen_ok (kputs_loop txt scr)" using line assms(6,7) by (simp add: screen_ok_def word_less_nat_alt)
  then have nul: "kputs_loop (txt @ [0]) scr = move_cursor (kputs_loop txt scr)"
    using kputs_loop_nul by (simp only: kputs_loop_append)
  have "length txt < 2147483647" using assms(6) by simp
  then show ?thesis using stdout_sink.vdprintf_text [OF assms(1,2,4,5), of e] line
    unfolding printf_def by (metis (no_types, lifting) nul move_cursor_simps int_ops(2) of_nat_1)
qed

theorem printf_on_screen_witness:
  "let ps = [Lit 0x6E, Lit 0x3D, Dec 42]; e = \<lparr>e_km = \<lambda>h n. (0, h), e_kf = \<lambda>h p. h, e_sched = id, e_irq = id\<rparr>;
       s = (fs_init ())\<lparr>files := \<lambda>_. \<lparr>vfs_node = 1, at_off = 0, oflag = O_WRONLY\<rparr>, vnodes := \<lambda>_. zero_node\<lparr>v_write := Some STDOUT\<rparr>\<rparr>;
       b = \<lparr>wbuf = [], nprinted = 0, dev = s\<rparr>; txt = [0x6E, 0x3D, 0x34, 0x32]; scr = sample_screen\<lparr>cursor_x := 4, cursor_y := 2\<rparr> in
   \<exists>b' new. printf (\<lambda>fd bs. write_vfs e fd (Some bs)) (concat (map fmt_of ps)) (concat (map args_of ps)) b
        = Some (int (length txt) + 1, [], b') \<and> console (dev b') = console (dev b) @ new
    \<and> unat (cursor_x (kputs_loop new scr)) = unat (cursor_x scr) + length txt \<and> cursor_y (kputs_loop new scr) = cursor_y scr
    \<and> (\<forall>i. video_memory (kputs_loop new scr) i =
          (if unat (cursor_y scr) * 80 + unat (cursor_x scr) \<le> i \<and> i < unat (cursor_y scr) * 80 + unat (cursor_x scr) + length txt
           then vga_mkchar (txt ! (i - (unat (cursor_y scr) * 80 + unat (cursor_x scr)))) (cur_bg scr) (cur_fg scr)
           else video_memory scr i))"
  unfolding Let_def
  by (rule printf_on_screen)
    (simp_all add: on_stdout_def bad_fd_def fs_init_def sample_screen_def printable_def decimal_def radix.simps [of _ _ 42]
      radix.simps [of _ _ 4] digs_nth)

section \<open>From a system call to the console\<close>



end
